(* ===== verification/Ferret_Prelude.thy ===== *)
theory Ferret_Prelude
  imports Main "HOL-Library.Word" "HOL-Library.Multiset"
begin

text \<open>
  Shared vocabulary of the FerretOS development: the machine integers of the
  \<^verbatim>\<open>riscv32imac\<close> target, the ways the kernel stops (panics and halts) as values,
  the result combinator that threads them, Rust's checked array accesses, the runs of tests, the
  collection of invariant definitions, and the
  generic lemmas on lists and words that the component theories use.
\<close>

unbundle bit_operations_syntax

named_theorems kernel_invs "the definitions that layer the invariant of the running kernel"

section \<open>Machine integers\<close>

text \<open>
  \<open>usize\<close> is 32 bits wide on the target. Additions and subtractions of the source
  that carry no \<open>checked_\<close> or \<open>wrapping_\<close> prefix wrap around in the release
  profile (\<^verbatim>\<open>Cargo.toml\<close> leaves \<open>overflow-checks\<close> off), as \<open>+\<close> and \<open>-\<close> on words do.
\<close>

type_synonym u8 = "8 word"
type_synonym u16 = "16 word"
type_synonym u32 = "32 word"
type_synonym u64 = "64 word"
type_synonym usize = "32 word"

section \<open>Faults\<close>

datatype endpoint = Sender | Receiver

text \<open>
  One constructor per way the kernel stops running: a Rust panic (assertion, index out of
  bounds, slot out of range) or a diagnostic followed by \<open>halt()\<close>.
\<close>

datatype fault =
    IndexOutOfBounds
  | QueueCapacityExceeded
  | RegistryFull
  | KernelStackSlotOutOfRange
  | NoRunnableTask
  | StackCanaryOverwritten nat
  | CapabilityConflict nat u8 u8
  | CapabilityOutOfRange nat u8
  | ChannelConflict endpoint nat u8 u8
  | ChannelOutOfRange endpoint nat u8
  | MemoryLayoutError u8
  | HardwareFault u32 u32 u32
  | NullFrame
  | MessageTooLong
  | UninitialisedRead
  | UnwrapOfNone

section \<open>Results\<close>

text \<open>A computation that may stop with a fault: \<open>Inl\<close> is the fault, \<open>Inr\<close> the value.\<close>

type_synonym 'a res = "fault + 'a"

definition bind_res :: "'a res \<Rightarrow> ('a \<Rightarrow> 'b res) \<Rightarrow> 'b res" where
  "bind_res m f = (case m of Inl e \<Rightarrow> Inl e | Inr x \<Rightarrow> f x)"

lemma bind_res_simps [simp]:
  "bind_res (Inl e) f = Inl e"
  "bind_res (Inr x) f = f x"
  by (simp_all add: bind_res_def)

lemma bind_res_cong [fundef_cong]:
  assumes "m = m'" and "\<And>x. m' = Inr x \<Longrightarrow> f x = f' x"
  shows "bind_res m f = bind_res m' f'"
  using assms by (cases m') auto

lemma bind_res_eq_Inr_iff: "bind_res m f = Inr y \<longleftrightarrow> (\<exists>x. m = Inr x \<and> f x = Inr y)"
  by (cases m) auto

lemma bind_res_eq_Inl_iff:
  "bind_res m f = Inl e \<longleftrightarrow> m = Inl e \<or> (\<exists>x. m = Inr x \<and> f x = Inl e)"
  by (cases m) auto

lemma bind_res_InrE:
  assumes "bind_res m f = Inr y"
  obtains x where "m = Inr x" and "f x = Inr y"
  using assms by (auto simp: bind_res_eq_Inr_iff)

text \<open>A \<open>for\<close> loop whose body may stop: the state is threaded through the elements in order.\<close>

fun fold_res :: "('a \<Rightarrow> 's \<Rightarrow> 's res) \<Rightarrow> 'a list \<Rightarrow> 's \<Rightarrow> 's res" where
  "fold_res f [] s = Inr s"
| "fold_res f (x # xs) s = bind_res (f x s) (fold_res f xs)"

lemma fold_res_append: "fold_res f (xs @ ys) s = bind_res (fold_res f xs s) (fold_res f ys)"
  by (induction xs arbitrary: s) (auto simp: bind_res_def split: sum.splits)

lemma fold_res_invariant:
  assumes "\<And>x s s'. x \<in> set xs \<Longrightarrow> P s \<Longrightarrow> f x s = Inr s' \<Longrightarrow> P s'" and "P s"
    and "fold_res f xs s = Inr s'"
  shows "P s'"
  using assms by (induction xs arbitrary: s) (auto simp: bind_res_eq_Inr_iff)

lemma fold_res_total:
  assumes "\<And>x s. x \<in> set xs \<Longrightarrow> P s \<Longrightarrow> f x s = Inr (g x s) \<and> P (g x s)" and "P s"
  shows "fold_res f xs s = Inr (fold g xs s) \<and> P (fold g xs s)"
  using assms by (induction xs arbitrary: s) simp_all

section \<open>Array accesses\<close>

text \<open>Rust arrays: an index out of range panics; \<open>swap\<close> checks both indices.\<close>

definition arr_get :: "'a list \<Rightarrow> nat \<Rightarrow> 'a res" where
  "arr_get xs i = (if i < length xs then Inr (xs ! i) else Inl IndexOutOfBounds)"

definition arr_set :: "'a list \<Rightarrow> nat \<Rightarrow> 'a \<Rightarrow> 'a list res" where
  "arr_set xs i v = (if i < length xs then Inr (xs[i := v]) else Inl IndexOutOfBounds)"

definition swap_at :: "'a list \<Rightarrow> nat \<Rightarrow> nat \<Rightarrow> 'a list" where
  "swap_at xs i j = xs[i := xs ! j, j := xs ! i]"

definition arr_swap :: "'a list \<Rightarrow> nat \<Rightarrow> nat \<Rightarrow> 'a list res" where
  "arr_swap xs i j =
     (if i < length xs \<and> j < length xs then Inr (swap_at xs i j) else Inl IndexOutOfBounds)"

lemma arr_get_in [simp]: "i < length xs \<Longrightarrow> arr_get xs i = Inr (xs ! i)"
  by (simp add: arr_get_def)

lemma arr_set_in [simp]: "i < length xs \<Longrightarrow> arr_set xs i v = Inr (xs[i := v])"
  by (simp add: arr_set_def)

lemma arr_swap_in [simp]:
  "i < length xs \<Longrightarrow> j < length xs \<Longrightarrow> arr_swap xs i j = Inr (swap_at xs i j)"
  by (simp add: arr_swap_def)

lemma length_swap_at [simp]: "length (swap_at xs i j) = length xs"
  by (simp add: swap_at_def)

lemma nth_swap_at:
  "i < length xs \<Longrightarrow> j < length xs \<Longrightarrow>
   swap_at xs i j ! k = (if k = i then xs ! j else if k = j then xs ! i else xs ! k)"
  by (auto simp: swap_at_def nth_list_update)

lemma mset_swap_at [simp]:
  "i < length xs \<Longrightarrow> j < length xs \<Longrightarrow> mset (swap_at xs i j) = mset xs"
  by (simp add: swap_at_def mset_swap)

lemma set_swap_at [simp]:
  "i < length xs \<Longrightarrow> j < length xs \<Longrightarrow> set (swap_at xs i j) = set xs"
  using mset_swap_at [of i xs j] by (metis set_mset_mset)

lemma swap_at_map_append:
  "i < length xs \<Longrightarrow> j < length xs \<Longrightarrow>
   swap_at (map f xs @ ys) i j = map f (swap_at xs i j) @ ys"
  by (simp add: swap_at_def list_update_append map_update nth_append)

section \<open>Test runs\<close>

text \<open>
  How a run of a test or of a model-checking harness ends: cut off by an assumption, in a panic (a
  failed assertion, an overflow, a panic or halt of the code under test), or at its end.
\<close>

datatype verdict = Discarded | Panicked | Completed

definition asserting :: "bool \<Rightarrow> verdict \<Rightarrow> verdict" where
  "asserting c rest = (if c then rest else Panicked)"

definition calling :: "'a res \<Rightarrow> ('a \<Rightarrow> verdict) \<Rightarrow> verdict" where
  "calling r rest = (case r of Inl f \<Rightarrow> Panicked | Inr x \<Rightarrow> rest x)"

lemma calling_simps [simp]:
  "calling (Inl f) rest = Panicked" "calling (Inr x) rest = rest x"
  by (simp_all add: calling_def)

section \<open>Signed readings of 32-bit words\<close>

lemma int_mod_one_wrap: "m \<le> x \<Longrightarrow> x < 2 * m \<Longrightarrow> x mod m = x - (m::int)"
  using mod_pos_pos_trivial [of "x - m" m] by simp

lemma unat_u32_less: "unat (w::u32) < 4294967296"
  using unsigned_less [of w, where 'a = nat] by simp

lemma sint_u32: "sint (w::u32) = (if unat w < 2^31 then int (unat w) else int (unat w) - 2^32)"
proof -
  obtain n where w: "uint w = int n" "unat w = n" by (simp add: uint_nat del: of_nat_unat)
  have b: "n < 4294967296" using unat_u32_less w by auto
  have "sint w = (int n + 2147483648) mod 4294967296 - 2147483648"
    by (simp add: sint_uint signed_take_bit_eq_take_bit_shift take_bit_eq_mod w)
  then show ?thesis
    using b by (cases "n < 2147483648") (simp_all add: int_mod_one_wrap w del: of_nat_unat)
qed

lemma sint_u32_pos: "0 < sint (w::u32) \<longleftrightarrow> 0 < unat w \<and> unat w < 2^31"
  using unat_u32_less [of w] by (auto simp: sint_u32 not_less simp del: of_nat_unat)

lemma sint_u32_nonneg: "0 \<le> sint (w::u32) \<longleftrightarrow> unat w < 2^31"
  using unat_u32_less [of w] by (auto simp: sint_u32 not_less simp del: of_nat_unat)

lemma unat_sub_u32: "unat (a - b :: u32) = (if unat b \<le> unat a then unat a - unat b else unat a + 2^32 - unat b)"
  by (simp add: unat_sub_if' )

lemma unat_add_u32: "unat (a + b :: u32) = (unat a + unat b) mod 2 ^ 32"
  by (simp add: unat_word_ariths)

section \<open>Lists\<close>

lemma first_index:
  "\<exists>x\<in>set xs. P x \<Longrightarrow>
   length (takeWhile (\<lambda>x. \<not> P x) xs) < length xs \<and>
   P (xs ! length (takeWhile (\<lambda>x. \<not> P x) xs))"
  by (induction xs) auto

lemma sort_key_unique:
  assumes "mset xs = mset ys" and "sorted (map f ys)" and "inj_on f (set ys)"
  shows "sort_key f xs = (ys :: 'a list)"
proof -
  have "sort (map f ys) = map f (sort_key f xs)"
    using assms(1) by (intro properties_for_sort) simp_all
  then have "map f (sort_key f xs) = map f ys"
    using assms(2) by (simp add: sort_key_id_if_sorted)
  moreover have "set (sort_key f xs) = set ys"
    using assms(1) by (metis mset_sort set_mset_mset)
  ultimately show ?thesis
    using assms(3) by (simp add: inj_on_map_eq_map)
qed

end
