(* ===== verification/Task_Registry.thy ===== *)
theory Task_Registry
  imports Ferret_Prelude
begin

text \<open>
  Task descriptors and the static task registry (\<^verbatim>\<open>kernel/src/memory/task.rs\<close>), with the
  kernel-wide limits of \<^verbatim>\<open>kernel/src/config.rs\<close>. The two statics \<open>TASK_REGISTRY\<close> and
  \<open>TASK_COUNT\<close> are the record \<open>task_table\<close>, which the kernel state extends.
\<close>

section \<open>Configuration\<close>

abbreviation (input) MAX_TASKS :: nat where "MAX_TASKS \<equiv> 16"
abbreviation (input) MAX_PERIPHERALS :: nat where "MAX_PERIPHERALS \<equiv> 32"
abbreviation (input) MAX_CHANNELS :: nat where "MAX_CHANNELS \<equiv> 8"

definition FLASH_ORIGIN :: usize where "FLASH_ORIGIN = 0x80000000"
definition FLASH_SIZE :: usize where "FLASH_SIZE = 512 * 1024"
definition TASK_RAM_ORIGIN :: usize where "TASK_RAM_ORIGIN = 0x800B8000"
definition TASK_RAM_SIZE :: usize where "TASK_RAM_SIZE = 32 * 1024"

section \<open>Descriptors\<close>

datatype task_state = Ready | Running | Blocked | Suspended

datatype block_reason = NotBlocked | Sleep | Send u8 | Receive u8

datatype task_mode = User | Machine

record task_descriptor =
  td_id :: u8
  td_priority :: u8
  td_state :: task_state
  td_stack_ptr :: usize
  td_stack_base :: usize
  td_stack_size :: usize
  td_memory_start :: usize
  td_memory_end :: usize
  td_exclusive_cap_mask :: u32
  td_shared_cap_mask :: u32
  td_required_cap_mask :: u32
  td_max_inherited_priority :: u8
  td_entry :: usize
  td_wake_at :: u32
  td_mode :: task_mode
  td_sends_mask :: u32
  td_receives_mask :: u32
  td_blocked_on :: block_reason

definition with_capabilities ::
  "u8 \<Rightarrow> u8 \<Rightarrow> usize \<Rightarrow> usize \<Rightarrow> usize \<Rightarrow> usize \<Rightarrow> u32 \<Rightarrow> u32 \<Rightarrow> u32 \<Rightarrow> task_descriptor" where
  "with_capabilities i p stack_base stack_size memory_start memory_end excl shared required =
     \<lparr>td_id = i, td_priority = p, td_state = Ready,
      td_stack_ptr = stack_base + stack_size,
      td_stack_base = stack_base, td_stack_size = stack_size,
      td_memory_start = memory_start, td_memory_end = memory_end,
      td_exclusive_cap_mask = excl, td_shared_cap_mask = shared,
      td_required_cap_mask = required, td_max_inherited_priority = 0,
      td_entry = 0, td_wake_at = 0, td_mode = User,
      td_sends_mask = 0, td_receives_mask = 0, td_blocked_on = NotBlocked\<rparr>"

definition task_new ::
  "u8 \<Rightarrow> u8 \<Rightarrow> usize \<Rightarrow> usize \<Rightarrow> usize \<Rightarrow> usize \<Rightarrow> task_descriptor" where
  "task_new i p stack_base stack_size memory_start memory_end =
     \<lparr>td_id = i, td_priority = p, td_state = Ready,
      td_stack_ptr = stack_base + stack_size,
      td_stack_base = stack_base, td_stack_size = stack_size,
      td_memory_start = memory_start, td_memory_end = memory_end,
      td_exclusive_cap_mask = 0, td_shared_cap_mask = 0,
      td_required_cap_mask = 0, td_max_inherited_priority = 0,
      td_entry = 0, td_wake_at = 0, td_mode = User,
      td_sends_mask = 0, td_receives_mask = 0, td_blocked_on = NotBlocked\<rparr>"

definition with_channels :: "u32 \<Rightarrow> u32 \<Rightarrow> task_descriptor \<Rightarrow> task_descriptor" where
  "with_channels sends receives d = d\<lparr>td_sends_mask := sends, td_receives_mask := receives\<rparr>"

definition with_mode :: "task_mode \<Rightarrow> task_descriptor \<Rightarrow> task_descriptor" where
  "with_mode m d = d\<lparr>td_mode := m\<rparr>"

definition with_entry :: "usize \<Rightarrow> task_descriptor \<Rightarrow> task_descriptor" where
  "with_entry e d = d\<lparr>td_entry := e\<rparr>"

text \<open>The test \<open>mask & (1 << i) != 0\<close> that every capability check of the kernel uses.\<close>

definition mask_has :: "u32 \<Rightarrow> nat \<Rightarrow> bool" where
  "mask_has m i \<longleftrightarrow> m AND push_bit i 1 \<noteq> 0"

definition exclusive_capabilities :: "task_descriptor \<Rightarrow> nat list" where
  "exclusive_capabilities d = filter (mask_has (td_exclusive_cap_mask d)) [0..<32]"

definition shared_capabilities :: "task_descriptor \<Rightarrow> nat list" where
  "shared_capabilities d = filter (mask_has (td_shared_cap_mask d)) [0..<32]"

definition required_capabilities :: "task_descriptor \<Rightarrow> nat list" where
  "required_capabilities d = filter (mask_has (td_required_cap_mask d)) [0..<32]"

definition effective_priority :: "task_descriptor \<Rightarrow> u8" where
  "effective_priority d = max (td_priority d) (td_max_inherited_priority d)"

section \<open>The registry\<close>

record task_table =
  registry :: "task_descriptor option list"
  task_count :: nat

definition register_task :: "task_descriptor \<Rightarrow> 'z task_table_scheme \<Rightarrow> 'z task_table_scheme res" where
  "register_task d tt =
     (if task_count tt < MAX_TASKS then
        bind_res (arr_set (registry tt) (task_count tt) (Some d)) (\<lambda>r.
          Inr (tt\<lparr>registry := r, task_count := task_count tt + 1\<rparr>))
      else Inl RegistryFull)"

definition empty_table :: task_table where
  "empty_table = \<lparr>registry = replicate MAX_TASKS None, task_count = 0\<rparr>"

section \<open>Lemmas\<close>

lemma mask_has_bit: "mask_has m i \<longleftrightarrow> bit m i"
proof -
  have "push_bit i (1 :: u32) = 2 ^ i" by (simp add: push_bit_eq_mult)
  then show ?thesis
    by (simp add: mask_has_def and_exp_eq_0_iff_not_bit)
qed

lemma mask_has_less: "mask_has m i \<Longrightarrow> i < 32"
  using bit_imp_le_length [of m i] by (simp add: mask_has_bit)

lemma masks_overlap_iff: "m AND n \<noteq> (0 :: u32) \<longleftrightarrow> (\<exists>i. mask_has m i \<and> mask_has n i)"
  using mask_has_less [of m] by (auto simp: mask_has_bit bit_eq_iff bit_and_iff)

definition table_wf :: "'z task_table_scheme \<Rightarrow> bool" where
  "table_wf tt \<longleftrightarrow>
     length (registry tt) = MAX_TASKS \<and> task_count tt \<le> MAX_TASKS \<and>
     (\<forall>i < MAX_TASKS. registry tt ! i \<noteq> None \<longleftrightarrow> i < task_count tt)"

fun register_all :: "task_descriptor list \<Rightarrow> 'z task_table_scheme \<Rightarrow> 'z task_table_scheme res" where
  "register_all [] tt = Inr tt"
| "register_all (d # ds) tt = bind_res (register_task d tt) (register_all ds)"

lemma table_wf_empty: "table_wf empty_table"
  by (simp add: table_wf_def empty_table_def)

lemma register_task_wf:
  assumes "table_wf tt" and "task_count tt < MAX_TASKS"
  shows "\<exists>tt'. register_task d tt = Inr tt' \<and> table_wf tt' \<and>
               task_count tt' = Suc (task_count tt) \<and>
               registry tt' = (registry tt)[task_count tt := Some d]"
  using assms by (auto simp: register_task_def table_wf_def nth_list_update less_Suc_eq)

lemma register_all_from:
  assumes "registry tt = map Some xs @ replicate (MAX_TASKS - length xs) None"
    and "task_count tt = length xs" and "length xs \<le> MAX_TASKS"
  shows "register_all ds tt =
         (if length xs + length ds \<le> MAX_TASKS
          then Inr (tt\<lparr>registry := map Some (xs @ ds) @
                        replicate (MAX_TASKS - length (xs @ ds)) None,
                      task_count := length (xs @ ds)\<rparr>)
          else Inl RegistryFull)"
  using assms
proof (induction ds arbitrary: xs tt)
  case (Cons d ds)
  show ?case
  proof (cases "length xs < MAX_TASKS")
    case True
    then have rep: "replicate (MAX_TASKS - length xs) (None :: task_descriptor option) =
        None # replicate (MAX_TASKS - length (xs @ [d])) None"
      by (cases "MAX_TASKS - length xs") (auto dest: Suc_diff_Suc)
    let ?tt = "tt\<lparr>registry := map Some (xs @ [d]) @ replicate (MAX_TASKS - length (xs @ [d])) None,
                  task_count := length (xs @ [d])\<rparr>"
    have "register_task d tt = Inr ?tt"
      using True Cons.prems rep by (simp add: register_task_def list_update_append)
    with Cons.IH [of ?tt "xs @ [d]"] True show ?thesis by simp
  next
    case False
    with Cons.prems show ?thesis by (simp add: register_task_def)
  qed
qed (cases tt, simp)

text \<open>
  Registering a sequence of descriptors at boot fills the registry slots in that order and
  leaves the rest empty when there are at most \<open>MAX_TASKS\<close> of them, and panics otherwise.
\<close>

theorem register_all_boot:
  "register_all ds empty_table =
   (if length ds \<le> MAX_TASKS
    then Inr \<lparr>registry = map Some ds @ replicate (MAX_TASKS - length ds) None,
              task_count = length ds\<rparr>
    else Inl RegistryFull)"
  using register_all_from [of empty_table "[]" ds] by (simp add: empty_table_def)

lemma effective_priority_ge:
  "td_priority d \<le> effective_priority d"
  "td_max_inherited_priority d \<le> effective_priority d"
  by (simp_all add: effective_priority_def)

end
