(* ===== verification/Task_Stack.thy ===== *)
theory Task_Stack
  imports Task_Registry
begin

text \<open>
  Task stacks with their canary (\<^verbatim>\<open>kernel/src/memory/stack.rs\<close>) and the compile-time memory
  regions (\<^verbatim>\<open>kernel/src/memory/region.rs\<close>). Memory is a function from addresses to bytes; a 32-bit
  access is little-endian, as on the target.
\<close>

section \<open>Model\<close>

type_synonym memory = "usize \<Rightarrow> u8"

definition read_u32 :: "memory \<Rightarrow> usize \<Rightarrow> u32" where
  "read_u32 m a =
     ucast (m a) OR push_bit 8 (ucast (m (a + 1))) OR push_bit 16 (ucast (m (a + 2))) OR
     push_bit 24 (ucast (m (a + 3)))"

definition write_u32 :: "usize \<Rightarrow> u32 \<Rightarrow> memory \<Rightarrow> memory" where
  "write_u32 a w m =
     m(a := ucast w, a + 1 := ucast (drop_bit 8 w), a + 2 := ucast (drop_bit 16 w),
       a + 3 := ucast (drop_bit 24 w))"

definition STACK_CANARY :: u32 where "STACK_CANARY = 0xDEADC0DE"

text \<open>\<open>Stack::new\<close>: \<open>None\<close> where the compile-time assertions reject the size.\<close>

definition stack_new :: "nat \<Rightarrow> u8 list option" where
  "stack_new n =
     (if n mod 16 = 0 \<and> 16 \<le> n then
        Some ((replicate n 0)
          [0 := ucast (STACK_CANARY AND 0xFF),
           1 := ucast (drop_bit 8 STACK_CANARY AND 0xFF),
           2 := ucast (drop_bit 16 STACK_CANARY AND 0xFF),
           3 := ucast (drop_bit 24 STACK_CANARY AND 0xFF)])
      else None)"

text \<open>The stack buffer of \<open>N\<close> bytes at address \<open>base\<close>.\<close>

definition stack_top_ptr :: "usize \<Rightarrow> nat \<Rightarrow> usize" where
  "stack_top_ptr base n = base + of_nat n"

definition write_canary :: "usize \<Rightarrow> memory \<Rightarrow> memory" where
  "write_canary stack_base m = write_u32 stack_base STACK_CANARY m"

definition canary_intact :: "usize \<Rightarrow> memory \<Rightarrow> bool" where
  "canary_intact stack_base m \<longleftrightarrow> read_u32 m stack_base = STACK_CANARY"

definition region_valid :: "usize \<Rightarrow> usize \<Rightarrow> bool" where
  "region_valid start stop \<longleftrightarrow> start < stop"

definition region_base :: "usize \<Rightarrow> usize \<Rightarrow> usize" where
  "region_base start limit = start"

definition region_end :: "usize \<Rightarrow> usize \<Rightarrow> usize" where
  "region_end start limit = limit"

definition region_size :: "usize \<Rightarrow> usize \<Rightarrow> usize" where
  "region_size start stop = stop - start"

definition region_contains :: "usize \<Rightarrow> usize \<Rightarrow> usize \<Rightarrow> bool" where
  "region_contains start stop addr \<longleftrightarrow> addr \<ge> start \<and> addr < stop"

definition assert_no_overlap :: "usize \<Rightarrow> usize \<Rightarrow> usize \<Rightarrow> usize \<Rightarrow> bool" where
  "assert_no_overlap a_start a_end b_start b_end \<longleftrightarrow> a_end \<le> b_start \<or> b_end \<le> a_start"

section \<open>Lemmas\<close>

lemma u32_bytes:
  "ucast (ucast w :: u8) OR push_bit 8 (ucast (ucast (drop_bit 8 w) :: u8)) OR
   push_bit 16 (ucast (ucast (drop_bit 16 w) :: u8)) OR
   push_bit 24 (ucast (ucast (drop_bit 24 w) :: u8)) = (w :: u32)"
proof (rule bit_word_eqI)
  fix n assume "n < LENGTH(32)"
  then have n: "n < 32" by simp
  consider "n < 8" | "8 \<le> n" "n < 16" | "16 \<le> n" "n < 24" | "24 \<le> n" using n by linarith
  then show "bit (ucast (ucast w :: u8) OR push_bit 8 (ucast (ucast (drop_bit 8 w) :: u8)) OR
      push_bit 16 (ucast (ucast (drop_bit 16 w) :: u8)) OR
      push_bit 24 (ucast (ucast (drop_bit 24 w) :: u8)) :: u32) n \<longleftrightarrow> bit w n"
    using n by cases (auto simp: bit_simps)
qed

lemma read_write_u32: "read_u32 (write_u32 a w m) a = w"
proof -
  have "a + 1 \<noteq> a" "a + 2 \<noteq> a" "a + 3 \<noteq> a" "a + 2 \<noteq> a + 1" "a + 3 \<noteq> a + 1" "a + 3 \<noteq> a + 2"
    by simp_all
  then show ?thesis by (simp add: read_u32_def write_u32_def u32_bytes)
qed

lemma write_u32_frame:
  "x \<notin> {a, a + 1, a + 2, a + 3} \<Longrightarrow> write_u32 a w m x = m x"
  by (simp add: write_u32_def)

lemma canary_write: "canary_intact b (write_canary b m)"
  by (simp add: canary_intact_def write_canary_def read_write_u32)

lemma canary_write_other:
  assumes "{b, b + 1, b + 2, b + 3} \<inter> {b', b' + 1, b' + 2, b' + 3} = {}"
  shows "canary_intact b (write_canary b' m) \<longleftrightarrow> canary_intact b m"
  using assms by (auto simp: canary_intact_def read_u32_def write_canary_def write_u32_frame)

text \<open>
  A canary written at the bottom of a stack is intact until one of its four bytes is
  overwritten with a different value, and any such change is detected.
\<close>

theorem canary_detects_overwrite:
  "canary_intact b m' \<longleftrightarrow> (\<forall>k < 4. m' (b + of_nat k) = write_canary b m (b + of_nat k))"
proof -
  have four: "(\<forall>k < 4. P k) \<longleftrightarrow> P 0 \<and> P 1 \<and> P 2 \<and> P (3::nat)" for P
    by (auto simp: less_Suc_eq numeral_eq_Suc)
  have byte: "(ucast (drop_bit (8 * i) (read_u32 m' b)) :: u8) = m' (b + of_nat i)" if "i < 4" for i
  proof (rule bit_word_eqI)
    fix n assume "n < LENGTH(8)"
    then have n: "n < 8" by simp
    have "i = 0 \<or> i = 1 \<or> i = 2 \<or> i = 3" using that by linarith
    then show "bit (ucast (drop_bit (8 * i) (read_u32 m' b)) :: u8) n \<longleftrightarrow> bit (m' (b + of_nat i)) n"
      using n by (elim disjE) (auto simp: read_u32_def bit_simps dest: bit_imp_le_length)
  qed
  have w: "write_canary b m (b + of_nat k) = ucast (drop_bit (8 * k) STACK_CANARY)" if "k < 4" for k
  proof -
    have "k = 0 \<or> k = 1 \<or> k = 2 \<or> k = 3" using that by linarith
    then show ?thesis by (elim disjE) (simp_all add: write_canary_def write_u32_def)
  qed
  show ?thesis
  proof
    assume "canary_intact b m'"
    then have "read_u32 m' b = STACK_CANARY" by (simp add: canary_intact_def)
    then show "\<forall>k < 4. m' (b + of_nat k) = write_canary b m (b + of_nat k)"
      using byte w by metis
  next
    assume "\<forall>k < 4. m' (b + of_nat k) = write_canary b m (b + of_nat k)"
    then have "read_u32 m' b = read_u32 (write_canary b m) b"
      unfolding four by (simp add: read_u32_def)
    then show "canary_intact b m'"
      by (simp add: canary_intact_def write_canary_def read_write_u32)
  qed
qed

theorem canary_detects_overwrite_witness:
  "canary_intact 0x800B8000 (write_canary 0x800B8000 (\<lambda>_. 0)) \<and>
   \<not> canary_intact 0x800B8000 ((write_canary 0x800B8000 (\<lambda>_. 0))(0x800B8003 := 0))"
proof
  show "canary_intact 0x800B8000 (write_canary 0x800B8000 (\<lambda>_. 0))"
    by (subst canary_detects_overwrite [where m = "\<lambda>_. 0"]) simp
  have "write_canary 0x800B8000 (\<lambda>_. 0) 0x800B8003 = 0xDE"
    by (simp add: write_canary_def write_u32_def STACK_CANARY_def)
  then have "((write_canary 0x800B8000 (\<lambda>_. 0))(0x800B8003 := 0)) (0x800B8000 + of_nat 3) \<noteq>
      write_canary 0x800B8000 (\<lambda>_. 0) (0x800B8000 + of_nat 3)" by simp
  then show "\<not> canary_intact 0x800B8000 ((write_canary 0x800B8000 (\<lambda>_. 0))(0x800B8003 := 0))"
    by (subst canary_detects_overwrite [where m = "\<lambda>_. 0"]) (intro notI, drule spec [of _ 3], simp)
qed

lemma no_overlap_disjoint:
  assumes "region_valid a_start a_end" and "region_valid b_start b_end"
  shows "assert_no_overlap a_start a_end b_start b_end \<longleftrightarrow>
         (\<nexists>x. region_contains a_start a_end x \<and> region_contains b_start b_end x)"
proof
  assume "assert_no_overlap a_start a_end b_start b_end"
  then show "\<nexists>x. region_contains a_start a_end x \<and> region_contains b_start b_end x"
    by (auto simp: assert_no_overlap_def region_contains_def)
next
  assume none: "\<nexists>x. region_contains a_start a_end x \<and> region_contains b_start b_end x"
  show "assert_no_overlap a_start a_end b_start b_end"
  proof (rule ccontr)
    assume "\<not> ?thesis"
    then have "region_contains a_start a_end (max a_start b_start) \<and>
               region_contains b_start b_end (max a_start b_start)"
      using assms by (auto simp: assert_no_overlap_def region_contains_def region_valid_def max_def)
    with none show False by blast
  qed
qed

end
