(* ===== verification/Trap_Frame.thy ===== *)
theory Trap_Frame
  imports Task_Registry
begin

text \<open>
  Trap frames, the per-task kernel stacks that hold them and the initial frame of a task
  (\<^verbatim>\<open>kernel/src/context/mod.rs\<close>). The address of the kernel-stack array is chosen by the linker and
  is a parameter; frames are kept in a map from their address.
\<close>

section \<open>Model\<close>

record trap_frame =
  regs :: "usize list"
  mepc :: usize
  mstatus :: usize
  mcause :: usize
  mtval :: usize

definition TRAP_FRAME_SIZE :: usize where "TRAP_FRAME_SIZE = 144"

abbreviation (input) REG_RA :: nat where "REG_RA \<equiv> 1"
abbreviation (input) REG_SP :: nat where "REG_SP \<equiv> 2"
abbreviation (input) REG_GP :: nat where "REG_GP \<equiv> 3"
abbreviation (input) REG_A0 :: nat where "REG_A0 \<equiv> 10"
abbreviation (input) REG_A1 :: nat where "REG_A1 \<equiv> 11"
abbreviation (input) REG_A2 :: nat where "REG_A2 \<equiv> 12"
abbreviation (input) REG_A3 :: nat where "REG_A3 \<equiv> 13"
abbreviation (input) REG_A7 :: nat where "REG_A7 \<equiv> 17"

definition MSTATUS_MPP_MACHINE :: usize where "MSTATUS_MPP_MACHINE = push_bit 11 3"
definition MSTATUS_MPP_USER :: usize where "MSTATUS_MPP_USER = 0"
definition MSTATUS_MPIE :: usize where "MSTATUS_MPIE = push_bit 7 1"

definition KERNEL_STACK_SIZE :: usize where "KERNEL_STACK_SIZE = 1024"

type_synonym frame_store = "usize \<rightharpoonup> trap_frame"

text \<open>\<open>stacks\<close> is the address of the array \<open>KERNEL_STACKS\<close>.\<close>

definition kernel_stack_top :: "usize \<Rightarrow> nat \<Rightarrow> usize res" where
  "kernel_stack_top stacks slot =
     (if slot < MAX_TASKS then Inr (stacks + of_nat slot * KERNEL_STACK_SIZE + KERNEL_STACK_SIZE)
      else Inl KernelStackSlotOutOfRange)"

definition init_frame ::
  "usize \<Rightarrow> usize \<Rightarrow> usize \<Rightarrow> usize \<Rightarrow> usize \<Rightarrow> usize \<Rightarrow> frame_store \<Rightarrow> usize \<times> frame_store" where
  "init_frame stack_top user_stack_top entry exit_trap gp status fs =
     (let frame = stack_top - TRAP_FRAME_SIZE;
          rs = (replicate 32 0)[REG_RA := exit_trap, REG_SP := user_stack_top, REG_GP := gp]
      in (frame, fs(frame \<mapsto> \<lparr>regs = rs, mepc = entry, mstatus = status, mcause = 0, mtval = 0\<rparr>)))"

section \<open>Frames of different tasks never share an address\<close>

definition frame_slot :: "usize \<Rightarrow> nat \<Rightarrow> usize" where
  "frame_slot stacks slot = stacks + of_nat slot * KERNEL_STACK_SIZE + KERNEL_STACK_SIZE - TRAP_FRAME_SIZE"

lemma kernel_stack_top_slot:
  "slot < MAX_TASKS \<Longrightarrow> kernel_stack_top stacks slot = Inr (frame_slot stacks slot + TRAP_FRAME_SIZE)"
  by (simp add: kernel_stack_top_def frame_slot_def)

lemma frame_slot_inj:
  assumes "i < MAX_TASKS" and "j < MAX_TASKS" and "frame_slot stacks i = frame_slot stacks j"
  shows "i = j"
proof -
  have "(of_nat i * 1024 :: usize) = of_nat j * 1024"
    using assms(3) by (simp add: frame_slot_def KERNEL_STACK_SIZE_def)
  then have "(of_nat (i * 1024) :: usize) = of_nat (j * 1024)" by simp
  from arg_cong [OF this, of unat] have "(i * 1024) mod 2 ^ 32 = (j * 1024) mod 2 ^ 32"
    by (simp only: unat_of_nat) simp
  then show ?thesis using assms(1,2) by simp
qed

end
