(* ===== verification/Trap_Stub.thy ===== *)
theory Trap_Stub
  imports Task_Stack Trap_Frame
begin

unbundle bit_operations_syntax

text \<open>
  The assembly of \<^verbatim>\<open>kernel/src/context/trap.rs\<close>: the trap entry stub that saves the interrupted
  registers in a frame on the task's kernel stack, and the exit sequence that resumes a frame. The
  instructions run on a hart with its registers, the machine-mode CSRs they touch, and memory.
\<close>

section \<open>The hart\<close>

datatype csr = Mscratch | Mepc | Mstatus | Mcause | Mtval

record hart =
  xregs :: "nat \<Rightarrow> u32"
  csrs :: "csr \<Rightarrow> u32"
  pc :: u32
  priv :: u32
  hmem :: memory

text \<open>Operands in the order of the assembly: \<open>Sw rs off base\<close> is \<open>sw rs, off(base)\<close>.\<close>

datatype instr =
    Csrrw nat csr nat
  | Csrr nat csr
  | Csrw csr nat
  | Addi nat nat u32
  | Mv nat nat
  | Sw nat u32 nat
  | Lw nat u32 nat
  | Mret

definition xget :: "hart \<Rightarrow> nat \<Rightarrow> u32" where
  "xget h r = (if r = 0 then 0 else xregs h r)"

definition xset :: "nat \<Rightarrow> u32 \<Rightarrow> hart \<Rightarrow> hart" where
  "xset r v h = (if r = 0 then h else h\<lparr>xregs := (xregs h)(r := v)\<rparr>)"

definition csr_set :: "csr \<Rightarrow> u32 \<Rightarrow> hart \<Rightarrow> hart" where
  "csr_set c v h = h\<lparr>csrs := (csrs h)(c := v)\<rparr>"

text \<open>\<open>mret\<close>: return to the mode in \<open>MPP\<close> with the interrupt enable of \<open>MPIE\<close>; \<open>MPIE\<close> becomes 1, \<open>MPP\<close> user.\<close>

definition MSTATUS_MIE :: u32 where "MSTATUS_MIE = push_bit 3 1"

definition mret_status :: "u32 \<Rightarrow> u32" where
  "mret_status s =
     (s AND NOT (MSTATUS_MPP_MACHINE OR MSTATUS_MIE)) OR MSTATUS_MPIE OR
     (if bit s 7 then MSTATUS_MIE else 0)"

fun exec1 :: "instr \<Rightarrow> hart \<Rightarrow> hart" where
  "exec1 (Csrrw rd c rs) h = xset rd (csrs h c) (csr_set c (xget h rs) h)"
| "exec1 (Csrr rd c) h = xset rd (csrs h c) h"
| "exec1 (Csrw c rs) h = csr_set c (xget h rs) h"
| "exec1 (Addi rd rs imm) h = xset rd (xget h rs + imm) h"
| "exec1 (Mv rd rs) h = xset rd (xget h rs) h"
| "exec1 (Sw rs off base) h = h\<lparr>hmem := write_u32 (xget h base + off) (xget h rs) (hmem h)\<rparr>"
| "exec1 (Lw rd off base) h = xset rd (read_u32 (hmem h) (xget h base + off)) h"
| "exec1 Mret h =
     (csr_set Mstatus (mret_status (csrs h Mstatus)) h)
       \<lparr>pc := csrs h Mepc, priv := drop_bit 11 (csrs h Mstatus) AND 3\<rparr>"

definition exec :: "instr list \<Rightarrow> hart \<Rightarrow> hart" where
  "exec is = fold exec1 is"

lemma exec_simps [simp]:
  "exec [] h = h" "exec (i # is) h = exec is (exec1 i h)" "exec (is @ js) h = exec js (exec is h)"
  by (simp_all add: exec_def)

section \<open>The stubs\<close>

definition trap_entry :: "instr list" where
  "trap_entry =
     [Csrrw 2 Mscratch 2,
      Addi 2 2 (- 144),
      Sw 0 0 2, Sw 1 4 2, Sw 3 12 2, Sw 4 16 2, Sw 5 20 2, Sw 6 24 2, Sw 7 28 2, Sw 8 32 2,
      Sw 9 36 2, Sw 10 40 2, Sw 11 44 2, Sw 12 48 2, Sw 13 52 2, Sw 14 56 2, Sw 15 60 2,
      Sw 16 64 2, Sw 17 68 2, Sw 18 72 2, Sw 19 76 2, Sw 20 80 2, Sw 21 84 2, Sw 22 88 2,
      Sw 23 92 2, Sw 24 96 2, Sw 25 100 2, Sw 26 104 2, Sw 27 108 2, Sw 28 112 2, Sw 29 116 2,
      Sw 30 120 2, Sw 31 124 2,
      Csrr 5 Mscratch, Sw 5 8 2,
      Csrr 5 Mepc, Sw 5 128 2,
      Csrr 5 Mstatus, Sw 5 132 2,
      Csrr 5 Mcause, Sw 5 136 2,
      Csrr 5 Mtval, Sw 5 140 2,
      Mv 10 2]"

definition restore_context :: "instr list" where
  "restore_context =
     [Mv 2 10,
      Addi 5 2 144,
      Csrw Mscratch 5,
      Lw 5 128 2, Csrw Mepc 5,
      Lw 5 132 2, Csrw Mstatus 5,
      Lw 1 4 2, Lw 3 12 2, Lw 4 16 2, Lw 5 20 2, Lw 6 24 2, Lw 7 28 2, Lw 8 32 2, Lw 9 36 2,
      Lw 10 40 2, Lw 11 44 2, Lw 12 48 2, Lw 13 52 2, Lw 14 56 2, Lw 15 60 2, Lw 16 64 2,
      Lw 17 68 2, Lw 18 72 2, Lw 19 76 2, Lw 20 80 2, Lw 21 84 2, Lw 22 88 2, Lw 23 92 2,
      Lw 24 96 2, Lw 25 100 2, Lw 26 104 2, Lw 27 108 2, Lw 28 112 2, Lw 29 116 2, Lw 30 120 2,
      Lw 31 124 2,
      Lw 2 8 2,
      Mret]"

definition start_first_task :: "u32 \<Rightarrow> hart \<Rightarrow> hart" where
  "start_first_task frame h = exec restore_context (xset 10 frame h)"

section \<open>Frames in memory\<close>

text \<open>The \<open>#[repr(C)]\<close> layout: 32 registers, then the four CSRs.\<close>

definition frame_words :: "trap_frame \<Rightarrow> u32 list" where
  "frame_words f = regs f @ [mepc f, mstatus f, mcause f, mtval f]"

definition word_at :: "usize \<Rightarrow> nat \<Rightarrow> usize" where
  "word_at p i = p + of_nat (4 * i)"

definition frame_in :: "memory \<Rightarrow> usize \<Rightarrow> trap_frame \<Rightarrow> bool" where
  "frame_in m p f \<longleftrightarrow> length (regs f) = 32 \<and> (\<forall>i < 36. read_u32 m (word_at p i) = frame_words f ! i)"

text \<open>A byte offset below \<open>2^32\<close> from a base is determined by the address.\<close>

lemma offset_inj:
  assumes "i < 2 ^ 32" and "j < 2 ^ 32" and "p + of_nat i = (p + of_nat j :: usize)"
  shows "i = j"
proof -
  have "unat (of_nat i :: usize) = unat (of_nat j :: usize)" using assms(3) by simp
  then show ?thesis using assms(1,2) by (simp add: unat_of_nat)
qed

lemma word_bytes: "b < 4 \<Longrightarrow> word_at p i + of_nat b = p + of_nat (4 * i + b)"
  by (simp add: word_at_def)

lemma read_u32_cong:
  assumes "\<And>b. b < 4 \<Longrightarrow> m (a + of_nat b) = m' (a + of_nat b)"
  shows "read_u32 m a = read_u32 m' a"
  using assms [of 0] assms [of 1] assms [of 2] assms [of 3] by (simp add: read_u32_def)

lemma write_u32_other:
  assumes "\<And>b. b < 4 \<Longrightarrow> x \<noteq> a + of_nat b"
  shows "write_u32 a w m x = m x"
  using assms [of 0] assms [of 1] assms [of 2] assms [of 3] by (simp add: write_u32_def)

lemma read_write_word:
  assumes "i < 2 ^ 29" and "j < 2 ^ 29"
  shows "read_u32 (write_u32 (word_at p j) v m) (word_at p i) = (if i = j then v else read_u32 m (word_at p i))"
proof (cases "i = j")
  case False
  have "write_u32 (word_at p j) v m (word_at p i + of_nat b) = m (word_at p i + of_nat b)" if b: "b < 4" for b
  proof (rule write_u32_other)
    fix c :: nat assume c: "c < 4"
    have ne: "4 * i + b \<noteq> 4 * j + c" using False b c by presburger
    have "4 * i + b < 2 ^ 32" "4 * j + c < 2 ^ 32" using assms b c by simp_all
    note inj = offset_inj [OF this, of p]
    show "word_at p i + of_nat b \<noteq> word_at p j + of_nat c"
    proof
      assume "word_at p i + of_nat b = word_at p j + of_nat c"
      then have "p + of_nat (4 * i + b) = p + of_nat (4 * j + c)" by (simp only: word_bytes b c)
      with ne show False by (rule notE [OF _ inj])
    qed
  qed
  then have "read_u32 (write_u32 (word_at p j) v m) (word_at p i) = read_u32 m (word_at p i)"
    by (rule read_u32_cong)
  with False show ?thesis by simp
qed (simp add: read_write_u32)

definition store_words :: "usize \<Rightarrow> (nat \<times> u32) list \<Rightarrow> memory \<Rightarrow> memory" where
  "store_words p ws = fold (\<lambda>(i, v). write_u32 (word_at p i) v) ws"

lemma store_words_simps [simp]:
  "store_words p [] m = m"
  "store_words p ((i, v) # ws) m = store_words p ws (write_u32 (word_at p i) v m)"
  by (simp_all add: store_words_def)

lemma store_words_append [simp]: "store_words p (ws @ vs) m = store_words p vs (store_words p ws m)"
  by (simp add: store_words_def)

lemma read_store_words:
  assumes "\<forall>(i, v) \<in> set ws. i < 36" and "i < 36"
  shows "read_u32 (store_words p ws m) (word_at p i) =
         (case map_of (rev ws) i of Some v \<Rightarrow> v | None \<Rightarrow> read_u32 m (word_at p i))"
  using assms
proof (induction ws arbitrary: m)
  case (Cons w ws)
  obtain j v where w: "w = (j, v)" by (cases w)
  have "j < 2 ^ 29" "i < 2 ^ 29" using Cons.prems by (auto simp: w)
  then show ?case
    using Cons by (simp add: w read_write_word map_add_def split: option.splits)
qed simp

lemma store_words_outside:
  assumes "\<forall>(i, v) \<in> set ws. i < 36" and "\<And>n. n < 144 \<Longrightarrow> x \<noteq> p + of_nat n"
  shows "store_words p ws m x = m x"
  using assms(1)
proof (induction ws arbitrary: m)
  case (Cons w ws)
  obtain j v where w: "w = (j, v)" "j < 36" using Cons.prems by (cases w) auto
  have "write_u32 (word_at p j) v m x = m x"
  proof (rule write_u32_other)
    fix b :: nat assume b: "b < 4"
    have "4 * j + b < 144" using w(2) b by simp
    from assms(2) [OF this] show "x \<noteq> word_at p j + of_nat b" by (simp only: word_bytes [OF b] not_False_eq_True)
  qed
  with Cons w show ?case by simp
qed simp

section \<open>Saving\<close>

text \<open>The context a hart is in when the trap is taken, as the frame that should describe it.\<close>

definition interrupted :: "hart \<Rightarrow> trap_frame" where
  "interrupted h =
     \<lparr>regs = map (xget h) [0..<32], mepc = csrs h Mepc, mstatus = csrs h Mstatus, mcause = csrs h Mcause,
      mtval = csrs h Mtval\<rparr>"

lemma xget_simps [simp]:
  "xget h 0 = 0"
  "r \<noteq> 0 \<Longrightarrow> xget (xset r v h) r' = (if r' = r then v else xget h r')"
  "xget (csr_set c v h) r = xget h r"
  "xget (h\<lparr>hmem := m\<rparr>) r = xget h r"
  "xget (h\<lparr>pc := a, priv := b\<rparr>) r = xget h r"
  by (auto simp: xget_def xset_def csr_set_def)

lemma hart_simps [simp]:
  "csrs (xset r v h) = csrs h" "hmem (xset r v h) = hmem h" "pc (xset r v h) = pc h" "priv (xset r v h) = priv h"
  "csrs (csr_set c v h) = (csrs h)(c := v)" "hmem (csr_set c v h) = hmem h"
  "pc (csr_set c v h) = pc h" "priv (csr_set c v h) = priv h"
  by (simp_all add: xset_def csr_set_def)

lemma exec_save_regs:
  "exec (map (\<lambda>r. Sw r (of_nat (4 * r)) 2) rs) h =
   h\<lparr>hmem := store_words (xget h 2) (map (\<lambda>r. (r, xget h r)) rs) (hmem h)\<rparr>"
proof (induction rs arbitrary: h)
  case (Cons r rs)
  have "exec1 (Sw r (of_nat (4 * r)) 2) h = h\<lparr>hmem := write_u32 (word_at (xget h 2) r) (xget h r) (hmem h)\<rparr>"
    by (simp add: word_at_def)
  then show ?case unfolding list.map exec_simps Cons.IH by (simp add: fun_upd_def)
qed simp

lemma exec_save_csr:
  assumes "i < 36" and "off = of_nat (4 * i)"
  shows "exec1 (Sw 5 off 2) (exec1 (Csrr 5 c) h) =
         (xset 5 (csrs h c) h)\<lparr>hmem := store_words (xget h 2) [(i, csrs h c)] (hmem h)\<rparr>"
  by (simp add: assms word_at_def)

lemma trap_entry_eq:
  "trap_entry =
     [Csrrw 2 Mscratch 2, Addi 2 2 (- 144)] @
     map (\<lambda>r. Sw r (of_nat (4 * r)) 2) (0 # 1 # [3..<32]) @
     [Csrr 5 Mscratch, Sw 5 8 2, Csrr 5 Mepc, Sw 5 128 2, Csrr 5 Mstatus, Sw 5 132 2,
      Csrr 5 Mcause, Sw 5 136 2, Csrr 5 Mtval, Sw 5 140 2, Mv 10 2]"
  by (simp add: trap_entry_def upt_rec)

definition saved_words :: "hart \<Rightarrow> (nat \<times> u32) list" where
  "saved_words h =
     map (\<lambda>r. (r, xget h r)) (0 # 1 # [3..<32]) @
     [(2, xget h 2), (32, csrs h Mepc), (33, csrs h Mstatus), (34, csrs h Mcause), (35, csrs h Mtval)]"

lemma trap_entry_effect:
  assumes "p = csrs h Mscratch - 144"
  shows "hmem (exec trap_entry h) = store_words p (saved_words h) (hmem h)"
    and "xget (exec trap_entry h) 10 = p" and "xget (exec trap_entry h) 2 = p"
proof -
  define h1 where "h1 = exec [Csrrw 2 Mscratch 2, Addi 2 2 (- 144)] h"
  have h1: "xget h1 2 = p" "hmem h1 = hmem h" "csrs h1 = (csrs h)(Mscratch := xget h 2)"
    "\<And>r. r \<noteq> 2 \<Longrightarrow> xget h1 r = xget h r"
    by (simp_all add: h1_def assms)
  define h2 where "h2 = exec (map (\<lambda>r. Sw r (of_nat (4 * r)) 2) (0 # 1 # [3..<32])) h1"
  have h2: "h2 = h1\<lparr>hmem := store_words p (map (\<lambda>r. (r, xget h1 r)) (0 # 1 # [3..<32])) (hmem h)\<rparr>"
    unfolding h2_def exec_save_regs h1 ..
  have "map (\<lambda>r. (r, xget h1 r)) (0 # 1 # [3..<32]) = map (\<lambda>r. (r, xget h r)) (0 # 1 # [3..<32])"
    using h1(4) by simp
  note h2 = h2 [unfolded this]
  have e: "exec trap_entry h = exec
      [Csrr 5 Mscratch, Sw 5 8 2, Csrr 5 Mepc, Sw 5 128 2, Csrr 5 Mstatus, Sw 5 132 2,
       Csrr 5 Mcause, Sw 5 136 2, Csrr 5 Mtval, Sw 5 140 2, Mv 10 2] h2"
    unfolding trap_entry_eq exec_simps(3) h1_def h2_def ..
  show "hmem (exec trap_entry h) = store_words p (saved_words h) (hmem h)"
    unfolding e h2 by (simp add: h1 saved_words_def word_at_def del: upt_rec_numeral)
  show "xget (exec trap_entry h) 10 = p" "xget (exec trap_entry h) 2 = p"
    unfolding e h2 by (simp_all add: h1)
qed

lemma saved_words_frame:
  assumes "i < 36"
  shows "map_of (rev (saved_words h)) i = Some (frame_words (interrupted h) ! i)"
proof (rule map_of_is_SomeI)
  show "distinct (map fst (rev (saved_words h)))"
    by (simp add: saved_words_def rev_map [symmetric] comp_def del: upt_rec_numeral)
  have w: "frame_words (interrupted h) ! r = xget h r" if "r < 32" for r
    using that by (simp add: frame_words_def interrupted_def nth_append)
  consider "i = 0" | "i = 1" | "i = 2" | "3 \<le> i" "i < 32" | "i = 32" | "i = 33" | "i = 34" | "i = 35"
    using assms by linarith
  then show "(i, frame_words (interrupted h) ! i) \<in> set (rev (saved_words h))"
    by cases (use w in \<open>auto simp: saved_words_def frame_words_def interrupted_def nth_append numeral_2_eq_2
        simp del: upt_rec_numeral\<close>)
qed

lemma saved_words_bound: "\<forall>(i, v) \<in> set (saved_words h). i < 36"
  by (auto simp: saved_words_def simp del: upt_rec_numeral)

lemma trap_entry_saves:
  assumes "p = csrs h Mscratch - 144"
  shows "frame_in (hmem (exec trap_entry h)) p (interrupted h)"
    and "(\<And>n. n < 144 \<Longrightarrow> x \<noteq> p + of_nat n) \<Longrightarrow> hmem (exec trap_entry h) x = hmem h x"
proof -
  show "frame_in (hmem (exec trap_entry h)) p (interrupted h)"
    unfolding frame_in_def trap_entry_effect(1) [OF assms]
    using read_store_words [OF saved_words_bound, of _ p h "hmem h"] saved_words_frame
    by (simp add: interrupted_def)
  show "hmem (exec trap_entry h) x = hmem h x" if "\<And>n. n < 144 \<Longrightarrow> x \<noteq> p + of_nat n"
    unfolding trap_entry_effect(1) [OF assms] by (rule store_words_outside [OF saved_words_bound that])
qed

section \<open>Restoring\<close>

lemma exec_load_regs:
  assumes "0 \<notin> set rs" and "2 \<notin> set rs"
  shows "xget (exec (map (\<lambda>r. Lw r (of_nat (4 * r)) 2) rs) h) r =
           (if r \<in> set rs then read_u32 (hmem h) (word_at (xget h 2) r) else xget h r)"
    and "csrs (exec (map (\<lambda>r. Lw r (of_nat (4 * r)) 2) rs) h) = csrs h"
    and "hmem (exec (map (\<lambda>r. Lw r (of_nat (4 * r)) 2) rs) h) = hmem h"
  using assms
proof (induction rs arbitrary: h)
  case (Cons r' rs)
  { case 1
    then show ?case using Cons.IH(1) by (auto simp: word_at_def) }
  { case 2
    then show ?case using Cons.IH(2) by simp }
  { case 3
    then show ?case using Cons.IH(3) by simp }
qed simp_all

lemma restore_context_eq:
  "restore_context =
     [Mv 2 10, Addi 5 2 144, Csrw Mscratch 5, Lw 5 128 2, Csrw Mepc 5, Lw 5 132 2, Csrw Mstatus 5] @
     map (\<lambda>r. Lw r (of_nat (4 * r)) 2) (1 # [3..<32]) @ [Lw 2 8 2, Mret]"
  by (simp add: restore_context_def upt_rec)

text \<open>The hart that resumes frame \<open>f\<close>, whose kernel stack top is \<open>kst\<close>.\<close>

definition resumes :: "trap_frame \<Rightarrow> u32 \<Rightarrow> hart \<Rightarrow> bool" where
  "resumes f kst h \<longleftrightarrow>
     (\<forall>r. 0 < r \<longrightarrow> r < 32 \<longrightarrow> xget h r = regs f ! r) \<and> pc h = mepc f \<and>
     priv h = drop_bit 11 (mstatus f) AND 3 \<and> csrs h Mstatus = mret_status (mstatus f) \<and>
     csrs h Mscratch = kst"

lemma restore_context_resumes:
  assumes f: "frame_in (hmem h) p f" and a0: "xget h 10 = p"
  shows "resumes f (p + 144) (exec restore_context h)" and "hmem (exec restore_context h) = hmem h"
proof -
  have rd: "read_u32 (hmem h) (word_at p i) = frame_words f ! i" if "i < 36" for i
    using f that by (simp add: frame_in_def)
  have len: "length (regs f) = 32" using f by (simp add: frame_in_def)
  define h1 where "h1 = exec [Mv 2 10, Addi 5 2 144, Csrw Mscratch 5, Lw 5 128 2, Csrw Mepc 5,
      Lw 5 132 2, Csrw Mstatus 5] h"
  have h1: "xget h1 2 = p" "hmem h1 = hmem h"
    "csrs h1 = (csrs h)(Mscratch := p + 144, Mepc := mepc f, Mstatus := mstatus f)"
    using rd [of 32] rd [of 33] len
    by (simp_all add: h1_def a0 word_at_def frame_words_def nth_append)
  define h2 where "h2 = exec (map (\<lambda>r. Lw r (of_nat (4 * r)) 2) (1 # [3..<32])) h1"
  have rs: "0 \<notin> set (1 # [3..<32])" "2 \<notin> set (1 # [3..<32])" by auto
  note load = exec_load_regs [OF rs, of h1, folded h2_def, unfolded h1]
  have e: "exec restore_context h = exec [Lw 2 8 2, Mret] h2"
    unfolding restore_context_eq exec_simps(3) h1_def h2_def ..
  have "xget h2 2 = p" using load(1) [of 2] by (simp add: h1)
  moreover have "read_u32 (hmem h) (p + 8) = regs f ! 2"
    using rd [of 2] len by (simp add: word_at_def frame_words_def nth_append)
  moreover have "xget h2 r = regs f ! r" if "0 < r" "r < 32" "r \<noteq> 2" for r
  proof -
    have "r \<in> set (1 # [3..<32])" using that by (simp del: upt_rec_numeral) linarith
    with that load(1) [of r] rd [of r] len show ?thesis by (simp add: frame_words_def nth_append del: upt_rec_numeral)
  qed
  ultimately show "resumes f (p + 144) (exec restore_context h)"
    using load(2,3) unfolding e resumes_def by (auto simp: xget_def [where r = 0])
  show "hmem (exec restore_context h) = hmem h" unfolding e using load(3) by simp
qed

section \<open>A trap and its return\<close>

lemma frame_in_cong:
  assumes "frame_in m p f" and "\<And>n. n < 144 \<Longrightarrow> m' (p + of_nat n) = m (p + of_nat n)"
  shows "frame_in m' p f"
proof -
  have "read_u32 m' (word_at p i) = read_u32 m (word_at p i)" if "i < 36" for i
  proof (rule read_u32_cong)
    fix b :: nat assume b: "b < 4"
    have "4 * i + b < 144" using that b by simp
    from assms(2) [OF this] show "m' (word_at p i + of_nat b) = m (word_at p i + of_nat b)"
      by (simp only: word_bytes [OF b])
  qed
  with assms(1) show ?thesis by (simp add: frame_in_def)
qed

text \<open>What the hardware does when it takes a trap: save \<open>pc\<close>, mode and interrupt enable, disable interrupts.\<close>

definition trap_status :: "u32 \<Rightarrow> u32 \<Rightarrow> u32" where
  "trap_status s mode =
     (s AND NOT (MSTATUS_MPP_MACHINE OR MSTATUS_MIE OR MSTATUS_MPIE)) OR push_bit 11 mode OR
     (if bit s 3 then MSTATUS_MPIE else 0)"

definition take_trap :: "u32 \<Rightarrow> u32 \<Rightarrow> hart \<Rightarrow> hart" where
  "take_trap cause tval h =
     h\<lparr>csrs := (csrs h)(Mepc := pc h, Mstatus := trap_status (csrs h Mstatus) (priv h),
                        Mcause := cause, Mtval := tval), priv := 3\<rparr>"

lemmas status_bits = MSTATUS_MPP_MACHINE_def MSTATUS_MIE_def MSTATUS_MPIE_def

lemma three_mask: "(3 :: u32) = mask 2"
  by (simp add: mask_eq_exp_minus_1)

lemma status_bit:
  "bit MSTATUS_MPP_MACHINE n \<longleftrightarrow> n = 11 \<or> n = 12"
  "bit MSTATUS_MIE n \<longleftrightarrow> n = 3"
  "bit MSTATUS_MPIE n \<longleftrightarrow> n = 7"
  unfolding MSTATUS_MPP_MACHINE_def MSTATUS_MIE_def MSTATUS_MPIE_def three_mask
  by (auto simp only: bit_simps) auto

lemma trap_status_bit:
  "bit (trap_status s mode) n \<longleftrightarrow> n < 32 \<and>
     (if n = 11 \<or> n = 12 then bit mode (n - 11)
      else if n = 3 then False
      else if n = 7 then bit s 3
      else bit s n \<or> 11 \<le> n \<and> bit mode (n - 11))"
  unfolding trap_status_def by (auto simp: bit_or_iff bit_and_iff bit_not_iff status_bit bit_push_bit_iff)

lemma trap_status_fields:
  assumes "mode = 0 \<or> mode = 3"
  shows "drop_bit 11 (trap_status s mode) AND 3 = mode" and "bit (trap_status s mode) 7 \<longleftrightarrow> bit s 3"
proof -
  have m: "bit mode n \<Longrightarrow> n < 2" for n using assms by (auto simp: three_mask bit_mask_iff)
  show "drop_bit 11 (trap_status s mode) AND 3 = mode"
  proof (rule bit_word_eqI)
    fix n assume "n < LENGTH(32)"
    have "n < 2 \<longleftrightarrow> n = 0 \<or> n = 1" by linarith
    then show "bit (drop_bit 11 (trap_status s mode) AND 3) n \<longleftrightarrow> bit mode n"
      using m [of n] by (auto simp: three_mask bit_and_iff bit_mask_iff bit_drop_bit_eq trap_status_bit)
  qed
qed (simp add: trap_status_bit)

lemma mret_status_enable: "bit (mret_status s) 3 \<longleftrightarrow> bit s 7"
  unfolding mret_status_def by (simp add: bit_or_iff bit_and_iff bit_not_iff status_bit)

text \<open>
  C12: a trap is transparent: whatever the handler does to the registers and to the rest of memory, as
  long as it returns the frame it was given and leaves its 144 bytes alone the interrupted code
  continues where it was, with every register, its mode and its interrupt enable as they were, and the
  kernel stack is ready for the next trap.
\<close>

theorem trap_round_trip:
  assumes "priv h = 0 \<or> priv h = 3"
    and "xget h2 10 = xget (exec trap_entry (take_trap cause tval h)) 10"
    and "\<forall>n < 144. hmem h2 (csrs h Mscratch - 144 + of_nat n) =
           hmem (exec trap_entry (take_trap cause tval h)) (csrs h Mscratch - 144 + of_nat n)"
  shows "(\<forall>r < 32. xget (exec restore_context h2) r = xget h r) \<and>
         pc (exec restore_context h2) = pc h \<and> priv (exec restore_context h2) = priv h \<and>
         (bit (csrs (exec restore_context h2) Mstatus) 3 \<longleftrightarrow> bit (csrs h Mstatus) 3) \<and>
         csrs (exec restore_context h2) Mscratch = csrs h Mscratch \<and> hmem (exec restore_context h2) = hmem h2"
proof -
  let ?t = "take_trap cause tval h" and ?p = "csrs h Mscratch - 144"
  have t: "csrs ?t Mscratch = csrs h Mscratch" by (simp add: take_trap_def)
  have "?p = csrs ?t Mscratch - 144" by (simp add: t)
  note save = trap_entry_saves(1) [OF this] trap_entry_effect(2) [OF this]
  have f: "frame_in (hmem h2) ?p (interrupted ?t)"
    using assms(3) by (intro frame_in_cong [OF save(1)]) simp
  have "xget h2 10 = ?p" using assms(2) save(2) by simp
  note res = restore_context_resumes [OF f this]
  have "xget ?t r = xget h r" for r by (simp add: take_trap_def xget_def)
  then have "xget (exec restore_context h2) r = xget h r" if "r < 32" for r
    using res(1) that by (cases "r = 0") (simp_all add: resumes_def interrupted_def)
  then show ?thesis
    using res trap_status_fields [OF assms(1), of "csrs h Mstatus"]
    by (simp add: resumes_def interrupted_def take_trap_def mret_status_enable)
qed

definition demo_hart :: hart where
  "demo_hart = \<lparr>xregs = (\<lambda>r. of_nat (3 * r)), csrs = (\<lambda>_. 0)(Mscratch := 0x80081400, Mstatus := 8),
                pc = 0x80001000, priv = 0, hmem = (\<lambda>_. 0)\<rparr>"

theorem trap_round_trip_witness:
  "xget (exec restore_context (exec trap_entry (take_trap 8 0 demo_hart))) 17 = 51 \<and>
   pc (exec restore_context (exec trap_entry (take_trap 8 0 demo_hart))) = 0x80001000 \<and>
   priv (exec restore_context (exec trap_entry (take_trap 8 0 demo_hart))) = 0"
proof -
  have "priv demo_hart = 0 \<or> priv demo_hart = 3" by (simp add: demo_hart_def)
  from trap_round_trip [OF this refl] have "\<forall>r < 32.
      xget (exec restore_context (exec trap_entry (take_trap 8 0 demo_hart))) r = xget demo_hart r"
    "pc (exec restore_context (exec trap_entry (take_trap 8 0 demo_hart))) = pc demo_hart"
    "priv (exec restore_context (exec trap_entry (take_trap 8 0 demo_hart))) = priv demo_hart"
    by blast+
  moreover have "xget demo_hart 17 = 51" "pc demo_hart = 0x80001000" "priv demo_hart = 0"
    by (simp_all add: demo_hart_def xget_def)
  ultimately show ?thesis by simp
qed

end
