(* ===== verification/Priority_Queue.thy ===== *)
theory Priority_Queue
  imports Ferret_Prelude
begin

text \<open>
  The ready queue of \<^verbatim>\<open>kernel/src/scheduler/queue.rs\<close>: a fixed-capacity binary max-heap of
  task ids ranked by effective priority, first-in first-out among equal priorities. The const
  parameter \<open>N\<close> of the source is the length of the heap array. Every array access of the
  source is a checked access here, so a missing bounds argument would show as the fault
  \<open>IndexOutOfBounds\<close>.
\<close>

section \<open>Model\<close>

record heap_entry =
  he_task_id :: u8
  he_effective_priority :: u8
  he_seq :: u32

record prio_queue =
  pq_heap :: "heap_entry option list"
  pq_len :: nat
  pq_next_seq :: u32

definition outranks :: "heap_entry \<Rightarrow> heap_entry \<Rightarrow> bool" where
  "outranks a b =
     (if he_effective_priority a \<noteq> he_effective_priority b
      then he_effective_priority a > he_effective_priority b
      else sint (he_seq b - he_seq a) > 0)"

definition pq_new :: "nat \<Rightarrow> prio_queue" where
  "pq_new n = \<lparr>pq_heap = replicate n None, pq_len = 0, pq_next_seq = 0\<rparr>"

definition pq_is_empty :: "prio_queue \<Rightarrow> bool" where
  "pq_is_empty q = (pq_len q = 0)"

definition outranks_at :: "heap_entry option list \<Rightarrow> nat \<Rightarrow> nat \<Rightarrow> bool res" where
  "outranks_at h a b =
     bind_res (arr_get h a) (\<lambda>ea. bind_res (arr_get h b) (\<lambda>eb.
       Inr (case ea of
              Some x \<Rightarrow> (case eb of Some y \<Rightarrow> outranks x y | None \<Rightarrow> True)
            | None \<Rightarrow> False)))"

definition parent :: "nat \<Rightarrow> nat" where
  "parent idx = (idx - 1) div 2"

lemma parent_less [simp]: "0 < i \<Longrightarrow> parent i < i"
  by (simp add: parent_def)

lemma parent_eq_iff: "0 < j \<Longrightarrow> parent j = i \<longleftrightarrow> j = 2 * i + 1 \<or> j = 2 * i + 2"
  by (auto simp: parent_def)

lemma parent_fixed_iff [simp]: "parent i = i \<longleftrightarrow> i = 0"
  using parent_less [of i] by (auto simp: parent_def)

lemma parent_less_trans [simp]: "i < n \<Longrightarrow> parent i < n"
  by (auto simp: parent_def)

function sift_up :: "heap_entry option list \<Rightarrow> nat \<Rightarrow> heap_entry option list res" where
  "sift_up h idx =
     (if idx > 0 then
        bind_res (outranks_at h idx (parent idx)) (\<lambda>up.
          if up
          then bind_res (arr_swap h idx (parent idx)) (\<lambda>h'. sift_up h' (parent idx))
          else Inr h)
      else Inr h)"
  by pat_completeness auto
termination
  by (relation "measure snd") auto

text \<open>The first two tests of the loop body: the index of the largest of a node and its children.\<close>

definition sift_pick :: "heap_entry option list \<Rightarrow> nat \<Rightarrow> nat \<Rightarrow> nat res" where
  "sift_pick h n idx =
     bind_res (if 2 * idx + 1 < n then outranks_at h (2 * idx + 1) idx else Inr False) (\<lambda>l.
       let largest = (if l then 2 * idx + 1 else idx) in
       bind_res (if 2 * idx + 2 < n then outranks_at h (2 * idx + 2) largest else Inr False) (\<lambda>r.
         Inr (if r then 2 * idx + 2 else largest)))"

lemma sift_pick_bounds:
  "sift_pick h n idx = Inr m \<Longrightarrow> m \<noteq> idx \<Longrightarrow> idx < m \<and> m < n"
  by (auto simp: sift_pick_def bind_res_eq_Inr_iff Let_def split: if_splits)

function sift_down :: "heap_entry option list \<Rightarrow> nat \<Rightarrow> nat \<Rightarrow> heap_entry option list res" where
  "sift_down h n idx =
     bind_res (sift_pick h n idx) (\<lambda>largest.
       if largest = idx then Inr h
       else bind_res (arr_swap h idx largest) (\<lambda>h'. sift_down h' n largest))"
  by pat_completeness auto
termination
  by (relation "measure (\<lambda>(h, n, idx). n - idx)") (auto dest!: sift_pick_bounds)

declare sift_up.simps [simp del] sift_down.simps [simp del]

definition pq_insert :: "prio_queue \<Rightarrow> u8 \<Rightarrow> u8 \<Rightarrow> prio_queue res" where
  "pq_insert q task_id effective_priority =
     (if pq_len q < length (pq_heap q) then
        bind_res (arr_set (pq_heap q) (pq_len q)
                    (Some \<lparr>he_task_id = task_id, he_effective_priority = effective_priority,
                           he_seq = pq_next_seq q\<rparr>)) (\<lambda>h.
        bind_res (sift_up h (pq_len q)) (\<lambda>h'.
          Inr \<lparr>pq_heap = h', pq_len = pq_len q + 1, pq_next_seq = pq_next_seq q + 1\<rparr>))
      else Inl QueueCapacityExceeded)"

definition pq_pop_max :: "prio_queue \<Rightarrow> (u8 option \<times> prio_queue) res" where
  "pq_pop_max q =
     (if pq_len q = 0 then Inr (None, q)
      else bind_res (arr_get (pq_heap q) 0) (\<lambda>root.
        (case root of
           None \<Rightarrow> Inr (None, q)
         | Some e \<Rightarrow>
             let n = pq_len q - 1 in
             bind_res (arr_get (pq_heap q) n) (\<lambda>lst.
             bind_res (arr_set (pq_heap q) 0 lst) (\<lambda>h1.
             bind_res (arr_set h1 n None) (\<lambda>h2.
             bind_res (if n > 0 then sift_down h2 n 0 else Inr h2) (\<lambda>h3.
               Inr (Some (he_task_id e), q\<lparr>pq_heap := h3, pq_len := n\<rparr>))))))))"

definition pq_peek_max :: "prio_queue \<Rightarrow> u8 option res" where
  "pq_peek_max q = bind_res (arr_get (pq_heap q) 0) (\<lambda>e. Inr (map_option he_task_id e))"

definition pq_peek_max_priority :: "prio_queue \<Rightarrow> u8 res" where
  "pq_peek_max_priority q =
     bind_res (arr_get (pq_heap q) 0) (\<lambda>e.
       Inr (case e of None \<Rightarrow> 0 | Some x \<Rightarrow> he_effective_priority x))"

text \<open>\<open>(0..self.len).find(..)\<close>: the first index below \<open>len\<close> holding the task.\<close>

fun pq_find :: "heap_entry option list \<Rightarrow> u8 \<Rightarrow> nat list \<Rightarrow> nat option res" where
  "pq_find h task_id [] = Inr None"
| "pq_find h task_id (i # is) =
     bind_res (arr_get h i) (\<lambda>e.
       if (case e of None \<Rightarrow> False | Some x \<Rightarrow> he_task_id x = task_id)
       then Inr (Some i) else pq_find h task_id is)"

definition pq_remove :: "prio_queue \<Rightarrow> u8 \<Rightarrow> (bool \<times> prio_queue) res" where
  "pq_remove q task_id =
     bind_res (pq_find (pq_heap q) task_id [0..<pq_len q]) (\<lambda>found.
       (case found of
          None \<Rightarrow> Inr (False, q)
        | Some idx \<Rightarrow>
            let n = pq_len q - 1 in
            bind_res (arr_get (pq_heap q) n) (\<lambda>lst.
            bind_res (arr_set (pq_heap q) idx lst) (\<lambda>h1.
            bind_res (arr_set h1 n None) (\<lambda>h2.
            bind_res (if idx < n
                      then bind_res (sift_down h2 n idx) (\<lambda>h. sift_up h idx)
                      else Inr h2) (\<lambda>h3.
              Inr (True, q\<lparr>pq_heap := h3, pq_len := n\<rparr>)))))))"

section \<open>The repair loops on the occupied part of the array\<close>

text \<open>
  The occupied slots form a prefix of the array. On that prefix the loops are functions on
  plain entry lists; the two lemmas below also say that no access is out of bounds.
\<close>

function up :: "heap_entry list \<Rightarrow> nat \<Rightarrow> heap_entry list" where
  "up es i =
     (if i > 0 \<and> outranks (es ! i) (es ! (parent i))
      then up (swap_at es i (parent i)) (parent i) else es)"
  by pat_completeness auto
termination
  by (relation "measure snd") auto

definition pick :: "heap_entry list \<Rightarrow> nat \<Rightarrow> nat" where
  "pick es i =
     (let m = (if 2 * i + 1 < length es \<and> outranks (es ! (2 * i + 1)) (es ! i)
               then 2 * i + 1 else i)
      in if 2 * i + 2 < length es \<and> outranks (es ! (2 * i + 2)) (es ! m) then 2 * i + 2 else m)"

lemma pick_bounds: "pick es i \<noteq> i \<Longrightarrow> i < pick es i \<and> pick es i < length es"
  by (auto simp: pick_def Let_def split: if_splits)

lemma pick_less: "i < length es \<Longrightarrow> pick es i < length es"
  using pick_bounds [of es i] by (cases "pick es i = i") auto

function down :: "heap_entry list \<Rightarrow> nat \<Rightarrow> heap_entry list" where
  "down es i = (if pick es i = i then es else down (swap_at es i (pick es i)) (pick es i))"
  by pat_completeness auto
termination
  by (relation "measure (\<lambda>(es, i). length es - i)") (auto dest: pick_bounds)

declare up.simps [simp del] down.simps [simp del]

lemma length_up [simp]: "length (up es i) = length es"
proof (induction es i rule: up.induct)
  case (1 es i)
  then show ?case by (subst up.simps) auto
qed

lemma length_down [simp]: "length (down es i) = length es"
proof (induction es i rule: down.induct)
  case (1 es i)
  then show ?case by (subst down.simps) auto
qed

lemma mset_up [simp]: "i < length es \<Longrightarrow> mset (up es i) = mset es"
proof (induction es i rule: up.induct)
  case (1 es i)
  then show ?case by (subst up.simps) auto
qed

lemma mset_down [simp]: "i < length es \<Longrightarrow> mset (down es i) = mset es"
proof (induction es i rule: down.induct)
  case (1 es i)
  then show ?case by (subst down.simps) (auto simp: pick_less)
qed

lemma set_up [simp]: "i < length es \<Longrightarrow> set (up es i) = set es"
  using mset_up by (metis set_mset_mset)

lemma set_down [simp]: "i < length es \<Longrightarrow> set (down es i) = set es"
  using mset_down by (metis set_mset_mset)

lemma outranks_at_prefix:
  "a < length es \<Longrightarrow> b < length es \<Longrightarrow>
   outranks_at (map Some es @ ys) a b = Inr (outranks (es ! a) (es ! b))"
  by (simp add: outranks_at_def nth_append)

lemma sift_pick_prefix:
  "i < length es \<Longrightarrow> sift_pick (map Some es @ ys) (length es) i = Inr (pick es i)"
  by (simp add: sift_pick_def pick_def outranks_at_prefix Let_def)

lemma sift_up_prefix:
  "i < length es \<Longrightarrow> sift_up (map Some es @ ys) i = Inr (map Some (up es i) @ ys)"
proof (induction es i rule: up.induct)
  case (1 es i)
  show ?case
  proof (cases "i > 0 \<and> outranks (es ! i) (es ! (parent i))")
    case True
    then have "parent i < length es" using "1.prems" by auto
    with True 1 show ?thesis
      by (subst sift_up.simps, subst up.simps)
        (simp add: outranks_at_prefix swap_at_map_append)
  next
    case False
    with "1.prems" show ?thesis
      by (subst sift_up.simps, subst up.simps) (auto simp: outranks_at_prefix)
  qed
qed

lemma sift_down_prefix:
  "i < length es \<Longrightarrow>
   sift_down (map Some es @ ys) (length es) i = Inr (map Some (down es i) @ ys)"
proof (induction es i rule: down.induct)
  case (1 es i)
  show ?case
  proof (cases "pick es i = i")
    case True
    with "1.prems" show ?thesis
      by (subst sift_down.simps, subst down.simps) (simp add: sift_pick_prefix)
  next
    case False
    with 1 pick_bounds [OF False] show ?thesis
      by (subst sift_down.simps, subst down.simps)
        (simp add: sift_pick_prefix swap_at_map_append)
  qed
qed

section \<open>Heap order, once for every ranking\<close>

text \<open>
  The loops decide with \<^const>\<open>outranks\<close>. A ranking that the decisions respect on the entries
  of a set \<open>L\<close> is kept heap-ordered by both loops. Two rankings are used below: the effective
  priority alone, which \<^const>\<open>outranks\<close> respects on all entries, and the pair of effective
  priority and age, which it respects as long as sequence numbers stay within half the
  32-bit range of each other.
\<close>

definition heap_ordered :: "(heap_entry \<Rightarrow> nat) \<Rightarrow> heap_entry list \<Rightarrow> bool" where
  "heap_ordered key es \<longleftrightarrow>
     (\<forall>j < length es. 0 < j \<longrightarrow> key (es ! j) \<le> key (es ! (parent j)))"

locale heap_rank =
  fixes key :: "heap_entry \<Rightarrow> nat" and L :: "heap_entry set"
  assumes outranks_key: "\<lbrakk>x \<in> L; y \<in> L; outranks x y\<rbrakk> \<Longrightarrow> key y \<le> key x"
    and not_outranks_key: "\<lbrakk>x \<in> L; y \<in> L; \<not> outranks x y\<rbrakk> \<Longrightarrow> key x \<le> key y"
begin

definition except_up :: "heap_entry list \<Rightarrow> nat \<Rightarrow> bool" where
  "except_up es i \<longleftrightarrow>
     (\<forall>j. 0 < j \<and> j < length es \<and> j \<noteq> i \<longrightarrow> key (es ! j) \<le> key (es ! (parent j))) \<and>
     (\<forall>j. 0 < j \<and> j < length es \<and> parent j = i \<and> 0 < i \<longrightarrow>
        key (es ! j) \<le> key (es ! (parent i)))"

definition except_down :: "heap_entry list \<Rightarrow> nat \<Rightarrow> bool" where
  "except_down es i \<longleftrightarrow>
     (\<forall>j. 0 < j \<and> j < length es \<and> parent j \<noteq> i \<longrightarrow>
        key (es ! j) \<le> key (es ! (parent j))) \<and>
     (\<forall>j. 0 < j \<and> j < length es \<and> parent j = i \<and> 0 < i \<longrightarrow>
        key (es ! j) \<le> key (es ! (parent i)))"

lemma heap_ordered_up:
  assumes "except_up es i" and "i < length es" and "set es \<subseteq> L"
  shows "heap_ordered key (up es i)"
  using assms
proof (induction es i rule: up.induct)
  case (1 es i)
  let ?p = "parent i"
  have L: "es ! k \<in> L" if "k < length es" for k
    using "1.prems"(3) that by auto
  show ?case
  proof (cases "i > 0 \<and> outranks (es ! i) (es ! ?p)")
    case True
    then have p: "?p < i" "?p < length es" using "1.prems"(2) by auto
    have ge: "key (es ! ?p) \<le> key (es ! i)"
      using True outranks_key L p "1.prems"(2) by auto
    let ?s = "swap_at es i ?p"
    have nth: "?s ! k = (if k = i then es ! ?p else if k = ?p then es ! i else es ! k)" for k
      using p "1.prems"(2) by (simp add: nth_swap_at)
    have ok: "key (es ! j) \<le> key (es ! (parent j))" if "0 < j" "j < length es" "j \<noteq> i" for j
      using "1.prems"(1) that by (simp add: except_up_def)
    have gp: "key (es ! j) \<le> key (es ! ?p)" if "0 < j" "j < length es" "parent j = i" for j
      using "1.prems"(1) that True unfolding except_up_def by blast
    have "except_up ?s ?p"
      unfolding except_up_def
    proof (intro conjI allI impI, goal_cases)
      case (1 j)
      then show ?case
        using ok [of j] gp [of j] ge p by (auto simp: nth)
    next
      case (2 j)
      then have *: "0 < j" "j < length es" "parent j = ?p" "0 < ?p" by auto
      have "parent ?p < ?p" using *(4) by auto
      then have "?s ! (parent ?p) = es ! (parent ?p)" using p by (simp add: nth)
      moreover have "key (es ! ?p) \<le> key (es ! (parent ?p))"
        using ok [of ?p] p *(4) by auto
      moreover have "key (?s ! j) \<le> key (es ! ?p)"
        using ok [of j] * p by (auto simp: nth)
      ultimately show ?case by simp
    qed
    then have "heap_ordered key (up ?s ?p)"
      using "1.IH" True p "1.prems"(2,3) by simp
    then show ?thesis using True by (subst up.simps) simp
  next
    case False
    have "heap_ordered key es"
      unfolding heap_ordered_def
    proof (intro allI impI, goal_cases)
      case (1 j)
      show ?case
      proof (cases "j = i")
        case True
        with 1 False have "\<not> outranks (es ! i) (es ! ?p)" by auto
        then show ?thesis using not_outranks_key L True 1 by auto
      next
        case False
        then show ?thesis using "1.prems"(1) 1 by (simp add: except_up_def)
      qed
    qed
    then show ?thesis using False by (subst up.simps) auto
  qed
qed

lemma pick_max:
  assumes "i < length es" and "set es \<subseteq> L"
  shows "key (es ! i) \<le> key (es ! pick es i)"
    and "0 < j \<Longrightarrow> j < length es \<Longrightarrow> parent j = i \<Longrightarrow> key (es ! j) \<le> key (es ! pick es i)"
proof -
  have L: "es ! k \<in> L" if "k < length es" for k
    using assms(2) that by auto
  define m where "m = (if 2 * i + 1 < length es \<and> outranks (es ! (2 * i + 1)) (es ! i)
                       then 2 * i + 1 else i)"
  have m: "m < length es" "key (es ! i) \<le> key (es ! m)"
    "2 * i + 1 < length es \<Longrightarrow> key (es ! (2 * i + 1)) \<le> key (es ! m)"
    using outranks_key not_outranks_key L assms(1) by (auto simp: m_def)
  have pick: "pick es i = (if 2 * i + 2 < length es \<and> outranks (es ! (2 * i + 2)) (es ! m)
                           then 2 * i + 2 else m)"
    by (simp add: pick_def m_def)
  have ge: "key (es ! m) \<le> key (es ! pick es i)"
    "2 * i + 2 < length es \<Longrightarrow> key (es ! (2 * i + 2)) \<le> key (es ! pick es i)"
    using outranks_key [OF L L] not_outranks_key [OF L L] m(1) by (auto simp: pick)
  show "key (es ! i) \<le> key (es ! pick es i)"
    using m(2) ge(1) by simp
  show "key (es ! j) \<le> key (es ! pick es i)" if "0 < j" "j < length es" "parent j = i"
    using that m(3) ge by (auto simp: parent_eq_iff)
qed

lemma pick_child: "pick es i \<noteq> i \<Longrightarrow> 0 < pick es i \<and> parent (pick es i) = i"
  by (auto simp: pick_def parent_def Let_def split: if_splits)

lemma heap_ordered_down:
  assumes "except_down es i" and "i < length es" and "set es \<subseteq> L"
  shows "heap_ordered key (down es i)"
  using assms
proof (induction es i rule: down.induct)
  case (1 es i)
  let ?c = "pick es i" and ?s = "swap_at es i (pick es i)"
  note max = pick_max [OF "1.prems"(2,3)]
  have ok: "key (es ! j) \<le> key (es ! parent j)" if "0 < j" "j < length es" "parent j \<noteq> i" for j
    using "1.prems"(1) that by (simp add: except_down_def)
  show ?case
  proof (cases "?c = i")
    case True
    have "heap_ordered key es"
      unfolding heap_ordered_def using ok max True by metis
    then show ?thesis using True by (subst down.simps) simp
  next
    case False
    note c = pick_bounds [OF False] pick_child [OF False]
    have nth: "?s ! k = (if k = i then es ! ?c else if k = ?c then es ! i else es ! k)" for k
      using c(1) by (simp add: nth_swap_at)
    have gp: "key (es ! j) \<le> key (es ! parent i)" if "0 < j" "j < length es" "parent j = i" "0 < i" for j
      using "1.prems"(1) that unfolding except_down_def by blast
    have "except_down ?s ?c"
      unfolding except_down_def
    proof (intro conjI allI impI, goal_cases)
      case (1 j)
      then have j: "0 < j" "j < length es" "parent j \<noteq> ?c" by auto
      consider "j = i" | "j = ?c" | "j \<noteq> i" "j \<noteq> ?c" "parent j = i" | "j \<noteq> i" "j \<noteq> ?c" "parent j \<noteq> i"
        by blast
      then show ?case
      proof cases
        case 1
        then have "parent j \<noteq> i" "parent j \<noteq> ?c" using j c by (auto dest: parent_less)
        then show ?thesis using 1 j c gp [of ?c] by (simp add: nth)
      next
        case 2
        then show ?thesis using j c max(1) by (simp add: nth)
      next
        case 3
        then show ?thesis using j max(2) by (simp add: nth)
      next
        case 4
        then show ?thesis using j ok by (simp add: nth)
      qed
    next
      case (2 j)
      then have j: "0 < j" "j < length es" "parent j = ?c" by auto
      then have "j \<noteq> ?c" "j \<noteq> i" using c parent_less [of j] by auto
      moreover have "key (es ! j) \<le> key (es ! ?c)" using ok [of j] j c by auto
      ultimately show ?case using c by (simp add: nth)
    qed
    then have "heap_ordered key (down ?s ?c)"
      using "1.IH" False c "1.prems"(2,3) by simp
    then show ?thesis using False by (subst down.simps) simp
  qed
qed

text \<open>
  What \<open>remove\<close> does to a slot: its entry is replaced by an arbitrary one, and both loops run.
\<close>

lemma heap_ordered_replace:
  assumes "heap_ordered key es" and "i < length es" and "x \<in> L" and "set es \<subseteq> L"
  shows "heap_ordered key (up (down (es[i := x]) i) i)"
proof -
  let ?r = "es[i := x]"
  have len: "i < length ?r" and sub: "set ?r \<subseteq> L"
    using assms set_update_subset_insert [of es i x] by auto
  have ho: "key (es ! j) \<le> key (es ! parent j)" if "0 < j" "j < length es" for j
    using assms(1) that by (simp add: heap_ordered_def)
  have nth: "?r ! k = (if k = i then x else es ! k)" if "k < length es" for k
    using that by (auto simp: nth_list_update)
  have gp: "key (?r ! j) \<le> key (?r ! parent i)"
    if "0 < j" "j < length es" "parent j = i" "0 < i" for j
  proof -
    have "j \<noteq> i" "parent i \<noteq> i" using that parent_less [of j] parent_less [of i] by auto
    then have "?r ! j = es ! j" "?r ! parent i = es ! parent i"
      using that assms(2) by (auto simp: nth)
    then show ?thesis
      using ho [of j] ho [of i] that assms(2) by auto
  qed
  show ?thesis
  proof (cases "pick ?r i = i")
    case True
    then have child: "key (?r ! j) \<le> key (?r ! i)"
      if "0 < j" "j < length ?r" "parent j = i" for j
      using pick_max(2) [OF len sub] that by simp
    have "except_up ?r i"
      unfolding except_up_def
    proof (intro conjI allI impI, goal_cases)
      case (1 j)
      then show ?case
        using child [of j] ho [of j] by (cases "parent j = i") (auto simp: nth)
    next
      case (2 j)
      then show ?case using gp by simp
    qed
    moreover have "down ?r i = ?r" using True by (subst down.simps) simp
    ultimately show ?thesis using heap_ordered_up len sub by simp
  next
    case False
    note c = pick_bounds [OF False] pick_child [OF False]
    have "key (?r ! i) \<le> key (?r ! pick ?r i)" by (rule pick_max(1) [OF len sub])
    then have "0 < i \<Longrightarrow> key (?r ! i) \<le> key (?r ! parent i)"
      using gp [of "pick ?r i"] c by fastforce
    then have "except_down ?r i"
      unfolding except_down_def using ho gp assms(2) by (auto simp: nth)
    then have ho': "heap_ordered key (down ?r i)" using heap_ordered_down len sub by blast
    have "except_up (down ?r i) i"
      unfolding except_up_def
    proof (intro conjI allI impI, goal_cases)
      case (1 j)
      then show ?case using ho' by (simp add: heap_ordered_def)
    next
      case (2 j)
      then show ?case
        using ho' len unfolding heap_ordered_def by (metis length_down le_trans)
    qed
    then show ?thesis using heap_ordered_up len sub by simp
  qed
qed

lemma heap_ordered_root_max:
  assumes "heap_ordered key es" and "k < length es"
  shows "key (es ! k) \<le> key (es ! 0)"
  using assms(2)
proof (induction k rule: less_induct)
  case (less k)
  show ?case
  proof (cases "k = 0")
    case False
    then have "key (es ! k) \<le> key (es ! parent k)"
      using assms(1) less.prems by (simp add: heap_ordered_def)
    also have "\<dots> \<le> key (es ! 0)" using less False by simp
    finally show ?thesis .
  qed simp
qed

lemma heap_ordered_append:
  assumes "heap_ordered key es" and "set es \<subseteq> L" and "e \<in> L"
  shows "heap_ordered key (up (es @ [e]) (length es))"
proof -
  have "except_up (es @ [e]) (length es)"
    using assms(1) unfolding except_up_def heap_ordered_def
    by (auto simp: nth_append less_Suc_eq dest!: parent_less)
  then show ?thesis using heap_ordered_up assms(2,3) by simp
qed

lemma heap_ordered_delete_root:
  assumes "heap_ordered key es" and "es \<noteq> []" and "set es \<subseteq> L"
  shows "heap_ordered key (down ((butlast es)[0 := last es]) 0)"
proof (cases "length es = 1")
  case True
  then show ?thesis by (auto simp: heap_ordered_def)
next
  case False
  let ?b = "(butlast es)[0 := last es]"
  have len: "0 < length ?b" using False assms(2) by (cases es) auto
  have sub: "set ?b \<subseteq> L"
  proof -
    have "set ?b \<subseteq> insert (last es) (set (butlast es))" by (rule set_update_subset_insert)
    also have "\<dots> \<subseteq> set es" using assms(2) by (auto dest: in_set_butlastD)
    finally show ?thesis using assms(3) by blast
  qed
  have "except_down ?b 0"
    using assms(1) unfolding except_down_def heap_ordered_def
    by (auto simp: nth_list_update nth_butlast)
  then show ?thesis using heap_ordered_down len sub by blast
qed

end

section \<open>Well-formed queues\<close>

definition pq_rep :: "heap_entry list \<Rightarrow> nat \<Rightarrow> u32 \<Rightarrow> prio_queue" where
  "pq_rep es k ns = \<lparr>pq_heap = map Some es @ replicate k None, pq_len = length es, pq_next_seq = ns\<rparr>"

definition pq_entries :: "prio_queue \<Rightarrow> heap_entry list" where
  "pq_entries q = map the (take (pq_len q) (pq_heap q))"

definition entry_priority :: "heap_entry \<Rightarrow> nat" where
  "entry_priority e = unat (he_effective_priority e)"

definition pq_wf :: "prio_queue \<Rightarrow> bool" where
  "pq_wf q \<longleftrightarrow>
     pq_len q \<le> length (pq_heap q) \<and>
     pq_heap q = map Some (pq_entries q) @ replicate (length (pq_heap q) - pq_len q) None \<and>
     heap_ordered entry_priority (pq_entries q)"

lemma pq_rep_sel [simp]:
  "pq_entries (pq_rep es k ns) = es"
  "pq_len (pq_rep es k ns) = length es"
  "pq_next_seq (pq_rep es k ns) = ns"
  "length (pq_heap (pq_rep es k ns)) = length es + k"
  by (simp_all add: pq_entries_def pq_rep_def comp_def)

lemma pq_wf_rep [simp]: "pq_wf (pq_rep es k ns) \<longleftrightarrow> heap_ordered entry_priority es"
  by (simp add: pq_wf_def) (simp add: pq_rep_def)

lemma pq_wf_obtain:
  assumes "pq_wf q"
  obtains es k ns where "q = pq_rep es k ns" and "heap_ordered entry_priority es"
proof
  show "q = pq_rep (pq_entries q) (length (pq_heap q) - pq_len q) (pq_next_seq q)"
    using assms by (cases q) (auto simp: pq_wf_def pq_rep_def pq_entries_def)
  show "heap_ordered entry_priority (pq_entries q)"
    using assms by (simp add: pq_wf_def)
qed

definition del_root :: "heap_entry list \<Rightarrow> heap_entry list" where
  "del_root es = down ((butlast es)[0 := last es]) 0"

definition del_at :: "heap_entry list \<Rightarrow> nat \<Rightarrow> heap_entry list" where
  "del_at es i =
     (if i < length es - 1 then up (down ((butlast es)[i := last es]) i) i else butlast es)"

lemma pq_insert_rep:
  "pq_insert (pq_rep es (Suc k) ns) t p =
   Inr (pq_rep (up (es @ [\<lparr>he_task_id = t, he_effective_priority = p, he_seq = ns\<rparr>])
                  (length es)) k (ns + 1))"
proof -
  let ?e = "\<lparr>he_task_id = t, he_effective_priority = p, he_seq = ns\<rparr>"
  have "(map Some es @ replicate (Suc k) None)[length es := Some ?e] =
        map Some (es @ [?e]) @ replicate k None"
    by (simp add: list_update_append)
  with sift_up_prefix [of "length es" "es @ [?e]" "replicate k None"] show ?thesis
    by (simp add: pq_insert_def pq_rep_def)
qed

lemma pq_insert_full: "pq_insert (pq_rep es 0 ns) t p = Inl QueueCapacityExceeded"
  by (simp add: pq_insert_def pq_rep_def)

text \<open>Overwriting slot \<open>i\<close> with the last occupied one and clearing the latter.\<close>

lemma move_last_rep:
  assumes "i < length es"
  shows "(map Some es @ replicate k None)[i := Some (last es), length es - 1 := None] =
         map Some ((butlast es)[i := last es]) @ replicate (Suc k) None"
  using assms
proof (cases es rule: rev_cases)
  case (snoc ys y)
  show ?thesis
  proof (cases "i < length ys")
    case True
    with snoc show ?thesis
      by (simp add: list_update_append map_update flip: replicate_append_same)
  next
    case False
    with snoc assms have "i = length ys" by simp
    with snoc show ?thesis
      by (simp add: list_update_append list_update_beyond flip: replicate_append_same)
  qed
qed simp

lemma down_Nil [simp]: "down [] i = []"
  using length_down [of "[]" i] by (simp del: length_down)

lemma pq_pop_rep:
  assumes "es \<noteq> []"
  shows "pq_pop_max (pq_rep es k ns) =
         Inr (Some (he_task_id (es ! 0)), pq_rep (del_root es) (Suc k) ns)"
proof -
  obtain ys y where es: "es = ys @ [y]" using assms by (cases es rule: rev_cases) auto
  let ?b = "ys[0 := y]"
  have down: "(if length ys > 0
               then sift_down (map Some ?b @ None # replicate k None) (length ys) 0
               else Inr (map Some ?b @ None # replicate k None)) =
              Inr (map Some (down ?b 0) @ None # replicate k None)"
    using sift_down_prefix [of 0 ?b "None # replicate k None"] down_Nil
    by (cases "ys = []") auto
  have head: "(map Some ys @ Some y # zs) ! 0 = Some ((ys @ [y]) ! 0)" for zs
    by (cases ys) auto
  show ?thesis
    using move_last_rep [of 0 es k] down
    by (auto simp: es pq_pop_max_def pq_rep_def nth_append Let_def del_root_def head)
qed

lemma pq_find_prefix:
  "pq_find (map Some (xs @ es) @ ys) t [length xs..<length xs + length es] =
   Inr (if t \<in> he_task_id ` set es
        then Some (length xs + length (takeWhile (\<lambda>e. he_task_id e \<noteq> t) es)) else None)"
proof (induction es arbitrary: xs)
  case (Cons e es)
  have "pq_find (map Some ((xs @ [e]) @ es) @ ys) t [Suc (length xs)..<Suc (length xs) + length es] =
        Inr (if t \<in> he_task_id ` set es
        then Some (Suc (length xs) + length (takeWhile (\<lambda>e. he_task_id e \<noteq> t) es)) else None)"
    using Cons.IH [of "xs @ [e]"] by simp
  moreover have "[length xs..<length xs + length (e # es)] =
      length xs # [Suc (length xs)..<Suc (length xs) + length es]"
    by (simp add: upt_conv_Cons del: upt_Suc)
  ultimately show ?case by (auto simp: nth_append image_iff simp del: upt_Suc)
qed simp

lemma pq_remove_absent:
  "t \<notin> he_task_id ` set es \<Longrightarrow> pq_remove (pq_rep es k ns) t = Inr (False, pq_rep es k ns)"
  using pq_find_prefix [of "[]" es "replicate k None" t] by (simp add: pq_remove_def pq_rep_def)

lemma pq_remove_rep:
  assumes "t \<in> he_task_id ` set es"
  defines "i \<equiv> length (takeWhile (\<lambda>e. he_task_id e \<noteq> t) es)"
  shows "pq_remove (pq_rep es k ns) t = Inr (True, pq_rep (del_at es i) (Suc k) ns)"
proof -
  obtain ys y where es: "es = ys @ [y]" using assms by (cases es rule: rev_cases) auto
  have found: "pq_find (pq_heap (pq_rep es k ns)) t [0..<length es] = Inr (Some i)"
    using pq_find_prefix [of "[]" es "replicate k None" t] assms by (simp add: pq_rep_def)
  have i: "i < length es"
    using assms(1) length_takeWhile_le [of "\<lambda>e. he_task_id e \<noteq> t" es]
    unfolding i_def by (metis (mono_tags, lifting) image_iff le_neq_implies_less takeWhile_eq_all_conv takeWhile_eq_take take_all_iff order_refl)
  have repair: "(if i < length ys
      then bind_res (sift_down (map Some (ys[i := y]) @ None # replicate k None) (length ys) i)
             (\<lambda>h. sift_up h i)
      else Inr (map Some (ys[i := y]) @ None # replicate k None)) =
    Inr (map Some (del_at es i) @ None # replicate k None)"
    using sift_down_prefix [of i "ys[i := y]" "None # replicate k None"]
      sift_up_prefix [of i "down (ys[i := y]) i" "None # replicate k None"]
    by (auto simp: es del_at_def list_update_beyond)
  have len: "length (del_at es i) = length ys" by (simp add: del_at_def es)
  show ?thesis
    using found move_last_rep [OF i, of k] repair len i
    by (auto simp: pq_remove_def pq_rep_def Let_def es nth_append)
qed


lemma mset_del_root:
  assumes "es \<noteq> []" shows "add_mset (es ! 0) (mset (del_root es)) = mset es"
proof -
  obtain ys y where es: "es = ys @ [y]" using assms by (cases es rule: rev_cases) auto
  show ?thesis
    by (cases ys) (simp_all add: es del_root_def)
qed

lemma mset_del_at:
  assumes "i < length es" shows "add_mset (es ! i) (mset (del_at es i)) = mset es"
proof -
  obtain ys y where es: "es = ys @ [y]" using assms by (cases es rule: rev_cases) auto
  show ?thesis
    using assms by (cases "i < length ys")
      (auto simp: es del_at_def nth_append mset_update less_Suc_eq dest: nth_mem_mset)
qed

interpretation by_priority: heap_rank entry_priority UNIV
  by unfold_locales
    (auto simp: outranks_def entry_priority_def word_less_nat_alt word_le_nat_alt not_less
      split: if_splits)

text \<open>How many insertions ago an entry came in, as of sequence counter \<open>ns\<close>.\<close>

definition age :: "u32 \<Rightarrow> heap_entry \<Rightarrow> nat" where
  "age ns e = unat (ns - he_seq e)"

definition rank :: "u32 \<Rightarrow> heap_entry \<Rightarrow> nat" where
  "rank ns e = entry_priority e * 2 ^ 32 + age ns e"

definition recent :: "u32 \<Rightarrow> heap_entry \<Rightarrow> bool" where
  "recent ns e \<longleftrightarrow> 1 \<le> age ns e \<and> age ns e \<le> 2 ^ 31"

lemma age_less: "age ns e < 2 ^ 32"
  using unat_u32_less by (simp add: age_def)

lemma age_diff:
  assumes "recent ns a" "recent ns b"
  shows "sint (he_seq b - he_seq a) > 0 \<longleftrightarrow> age ns b < age ns a"
proof -
  have "he_seq b - he_seq a = (ns - he_seq a) - (ns - he_seq b)" by simp
  then have "unat (he_seq b - he_seq a) =
      (if age ns b \<le> age ns a then age ns a - age ns b else age ns a + 2 ^ 32 - age ns b)"
    unfolding age_def by (metis unat_sub_u32)
  then show ?thesis
    using assms by (auto simp: sint_u32_pos recent_def)
qed

lemma rank_less:
  "rank ns a \<le> rank ns b \<longleftrightarrow>
   entry_priority a < entry_priority b \<or>
   entry_priority a = entry_priority b \<and> age ns a \<le> age ns b"
  using age_less [of ns a] age_less [of ns b] unfolding rank_def
  by (cases "entry_priority a" "entry_priority b" rule: linorder_cases) (auto simp: less_iff_Suc_add)

lemma rank_outranks:
  assumes "recent ns a" "recent ns b"
  shows "outranks a b \<longleftrightarrow> \<not> rank ns a \<le> rank ns b"
  using age_diff [OF assms]
  by (auto simp: outranks_def rank_less entry_priority_def word_less_nat_alt word_unat_eq_iff
      not_less)

interpretation by_rank: heap_rank "rank ns" "Collect (recent ns)" for ns
  by unfold_locales (auto simp: rank_outranks)

section \<open>The queue as a bag of tasks\<close>

definition entry_item :: "heap_entry \<Rightarrow> u8 \<times> u8" where
  "entry_item e = (he_task_id e, he_effective_priority e)"

definition pq_capacity :: "prio_queue \<Rightarrow> nat" where
  "pq_capacity q = length (pq_heap q)"

definition pq_bag :: "prio_queue \<Rightarrow> (u8 \<times> u8) multiset" where
  "pq_bag q = image_mset entry_item (mset (pq_entries q))"

text \<open>The contract the scheduler relies on.\<close>

locale bag_queue =
  fixes inv :: "'q \<Rightarrow> bool"
    and capacity :: "'q \<Rightarrow> nat"
    and bag :: "'q \<Rightarrow> (u8 \<times> u8) multiset"
    and put :: "'q \<Rightarrow> u8 \<Rightarrow> u8 \<Rightarrow> 'q res"
    and pop :: "'q \<Rightarrow> (u8 option \<times> 'q) res"
    and peek_priority :: "'q \<Rightarrow> u8 res"
    and delete :: "'q \<Rightarrow> u8 \<Rightarrow> (bool \<times> 'q) res"
  assumes put_room: "\<lbrakk>inv q; size (bag q) < capacity q\<rbrakk> \<Longrightarrow>
      \<exists>q'. put q t p = Inr q' \<and> inv q' \<and> bag q' = add_mset (t, p) (bag q) \<and>
           capacity q' = capacity q"
    and put_full: "\<lbrakk>inv q; size (bag q) = capacity q\<rbrakk> \<Longrightarrow> put q t p = Inl QueueCapacityExceeded"
    and size_le: "inv q \<Longrightarrow> size (bag q) \<le> capacity q"
    and pop_empty: "\<lbrakk>inv q; bag q = {#}\<rbrakk> \<Longrightarrow> pop q = Inr (None, q)"
    and pop_max: "\<lbrakk>inv q; bag q \<noteq> {#}\<rbrakk> \<Longrightarrow>
      \<exists>t p q'. pop q = Inr (Some t, q') \<and> inv q' \<and> bag q = add_mset (t, p) (bag q') \<and>
               (\<forall>(u, r) \<in># bag q. r \<le> p) \<and> capacity q' = capacity q"
    and peek_empty: "\<lbrakk>inv q; bag q = {#}; 0 < capacity q\<rbrakk> \<Longrightarrow> peek_priority q = Inr 0"
    and peek_max: "\<lbrakk>inv q; bag q \<noteq> {#}\<rbrakk> \<Longrightarrow>
      \<exists>p. peek_priority q = Inr p \<and> p \<in># image_mset snd (bag q) \<and> (\<forall>(u, r) \<in># bag q. r \<le> p)"
    and delete_absent: "\<lbrakk>inv q; t \<notin># image_mset fst (bag q)\<rbrakk> \<Longrightarrow> delete q t = Inr (False, q)"
    and delete_present: "\<lbrakk>inv q; t \<in># image_mset fst (bag q)\<rbrakk> \<Longrightarrow>
      \<exists>p q'. delete q t = Inr (True, q') \<and> inv q' \<and> bag q = add_mset (t, p) (bag q') \<and>
             capacity q' = capacity q"

lemma pq_bag_rep [simp]: "pq_bag (pq_rep es k ns) = image_mset entry_item (mset es)"
  by (simp add: pq_bag_def)

lemma pq_capacity_rep [simp]: "pq_capacity (pq_rep es k ns) = length es + k"
  by (simp add: pq_capacity_def)

lemma heap_ordered_del_at:
  assumes "heap_ordered entry_priority es" and "i < length es"
  shows "heap_ordered entry_priority (del_at es i)"
proof -
  have "heap_ordered entry_priority (butlast es)"
    using assms(1) by (auto simp: heap_ordered_def nth_butlast)
  then show ?thesis
    using by_priority.heap_ordered_replace [of "butlast es" i "last es"]
    by (simp add: del_at_def)
qed

lemma root_max:
  assumes "heap_ordered entry_priority es" and "e \<in> set es"
  shows "he_effective_priority e \<le> he_effective_priority (es ! 0)"
  using assms by_priority.heap_ordered_root_max [of es]
  by (auto simp: in_set_conv_nth entry_item_def entry_priority_def word_le_nat_alt)

interpretation ready_queue: bag_queue pq_wf pq_capacity pq_bag pq_insert pq_pop_max
  pq_peek_max_priority pq_remove
proof (unfold_locales, goal_cases)
  case (1 q t p)
  then obtain es k ns where q: "q = pq_rep es k ns" "heap_ordered entry_priority es"
    by (elim pq_wf_obtain)
  with 1 obtain k' where k: "k = Suc k'" by (cases k) auto
  show ?case
    using q by_priority.heap_ordered_append by (simp add: k pq_insert_rep entry_item_def)
next
  case (2 q t p)
  then obtain es k ns where q: "q = pq_rep es k ns" by (elim pq_wf_obtain)
  with 2 show ?case by (simp add: pq_insert_full)
next
  case (3 q)
  then show ?case by (elim pq_wf_obtain) simp
next
  case (4 q)
  then show ?case by (auto simp: pq_pop_max_def elim!: pq_wf_obtain)
next
  case (5 q)
  then obtain es k ns where q: "q = pq_rep es k ns" "heap_ordered entry_priority es" "es \<noteq> []"
    by (elim pq_wf_obtain) auto
  have bag: "pq_bag q = add_mset (entry_item (es ! 0)) (image_mset entry_item (mset (del_root es)))"
    using q mset_del_root [OF q(3)] by (metis image_mset_add_mset pq_bag_rep)
  have len: "length es = Suc (length (del_root es))"
    using arg_cong [OF mset_del_root [OF q(3)], of size] by simp
  have "\<forall>(u, r) \<in># pq_bag q. r \<le> he_effective_priority (es ! 0)"
    using root_max [OF q(2)] q(1) by (auto simp: entry_item_def)
  with q bag len by_priority.heap_ordered_delete_root [OF q(2,3)] show ?case
    by (auto simp: pq_pop_rep entry_item_def del_root_def [symmetric])
next
  case (6 q)
  then obtain k ns where "q = pq_rep [] k ns" "0 < k" by (auto elim!: pq_wf_obtain)
  then show ?case by (simp add: pq_peek_max_priority_def pq_rep_def)
next
  case (7 q)
  then obtain es k ns where q: "q = pq_rep es k ns" "heap_ordered entry_priority es" "es \<noteq> []"
    by (elim pq_wf_obtain) auto
  have "pq_peek_max_priority q = Inr (he_effective_priority (es ! 0))"
    using q by (simp add: pq_peek_max_priority_def pq_rep_def nth_append)
  moreover have "he_effective_priority (es ! 0) \<in> snd ` entry_item ` set es"
    using q(3) by (force simp: entry_item_def image_image)
  ultimately show ?case
    using root_max [OF q(2)] q(1) by (auto simp: entry_item_def)
next
  case (8 q t)
  then show ?case 
    by (auto simp: pq_remove_absent entry_item_def image_image elim!: pq_wf_obtain)
next
  case (9 q t)
  then obtain es k ns where q: "q = pq_rep es k ns" "heap_ordered entry_priority es"
    by (elim pq_wf_obtain) auto
  with 9 have t: "t \<in> he_task_id ` set es" by (auto simp: entry_item_def)
  define i where "i = length (takeWhile (\<lambda>e. he_task_id e \<noteq> t) es)"
  have i: "i < length es" "he_task_id (es ! i) = t"
    using t first_index [of es "\<lambda>e. he_task_id e = t"] by (auto simp: i_def)
  have bag: "pq_bag q = add_mset (entry_item (es ! i)) (image_mset entry_item (mset (del_at es i)))"
    using q mset_del_at [OF i(1)] by (metis image_mset_add_mset pq_bag_rep)
  have len: "length es = Suc (length (del_at es i))"
    using arg_cong [OF mset_del_at [OF i(1)], of size] by simp
  show ?case
    using q bag len i(2) pq_remove_rep [OF t, of k ns] heap_ordered_del_at [OF q(2) i(1)]
    by (auto simp: entry_item_def i_def)
qed


section \<open>First in, first out among equal priorities\<close>

text \<open>
  The sequence numbers stay comparable while no entry is more than \<open>2^31\<close> insertions old.
  Under that condition the heap implements the following simple discipline on the list of
  waiting tasks in order of arrival: a new task joins at the end, and the first of the tasks
  with the highest priority leaves.
\<close>

definition fifo_best :: "(u8 \<times> u8) list \<Rightarrow> u8 \<times> u8" where
  "fifo_best ps = hd (filter (\<lambda>x. \<forall>y \<in> set ps. snd y \<le> snd x) ps)"

definition arrival_key :: "u32 \<Rightarrow> heap_entry \<Rightarrow> int" where
  "arrival_key ns e = - int (age ns e)"

definition pq_arrivals :: "prio_queue \<Rightarrow> (u8 \<times> u8) list" where
  "pq_arrivals q = map entry_item (sort_key (arrival_key (pq_next_seq q)) (pq_entries q))"

definition pq_fifo :: "prio_queue \<Rightarrow> bool" where
  "pq_fifo q \<longleftrightarrow>
     pq_wf q \<and> heap_ordered (rank (pq_next_seq q)) (pq_entries q) \<and>
     (\<forall>e \<in> set (pq_entries q). recent (pq_next_seq q) e) \<and>
     distinct (map he_seq (pq_entries q))"


lemma inj_on_age:
  assumes "distinct (map he_seq es)" shows "inj_on (age ns) (set es)"
proof -
  have "inj_on he_seq (set es)" using assms by (simp add: distinct_map)
  then show ?thesis by (auto simp: inj_on_def age_def word_unat_eq_iff [symmetric])
qed

lemma inj_on_arrival_key: "distinct (map he_seq es) \<Longrightarrow> inj_on (arrival_key ns) (set es)"
  using inj_on_age [of es ns] by (auto simp: inj_on_def arrival_key_def)

lemma age_insert: "age ns e \<le> 2 ^ 31 \<Longrightarrow> age (ns + 1) e = age ns e + 1"
  using unat_add_u32 [of "ns - he_seq e" 1] by (simp add: age_def algebra_simps)

lemma pq_fifo_rep:
  "pq_fifo (pq_rep es k ns) \<longleftrightarrow>
   heap_ordered entry_priority es \<and> heap_ordered (rank ns) es \<and>
   (\<forall>e \<in> set es. recent ns e) \<and> distinct (map he_seq es)"
  by (simp add: pq_fifo_def)

lemma pq_arrivals_rep:
  "pq_arrivals (pq_rep es k ns) = map entry_item (sort_key (arrival_key ns) es)"
  by (simp add: pq_arrivals_def)

lemma pq_fifo_obtain:
  assumes "pq_fifo q"
  obtains es k ns where "q = pq_rep es k ns" and "heap_ordered entry_priority es"
    and "heap_ordered (rank ns) es" and "set es \<subseteq> Collect (recent ns)"
    and "distinct (map he_seq es)"
proof -
  have "pq_wf q" using assms by (simp add: pq_fifo_def)
  then obtain es k ns where "q = pq_rep es k ns" by (elim pq_wf_obtain)
  with assms that show thesis by (auto simp: pq_fifo_rep)
qed

lemma distinct_seq_mset:
  "mset xs = mset ys \<Longrightarrow> distinct (map he_seq xs) \<longleftrightarrow> distinct (map he_seq ys)"
  by (metis mset_eq_imp_distinct_iff mset_map)

lemma heap_ordered_age_insert:
  assumes "heap_ordered (rank ns) es" and "set es \<subseteq> Collect (recent ns)"
  shows "heap_ordered (rank (ns + 1)) es"
proof -
  have "rank (ns + 1) e = rank ns e + 1" if "e \<in> set es" for e
    using assms(2) that by (auto simp: rank_def recent_def age_insert)
  with assms(1) show ?thesis by (simp add: heap_ordered_def)
qed

lemma pq_insert_fifo:
  assumes "pq_fifo q" and "pq_len q < pq_capacity q"
    and "\<forall>e \<in> set (pq_entries q). age (pq_next_seq q) e < 2 ^ 31"
  shows "\<exists>q'. pq_insert q t p = Inr q' \<and> pq_fifo q' \<and>
              pq_arrivals q' = pq_arrivals q @ [(t, p)] \<and> pq_capacity q' = pq_capacity q"
proof -
  obtain es k ns where q: "q = pq_rep es k ns" and ho: "heap_ordered entry_priority es"
    and ho': "heap_ordered (rank ns) es" and rec: "set es \<subseteq> Collect (recent ns)"
    and dist: "distinct (map he_seq es)"
    using assms(1) by (elim pq_fifo_obtain)
  obtain k' where k: "k = Suc k'" using assms(2) q by (cases k) auto
  let ?e = "\<lparr>he_task_id = t, he_effective_priority = p, he_seq = ns\<rparr>"
  let ?es = "up (es @ [?e]) (length es)"
  have ages: "age (ns + 1) x = age ns x + 1" "1 \<le> age ns x" "age ns x < 2 ^ 31" if "x \<in> set es" for x
    using rec that assms(3) q by (auto simp: age_insert recent_def)
  have new: "age (ns + 1) ?e = 1" "age ns ?e = 0" by (simp_all add: age_def)
  have rec': "set es \<subseteq> Collect (recent (ns + 1))" "recent (ns + 1) ?e"
    using ages new(1) by (fastforce simp: recent_def)+
  have dist': "distinct (map he_seq (es @ [?e]))"
    using dist rec by (auto simp: recent_def age_def)
  have fifo: "pq_fifo (pq_rep ?es k' (ns + 1))"
    using by_priority.heap_ordered_append [OF ho] rec' dist' distinct_seq_mset [of ?es "es @ [?e]"]
      by_rank.heap_ordered_append [OF heap_ordered_age_insert [OF ho' rec] rec'(1), of ?e]
    by (auto simp: pq_fifo_rep)
  have "sort_key (arrival_key (ns + 1)) ?es = sort_key (arrival_key ns) es @ [?e]"
  proof (rule sort_key_unique)
    have "map (arrival_key (ns + 1)) (sort_key (arrival_key ns) es) =
          map (\<lambda>i. i - 1) (map (arrival_key ns) (sort_key (arrival_key ns) es))"
      using ages by (simp add: arrival_key_def)
    moreover have "sorted (map (\<lambda>i. i - 1) xs)" if "sorted xs" for xs :: "int list"
      using that by (induction xs) auto
    ultimately have "sorted (map (arrival_key (ns + 1)) (sort_key (arrival_key ns) es))"
      by (simp only: sorted_sort_key)
    then show "sorted (map (arrival_key (ns + 1)) (sort_key (arrival_key ns) es @ [?e]))"
      using ages new by (simp add: sorted_append) (simp add: arrival_key_def)
    show "inj_on (arrival_key (ns + 1)) (set (sort_key (arrival_key ns) es @ [?e]))"
      using inj_on_arrival_key [OF dist'] by simp
  qed simp
  with fifo show ?thesis
    by (simp add: q k pq_insert_rep pq_arrivals_rep entry_item_def)
qed

lemma pq_pop_fifo:
  assumes "pq_fifo q" and "pq_arrivals q \<noteq> []"
  shows "\<exists>q'. pq_pop_max q = Inr (Some (fst (fifo_best (pq_arrivals q))), q') \<and> pq_fifo q' \<and>
              pq_arrivals q' = remove1 (fifo_best (pq_arrivals q)) (pq_arrivals q) \<and>
              pq_capacity q' = pq_capacity q \<and> pq_next_seq q' = pq_next_seq q"
proof -
  obtain es k ns where q: "q = pq_rep es k ns" and ho: "heap_ordered entry_priority es"
    and ho': "heap_ordered (rank ns) es" and rec: "set es \<subseteq> Collect (recent ns)"
    and dist: "distinct (map he_seq es)"
    using assms(1) by (elim pq_fifo_obtain)
  have ne: "es \<noteq> []" using assms(2) q by (auto simp: pq_arrivals_rep)
  let ?S = "sort_key (arrival_key ns) es" and ?e = "es ! 0"
  obtain as bs where S: "?S = as @ ?e # bs" and "?e \<notin> set as"
    using ne split_list_first [of ?e ?S] by auto
  note mset' = mset_del_root [OF ne]
  have mem: "x \<in> set es" if "x \<in> set as \<or> x \<in> set bs" for x
  proof -
    have "set ?S = insert ?e (set as \<union> set bs)" by (simp only: S) auto
    with that show ?thesis by auto
  qed
  have srt: "sorted (map (arrival_key ns) (as @ ?e # bs))"
    by (metis S sorted_sort_key)
  have before: "he_effective_priority a < he_effective_priority ?e" if "a \<in> set as" for a
  proof -
    have "age ns ?e \<le> age ns a" using srt that by (auto simp: sorted_append arrival_key_def)
    moreover have "age ns a \<noteq> age ns ?e"
      using inj_on_age [OF dist, of ns] mem that ne \<open>?e \<notin> set as\<close> by (auto dest: inj_onD)
    moreover have "rank ns a \<le> rank ns ?e"
      using by_rank.heap_ordered_root_max [OF ho'] mem [of a] that
      by (metis in_set_conv_nth)
    ultimately show ?thesis
      by (auto simp: rank_less entry_priority_def word_less_nat_alt)
  qed
  have best: "fifo_best (pq_arrivals q) = entry_item ?e"
  proof -
    have "filter (\<lambda>x. \<forall>y \<in> set (map entry_item ?S). snd y \<le> snd x) (map entry_item as) = []"
      using before [unfolded not_le [symmetric]]
      by (auto simp: S entry_item_def filter_empty_conv simp del: set_sort)
    moreover have "\<forall>y \<in> set (map entry_item ?S). snd y \<le> snd (entry_item ?e)"
      using root_max [OF ho] by (auto simp: entry_item_def)
    ultimately show ?thesis
      unfolding fifo_best_def q pq_arrivals_rep by (simp add: S)
  qed
  have "sort_key (arrival_key ns) (del_root es) = as @ bs"
  proof (rule sort_key_unique)
    have "mset es = mset (as @ ?e # bs)" by (metis S mset_sort)
    with mset' show "mset (del_root es) = mset (as @ bs)" by simp
    show "sorted (map (arrival_key ns) (as @ bs))" using srt by (auto simp: sorted_append)
    show "inj_on (arrival_key ns) (set (as @ bs))"
      using inj_on_arrival_key [OF dist] mem by (auto intro: inj_on_subset)
  qed
  moreover have "entry_item ?e \<notin> entry_item ` set as"
    using before by (fastforce simp: entry_item_def)
  ultimately have arr: "pq_arrivals (pq_rep (del_root es) (Suc k) ns) =
      remove1 (fifo_best (pq_arrivals q)) (pq_arrivals q)"
    unfolding best by (simp add: q pq_arrivals_rep S remove1_append)
  have sub: "set (del_root es) \<subseteq> set es"
    using arg_cong [OF mset', of set_mset] by auto
  have "distinct (map he_seq (?e # del_root es))"
    using dist distinct_seq_mset [of "?e # del_root es" es] mset' by simp
  then have "pq_fifo (pq_rep (del_root es) (Suc k) ns)"
    using by_priority.heap_ordered_delete_root [OF ho ne] sub rec
      by_rank.heap_ordered_delete_root [OF ho' ne rec]
    by (auto simp: pq_fifo_rep del_root_def [symmetric])
  moreover have "length es = Suc (length (del_root es))"
    using arg_cong [OF mset', of size] by simp
  ultimately show ?thesis
    using arr best by (simp add: q pq_pop_rep ne entry_item_def)
qed


fun pq_drain :: "nat \<Rightarrow> prio_queue \<Rightarrow> u8 list res" where
  "pq_drain 0 q = Inr []"
| "pq_drain (Suc n) q =
     bind_res (pq_pop_max q) (\<lambda>(r, q').
       case r of None \<Rightarrow> Inr [] | Some t \<Rightarrow> bind_res (pq_drain n q') (\<lambda>ts. Inr (t # ts)))"

definition priority_key :: "u8 \<times> u8 \<Rightarrow> int" where
  "priority_key x = - int (unat (snd x))"

lemma priority_key_le: "priority_key x \<le> priority_key y \<longleftrightarrow> snd y \<le> snd x"
  by (simp add: priority_key_def word_le_nat_alt del: of_nat_unat)

lemma priority_key_eq: "priority_key x = priority_key y \<longleftrightarrow> snd x = snd y"
  by (metis priority_key_le order_antisym order_refl)

lemma fifo_best_split:
  assumes "ps \<noteq> []"
  obtains as bs where "ps = as @ fifo_best ps # bs"
    and "\<forall>x \<in> set as. snd x < snd (fifo_best ps)" and "\<forall>x \<in> set ps. snd x \<le> snd (fifo_best ps)"
proof -
  let ?P = "\<lambda>x. \<forall>y \<in> set ps. snd y \<le> snd x"
  have "Max (snd ` set ps) \<in> snd ` set ps" using assms by (intro Max_in) auto
  then obtain x where "x \<in> set ps" "snd x = Max (snd ` set ps)" by auto
  then have "\<exists>x \<in> set ps. ?P x" by (intro bexI [of _ x]) auto
  then obtain as b bs where ps: "ps = as @ b # bs" and b: "?P b" and as: "\<forall>x \<in> set as. \<not> ?P x"
    using split_list_first_prop [of ps ?P] by auto
  have "filter ?P as = []" using as by (simp only: filter_empty_conv)
  then have "fifo_best ps = b" using b unfolding fifo_best_def by (subst ps) simp
  moreover have "snd x < snd b" if "x \<in> set as" for x
    using as b that by (meson leD leI order_trans)
  ultimately show thesis using that ps b by auto
qed

lemma stable_sort_best:
  assumes "ps \<noteq> []"
  shows "sort_key priority_key ps =
         fifo_best ps # sort_key priority_key (remove1 (fifo_best ps) ps)"
proof -
  obtain as bs where ps: "ps = as @ fifo_best ps # bs"
    and as: "\<forall>x \<in> set as. snd x < snd (fifo_best ps)" and all: "\<forall>x \<in> set ps. snd x \<le> snd (fifo_best ps)"
    using fifo_best_split [OF assms] .
  define b where "b = fifo_best ps"
  have ps: "ps = as @ b # bs" and as: "\<forall>x \<in> set as. snd x < snd b"
    and all: "\<forall>x \<in> set ps. snd x \<le> snd b"
    using ps as all by (simp_all only: b_def)
  have rem: "remove1 b ps = as @ bs" using as by (auto simp: ps remove1_append)
  have "sort_key priority_key ps = b # sort_key priority_key (as @ bs)"
  proof (rule properties_for_sort_key)
    show "sorted (map priority_key (b # sort_key priority_key (as @ bs)))"
      using all by (auto simp: priority_key_le ps)
    show "filter (\<lambda>y. priority_key x = priority_key y) (b # sort_key priority_key (as @ bs)) =
          filter (\<lambda>y. priority_key x = priority_key y) ps"
      if "x \<in> set (b # sort_key priority_key (as @ bs))" for x
    proof -
      have "filter (\<lambda>y. priority_key b = priority_key y) as = []"
        using as by (auto simp: filter_empty_conv priority_key_eq)
      then show ?thesis
        using sort_key_stable [of priority_key "priority_key x" "as @ bs"]
        by (auto simp: ps eq_commute [of _ "priority_key x"])
    qed
  qed (simp add: ps)
  with rem show ?thesis by (simp add: b_def)
qed

text \<open>
  Emptying the queue is a stable sort of the waiting tasks: they leave by decreasing
  effective priority, and in order of arrival among equal priorities.
\<close>

theorem pq_drain_stable_sort:
  assumes "pq_fifo q"
  shows "pq_drain (length (pq_arrivals q)) q =
         Inr (map fst (sort_key priority_key (pq_arrivals q)))"
proof -
  have "pq_drain n q = Inr (map fst (sort_key priority_key (pq_arrivals q)))"
    if "length (pq_arrivals q) = n" for n
    using assms that
  proof (induction n arbitrary: q)
    case (Suc n)
    then have ne: "pq_arrivals q \<noteq> []" by auto
    obtain q' where q': "pq_pop_max q = Inr (Some (fst (fifo_best (pq_arrivals q))), q')"
      "pq_fifo q'" "pq_arrivals q' = remove1 (fifo_best (pq_arrivals q)) (pq_arrivals q)"
      using pq_pop_fifo [OF Suc.prems(1) ne] by blast
    have "fifo_best (pq_arrivals q) \<in> set (pq_arrivals q)"
      by (rule fifo_best_split [OF ne]) (metis in_set_conv_decomp)
    then have "length (pq_arrivals q') = n"
      using Suc.prems(2) q'(3) by (simp add: length_remove1)
    with Suc.IH q' show ?case
      by (simp add: stable_sort_best [OF ne])
  qed simp
  then show ?thesis by simp
qed


theorem pq_drain_stable_sort_witness:
  "pq_drain 3 (pq_rep [\<lparr>he_task_id = 7, he_effective_priority = 9, he_seq = 1\<rparr>,
                       \<lparr>he_task_id = 4, he_effective_priority = 2, he_seq = 0\<rparr>,
                       \<lparr>he_task_id = 5, he_effective_priority = 2, he_seq = 2\<rparr>] 1 3) =
   Inr [7, 4, 5]"
proof -
  let ?es = "[\<lparr>he_task_id = 7, he_effective_priority = 9, he_seq = 1\<rparr>,
              \<lparr>he_task_id = 4, he_effective_priority = 2, he_seq = 0\<rparr>,
              \<lparr>he_task_id = 5, he_effective_priority = 2, he_seq = 2\<rparr>]"
  have "pq_fifo (pq_rep ?es 1 3)"
    by (simp add: pq_fifo_rep heap_ordered_def All_less_Suc parent_def rank_def recent_def
        age_def entry_priority_def)
  moreover have "pq_arrivals (pq_rep ?es 1 3) = [(4, 2), (7, 9), (5, 2)]" by code_simp
  moreover have "map fst (sort_key priority_key [(4, 2), (7, 9), (5, 2)]) = [7, 4, 5 :: u8]"
    by code_simp
  ultimately show ?thesis
    using pq_drain_stable_sort [of "pq_rep ?es 1 3"] by (simp add: numeral_3_eq_3)
qed

section \<open>Whole runs\<close>

datatype queue_op = Insert u8 u8 | PopMax

datatype queue_out = Inserted | Popped "u8 option"

fun run_pq :: "queue_op list \<Rightarrow> prio_queue \<Rightarrow> queue_out list res" where
  "run_pq [] q = Inr []"
| "run_pq (Insert t p # ops) q =
     bind_res (pq_insert q t p) (\<lambda>q'. bind_res (run_pq ops q') (\<lambda>os. Inr (Inserted # os)))"
| "run_pq (PopMax # ops) q =
     bind_res (pq_pop_max q) (\<lambda>(r, q'). bind_res (run_pq ops q') (\<lambda>os. Inr (Popped r # os)))"

fun run_fifo :: "nat \<Rightarrow> queue_op list \<Rightarrow> (u8 \<times> u8) list \<Rightarrow> queue_out list res" where
  "run_fifo n [] ps = Inr []"
| "run_fifo n (Insert t p # ops) ps =
     (if length ps < n
      then bind_res (run_fifo n ops (ps @ [(t, p)])) (\<lambda>os. Inr (Inserted # os))
      else Inl QueueCapacityExceeded)"
| "run_fifo n (PopMax # ops) ps =
     (if ps = [] then bind_res (run_fifo n ops ps) (\<lambda>os. Inr (Popped None # os))
      else bind_res (run_fifo n ops (remove1 (fifo_best ps) ps))
             (\<lambda>os. Inr (Popped (Some (fst (fifo_best ps))) # os)))"

lemma length_pq_arrivals: "pq_fifo q \<Longrightarrow> length (pq_arrivals q) = pq_len q"
  by (auto simp: pq_arrivals_rep elim: pq_fifo_obtain)

definition ages_within :: "nat \<Rightarrow> prio_queue \<Rightarrow> bool" where
  "ages_within n q \<longleftrightarrow> (\<forall>e \<in> set (pq_entries q). age (pq_next_seq q) e \<le> n)"

lemma pq_insert_ages:
  assumes "pq_fifo q" and "pq_insert q t p = Inr q'" and "ages_within n q"
  shows "ages_within (Suc n) q'"
proof -
  obtain es k ns where q: "q = pq_rep es k ns" and rec: "set es \<subseteq> Collect (recent ns)"
    using assms(1) by (elim pq_fifo_obtain)
  obtain k' where k: "k = Suc k'" using assms(2) q by (cases k) (auto simp: pq_insert_full)
  have "age (ns + 1) x = age ns x + 1" if "x \<in> set es" for x
    using rec that by (auto simp: age_insert recent_def)
  with assms(2,3) q k show ?thesis
    by (auto simp: pq_insert_rep ages_within_def) (simp add: age_def)
qed

lemma pq_pop_ages:
  assumes "pq_wf q" and "pq_pop_max q = Inr (r, q')" and "ages_within n q"
  shows "ages_within n q'"
proof -
  obtain es k ns where q: "q = pq_rep es k ns" using assms(1) by (elim pq_wf_obtain)
  show ?thesis
  proof (cases "es = []")
    case False
    have "set (del_root es) \<subseteq> set es"
      using arg_cong [OF mset_del_root [OF False], of set_mset] by auto
    with assms False q show ?thesis by (auto simp: pq_pop_rep ages_within_def)
  qed (use assms q in \<open>auto simp: pq_pop_max_def\<close>)
qed

lemma run_pq_fifo:
  assumes "pq_fifo q" and "ages_within n q" and "n + length ops \<le> 2 ^ 31"
  shows "run_pq ops q = run_fifo (pq_capacity q) ops (pq_arrivals q)"
  using assms
proof (induction ops arbitrary: q n)
  case (Cons op ops)
  have len: "length (pq_arrivals q) = pq_len q" and wf: "pq_wf q"
    using Cons.prems(1) by (simp_all add: length_pq_arrivals pq_fifo_def)
  show ?case
  proof (cases op)
    case (Insert t p)
    show ?thesis
    proof (cases "pq_len q < pq_capacity q")
      case True
      moreover have "\<forall>e \<in> set (pq_entries q). age (pq_next_seq q) e < 2 ^ 31"
        using Cons.prems(2,3) by (force simp: ages_within_def)
      ultimately obtain q' where q': "pq_insert q t p = Inr q'" "pq_fifo q'"
        "pq_arrivals q' = pq_arrivals q @ [(t, p)]" "pq_capacity q' = pq_capacity q"
        using pq_insert_fifo [OF Cons.prems(1)] by metis
      have "ages_within (Suc n) q'"
        using pq_insert_ages [OF Cons.prems(1) q'(1) Cons.prems(2)] .
      with Cons.IH [OF q'(2)] Cons.prems(3) q' True len Insert show ?thesis by simp
    next
      case False
      with wf have "pq_insert q t p = Inl QueueCapacityExceeded"
        by (simp add: pq_insert_def pq_capacity_def)
      with False Insert len show ?thesis by simp
    qed
  next
    case PopMax
    show ?thesis
    proof (cases "pq_arrivals q = []")
      case True
      with len have "pq_pop_max q = Inr (None, q)" by (simp add: pq_pop_max_def)
      with Cons.IH [OF Cons.prems(1,2)] Cons.prems(3) True PopMax show ?thesis by simp
    next
      case False
      obtain q' where q': "pq_pop_max q = Inr (Some (fst (fifo_best (pq_arrivals q))), q')"
        "pq_fifo q'" "pq_arrivals q' = remove1 (fifo_best (pq_arrivals q)) (pq_arrivals q)"
        "pq_capacity q' = pq_capacity q"
        using pq_pop_fifo [OF Cons.prems(1) False] by blast
      have "ages_within n q'" using pq_pop_ages [OF wf q'(1) Cons.prems(2)] .
      with Cons.IH [OF q'(2)] Cons.prems(3) q' False PopMax show ?thesis by simp
    qed
  qed
qed simp

lemma pq_new_rep: "pq_new n = pq_rep [] n 0"
  by (simp add: pq_new_def pq_rep_def)

text \<open>
  C18: a fresh queue of any capacity, driven by any sequence of at most \<open>2^31\<close> insertions and
  removals, answers exactly like the list of waiting tasks in order of arrival from which the
  first of the highest-priority tasks leaves; it panics exactly when that list is full.
\<close>

theorem pq_runs_as_fifo:
  assumes "length ops \<le> 2 ^ 31"
  shows "run_pq ops (pq_new n) = run_fifo n ops []"
proof -
  have "pq_fifo (pq_new n)" "pq_arrivals (pq_new n) = []" "ages_within 0 (pq_new n)"
    "pq_capacity (pq_new n) = n"
    by (simp_all add: pq_new_rep pq_fifo_rep pq_arrivals_rep ages_within_def heap_ordered_def)
  with run_pq_fifo [of "pq_new n" 0 ops] assms show ?thesis by simp
qed

theorem pq_runs_as_fifo_witness:
  "run_pq [Insert 1 3, Insert 2 3, PopMax, Insert 1 3, PopMax, PopMax, PopMax] (pq_new 2) =
   Inr [Inserted, Inserted, Popped (Some 1), Inserted, Popped (Some 2), Popped (Some 1), Popped None]"
  using pq_runs_as_fifo [of "[Insert 1 3, Insert 2 3, PopMax, Insert 1 3, PopMax, PopMax, PopMax]" 2]
  by (simp add: fifo_best_def)


end
