(* ===== verification/Ipc_Channel.thy ===== *)
theory Ipc_Channel
  imports Task_Registry
begin

text \<open>
  The ring-buffer channel (\<^verbatim>\<open>kernel/src/ipc/channel.rs\<close>) and the kernel's channel table with its
  fixed-size messages (\<^verbatim>\<open>kernel/src/ipc/kernel.rs\<close>). \<open>CAP\<close> is the length of the buffer; a slot
  that was never written is \<open>None\<close>, and reading one is the fault \<open>UninitialisedRead\<close>. Every
  channel operation runs inside one system call with interrupts off, so each is one step here.
\<close>

section \<open>Model\<close>

record 'a channel =
  ch_buffer :: "'a option list"
  ch_head :: nat
  ch_len :: nat

text \<open>\<open>Result<(), T>\<close> of \<open>try_send\<close>: the value comes back when the channel is full.\<close>

datatype 'a send_result = Sent | ChannelFull 'a

definition channel_new :: "nat \<Rightarrow> 'a channel" where
  "channel_new cap = \<lparr>ch_buffer = replicate cap None, ch_head = 0, ch_len = 0\<rparr>"

definition ch_capacity :: "'a channel \<Rightarrow> nat" where
  "ch_capacity ch = length (ch_buffer ch)"

definition ch_is_empty :: "'a channel \<Rightarrow> bool" where
  "ch_is_empty ch \<longleftrightarrow> ch_len ch = 0"

definition ch_is_full :: "'a channel \<Rightarrow> bool" where
  "ch_is_full ch \<longleftrightarrow> ch_len ch = ch_capacity ch"

definition try_send :: "'a channel \<Rightarrow> 'a \<Rightarrow> ('a send_result \<times> 'a channel) res" where
  "try_send ch v =
     (if ch_len ch = ch_capacity ch then Inr (ChannelFull v, ch)
      else let slot = (ch_head ch + ch_len ch) mod ch_capacity ch in
        bind_res (arr_set (ch_buffer ch) slot (Some v)) (\<lambda>b.
          Inr (Sent, ch\<lparr>ch_buffer := b, ch_len := ch_len ch + 1\<rparr>)))"

definition try_receive :: "'a channel \<Rightarrow> ('a option \<times> 'a channel) res" where
  "try_receive ch =
     (if ch_len ch = 0 then Inr (None, ch)
      else bind_res (arr_get (ch_buffer ch) (ch_head ch)) (\<lambda>slot.
        (case slot of
           None \<Rightarrow> Inl UninitialisedRead
         | Some v \<Rightarrow>
             Inr (Some v, ch\<lparr>ch_head := (ch_head ch + 1) mod ch_capacity ch,
                             ch_len := ch_len ch - 1\<rparr>))))"

text \<open>\<open>Drop\<close>: receive until the channel is empty.\<close>

lemma try_receive_len:
  "try_receive ch = Inr (Some v, ch') \<Longrightarrow> ch_len ch' < ch_len ch"
  unfolding try_receive_def
  by (cases "arr_get (ch_buffer ch) (ch_head ch)") (auto split: if_splits option.splits)

function channel_drop :: "'a channel \<Rightarrow> 'a channel res" where
  "channel_drop ch =
     bind_res (try_receive ch) (\<lambda>r.
       (case r of (Some v, ch') \<Rightarrow> channel_drop ch' | (None, ch') \<Rightarrow> Inr ch'))"
  by pat_completeness auto
termination
  by (relation "measure ch_len") (auto dest: try_receive_len)

declare channel_drop.simps [simp del]

abbreviation (input) MSG_MAX :: nat where "MSG_MAX \<equiv> 16"
abbreviation (input) CHANNEL_CAPACITY :: nat where "CHANNEL_CAPACITY \<equiv> 8"

record message =
  msg_len :: u8
  msg_data :: "u8 list"

definition message_from_bytes :: "u8 list \<Rightarrow> message option" where
  "message_from_bytes bytes =
     (if length bytes > MSG_MAX then None
      else Some \<lparr>msg_len = of_nat (length bytes),
                 msg_data = bytes @ drop (length bytes) (replicate MSG_MAX 0)\<rparr>)"

text \<open>Slicing past the end of the data array would panic.\<close>

definition message_bytes :: "message \<Rightarrow> u8 list res" where
  "message_bytes m =
     (if unat (msg_len m) \<le> length (msg_data m) then Inr (take (unat (msg_len m)) (msg_data m))
      else Inl IndexOutOfBounds)"

definition channel_table :: "message channel list" where
  "channel_table = replicate MAX_CHANNELS (channel_new CHANNEL_CAPACITY)"

definition channel_at :: "message channel list \<Rightarrow> nat \<Rightarrow> message channel option" where
  "channel_at chs i = (if i < length chs then Some (chs ! i) else None)"

section \<open>A channel is a bounded first-in first-out queue\<close>

definition ch_contents :: "'a channel \<Rightarrow> 'a list" where
  "ch_contents ch =
     map (\<lambda>i. the (ch_buffer ch ! ((ch_head ch + i) mod ch_capacity ch))) [0..<ch_len ch]"

definition ch_wf :: "'a channel \<Rightarrow> bool" where
  "ch_wf ch \<longleftrightarrow>
     0 < ch_capacity ch \<and> ch_head ch < ch_capacity ch \<and> ch_len ch \<le> ch_capacity ch \<and>
     (\<forall>i < ch_len ch. ch_buffer ch ! ((ch_head ch + i) mod ch_capacity ch) \<noteq> None)"

text \<open>What senders and receivers rely on.\<close>

locale bounded_fifo =
  fixes inv :: "'c \<Rightarrow> bool"
    and contents :: "'c \<Rightarrow> 'a list"
    and capacity :: "'c \<Rightarrow> nat"
    and send :: "'c \<Rightarrow> 'a \<Rightarrow> ('a send_result \<times> 'c) res"
    and receive :: "'c \<Rightarrow> ('a option \<times> 'c) res"
  assumes send_full: "\<lbrakk>inv c; length (contents c) = capacity c\<rbrakk> \<Longrightarrow> send c v = Inr (ChannelFull v, c)"
    and send_room: "\<lbrakk>inv c; length (contents c) \<noteq> capacity c\<rbrakk> \<Longrightarrow>
      \<exists>c'. send c v = Inr (Sent, c') \<and> inv c' \<and> contents c' = contents c @ [v] \<and>
           capacity c' = capacity c"
    and receive_empty: "\<lbrakk>inv c; contents c = []\<rbrakk> \<Longrightarrow> receive c = Inr (None, c)"
    and receive_some: "\<lbrakk>inv c; contents c = v # vs\<rbrakk> \<Longrightarrow>
      \<exists>c'. receive c = Inr (Some v, c') \<and> inv c' \<and> contents c' = vs \<and> capacity c' = capacity c"

datatype 'a channel_op = TrySend 'a | TryReceive

datatype 'a channel_out = SendDone "'a send_result" | ReceiveDone "'a option"

fun channel_run ::
  "('c \<Rightarrow> 'a \<Rightarrow> ('a send_result \<times> 'c) res) \<Rightarrow> ('c \<Rightarrow> ('a option \<times> 'c) res) \<Rightarrow>
   'a channel_op list \<Rightarrow> 'c \<Rightarrow> 'a channel_out list res" where
  "channel_run snd_op rcv_op [] c = Inr []"
| "channel_run snd_op rcv_op (TrySend v # ops) c =
     bind_res (snd_op c v) (\<lambda>(r, c').
     bind_res (channel_run snd_op rcv_op ops c') (\<lambda>os. Inr (SendDone r # os)))"
| "channel_run snd_op rcv_op (TryReceive # ops) c =
     bind_res (rcv_op c) (\<lambda>(r, c').
     bind_res (channel_run snd_op rcv_op ops c') (\<lambda>os. Inr (ReceiveDone r # os)))"

fun fifo_run :: "nat \<Rightarrow> 'a channel_op list \<Rightarrow> 'a list \<Rightarrow> 'a channel_out list" where
  "fifo_run cap [] xs = []"
| "fifo_run cap (TrySend v # ops) xs =
     (if length xs = cap then SendDone (ChannelFull v) # fifo_run cap ops xs
      else SendDone Sent # fifo_run cap ops (xs @ [v]))"
| "fifo_run cap (TryReceive # ops) xs =
     (case xs of [] \<Rightarrow> ReceiveDone None # fifo_run cap ops []
      | x # xs' \<Rightarrow> ReceiveDone (Some x) # fifo_run cap ops xs')"

context bounded_fifo
begin

lemma run_fifo_contents:
  "inv c \<Longrightarrow> channel_run send receive ops c = Inr (fifo_run (capacity c) ops (contents c))"
proof (induction ops arbitrary: c)
  case (Cons op ops)
  show ?case
  proof (cases op)
    case (TrySend v)
    show ?thesis
    proof (cases "length (contents c) = capacity c")
      case True
      with Cons TrySend send_full show ?thesis by simp
    next
      case False
      from send_room [OF Cons.prems False, of v] obtain c' where
        "send c v = Inr (Sent, c')" "inv c'" "contents c' = contents c @ [v]"
        "capacity c' = capacity c" by blast
      with Cons.IH [of c'] TrySend False show ?thesis by simp
    qed
  next
    case TryReceive
    show ?thesis
    proof (cases "contents c")
      case Nil
      with Cons TryReceive receive_empty show ?thesis by simp
    next
      case (Cons v vs)
      from receive_some [OF \<open>inv c\<close> this] obtain c' where
        "receive c = Inr (Some v, c')" "inv c'" "contents c' = vs" "capacity c' = capacity c" by blast
      with Cons.IH [of c'] TryReceive Cons show ?thesis by simp
    qed
  qed
qed simp

end

lemma ch_contents_length [simp]: "length (ch_contents ch) = ch_len ch"
  by (simp add: ch_contents_def)

lemma ring_neq:
  fixes h i n cap :: nat
  assumes "i < n" and "n < cap"
  shows "(h + i) mod cap \<noteq> (h + n) mod cap"
proof
  assume "(h + i) mod cap = (h + n) mod cap"
  then have "cap dvd n - i"
    using mod_eq_dvd_iff_nat [of "h + i" "h + n" cap] assms(1) by simp
  with assms show False by (auto dest: dvd_imp_le)
qed

interpretation ring: bounded_fifo ch_wf ch_contents ch_capacity try_send try_receive
proof (unfold_locales, goal_cases)
  case (1 c v)
  then show ?case by (simp add: try_send_def)
next
  case (2 c v)
  let ?cap = "ch_capacity c" and ?h = "ch_head c" and ?n = "ch_len c"
  let ?slot = "(?h + ?n) mod ?cap"
  let ?c = "c\<lparr>ch_buffer := (ch_buffer c)[?slot := Some v], ch_len := ?n + 1\<rparr>"
  have wf: "0 < ?cap" "?n < ?cap" and slot: "?slot < length (ch_buffer c)"
    using 2 by (auto simp: ch_wf_def ch_capacity_def)
  have nth: "(ch_buffer c)[?slot := Some v] ! ((?h + i) mod ?cap) =
      (if i = ?n then Some v else ch_buffer c ! ((?h + i) mod ?cap))" if "i \<le> ?n" for i
    using that wf slot ring_neq [of i ?n ?cap ?h] by (auto simp: nth_list_update)
  have cap: "ch_capacity ?c = ?cap" by (simp add: ch_capacity_def)
  have "ch_wf ?c"
    using 2 wf nth unfolding ch_wf_def cap by (auto simp: less_Suc_eq_le)
  moreover have "ch_contents ?c = ch_contents c @ [v]"
    unfolding ch_contents_def cap using nth by simp
  ultimately show ?case
    using wf slot cap by (simp add: try_send_def Let_def)
next
  case (3 c)
  then have "ch_len c = 0" by (metis ch_contents_length list.size(3))
  then show ?case by (simp add: try_receive_def)
next
  case (4 c v vs)
  let ?cap = "ch_capacity c" and ?h = "ch_head c" and ?n = "ch_len c"
  let ?c = "c\<lparr>ch_head := (?h + 1) mod ?cap, ch_len := ?n - 1\<rparr>"
  have n: "?n = Suc (length vs)" using 4(2) by (metis ch_contents_length length_Cons)
  have wf: "0 < ?cap" "?h < ?cap" "?n \<le> ?cap"
    "\<And>i. i < ?n \<Longrightarrow> ch_buffer c ! ((?h + i) mod ?cap) \<noteq> None"
    using 4(1) by (auto simp: ch_wf_def)
  have shift: "((?h + 1) mod ?cap + i) mod ?cap = (?h + Suc i) mod ?cap" for i
    by (simp add: mod_add_left_eq)
  have cap: "ch_capacity ?c = ?cap" by (simp add: ch_capacity_def)
  have "ch_buffer c ! ((?h + Suc i) mod ?cap) \<noteq> None" if "i < length vs" for i
    using wf(4) [of "Suc i"] n that by simp
  then have "ch_wf ?c" using wf(1,3) n unfolding ch_wf_def cap by (simp add: shift [simplified])
  moreover have "ch_contents c = the (ch_buffer c ! ?h) # ch_contents ?c"
    unfolding ch_contents_def cap using n wf(2) shift
    by (simp add: upt_conv_Cons comp_def flip: map_Suc_upt del: upt_Suc)
  moreover have "ch_buffer c ! ?h \<noteq> None" using wf(4) [of 0] n wf(2) by simp
  ultimately show ?case
    using 4(2) n wf(2) cap by (auto simp: try_receive_def ch_capacity_def)
qed

lemma ch_wf_new: "0 < cap \<Longrightarrow> ch_wf (channel_new cap)"
  by (simp add: ch_wf_def channel_new_def ch_capacity_def)

text \<open>
  A fresh channel of any positive capacity answers every sequence of sends and receives like
  a bounded first-in first-out list: messages come out in order, each once, a send is refused
  exactly when the capacity is reached, and no uninitialised slot is ever read.
\<close>

theorem channel_runs_as_fifo:
  assumes "0 < cap"
  shows "channel_run try_send try_receive ops (channel_new cap) = Inr (fifo_run cap ops [])"
  using ring.run_fifo_contents [OF ch_wf_new [OF assms], of ops]
  by (simp add: ch_contents_def channel_new_def ch_capacity_def)

theorem channel_runs_as_fifo_witness:
  "channel_run try_send try_receive
     [TrySend (1 :: nat), TrySend 2, TrySend 3, TryReceive, TrySend 4, TryReceive, TryReceive, TryReceive]
     (channel_new 2) =
   Inr [SendDone Sent, SendDone Sent, SendDone (ChannelFull 3), ReceiveDone (Some 1),
        SendDone Sent, ReceiveDone (Some 2), ReceiveDone (Some 4), ReceiveDone None]"
  by (subst channel_runs_as_fifo) simp_all

lemma channel_drop_empty: "ch_wf ch \<Longrightarrow> \<exists>ch'. channel_drop ch = Inr ch' \<and> ch_wf ch' \<and> ch_contents ch' = []"
proof (induction "ch_len ch" arbitrary: ch rule: less_induct)
  case less
  show ?case
  proof (cases "ch_contents ch")
    case Nil
    then show ?thesis
      using ring.receive_empty [OF less.prems Nil] less.prems by (subst channel_drop.simps) simp
  next
    case (Cons v vs)
    from ring.receive_some [OF less.prems this] obtain ch' where
      ch': "try_receive ch = Inr (Some v, ch')" "ch_wf ch'" by blast
    with less.hyps [OF try_receive_len [OF ch'(1)]] show ?thesis
      by (subst channel_drop.simps) simp
  qed
qed

section \<open>Messages\<close>

text \<open>
  A message built from at most \<open>MSG_MAX\<close> bytes gives back exactly those bytes, and a longer
  byte string is refused.
\<close>

theorem message_round_trip:
  "(case message_from_bytes bs of
      Some m \<Rightarrow> length bs \<le> MSG_MAX \<and> message_bytes m = Inr bs
    | None \<Rightarrow> MSG_MAX < length bs)"
proof (cases "length bs \<le> MSG_MAX")
  case True
  then have "unat (of_nat (length bs) :: u8) = length bs"
    by (simp add: unat_of_nat)
  with True show ?thesis
    by (simp add: message_from_bytes_def message_bytes_def)
qed (simp add: message_from_bytes_def)

end
