(* ===== verification/Memory_Protection.thy ===== *)
theory Memory_Protection
  imports Task_Registry
begin

text \<open>
  Physical memory protection (\<^verbatim>\<open>kernel/src/memory/pmp.rs\<close>): the encoding of a task's region into
  the two task entries and the writes to the PMP registers. The Cargo feature \<open>pmp\<close> is the
  argument \<open>pmp_feature\<close>. The matching rule of the RISC-V privileged architecture is stated
  separately as the specification the encoding is checked against.
\<close>

section \<open>Model\<close>

definition PMP_R :: u8 where "PMP_R = push_bit 0 1"
definition PMP_W :: u8 where "PMP_W = push_bit 1 1"
definition PMP_X :: u8 where "PMP_X = push_bit 2 1"
definition PMP_TOR :: u8 where "PMP_TOR = push_bit 3 1"
definition PMP_NAPOT :: u8 where "PMP_NAPOT = push_bit 3 3"

abbreviation (input) FLASH_ENTRY :: nat where "FLASH_ENTRY \<equiv> 0"
abbreviation (input) TASK_ENTRY_LO :: nat where "TASK_ENTRY_LO \<equiv> 1"
abbreviation (input) TASK_ENTRY_HI :: nat where "TASK_ENTRY_HI \<equiv> 2"
abbreviation (input) DEFAULT_GRANT_ENTRY :: nat where "DEFAULT_GRANT_ENTRY \<equiv> 15"

lemmas pmp_consts = PMP_R_def PMP_W_def PMP_X_def PMP_TOR_def PMP_NAPOT_def

record entry_pair =
  addr_lo :: usize
  addr_hi :: usize
  cfg_lo :: u8
  cfg_hi :: u8

text \<open>The standard library's \<open>is_power_of_two\<close> on a 32-bit word.\<close>

definition is_power_of_two :: "usize \<Rightarrow> bool" where
  "is_power_of_two w \<longleftrightarrow> (\<exists>k \<in> set [0..<32]. w = push_bit k 1)"

definition is_napot :: "usize \<Rightarrow> usize \<Rightarrow> bool" where
  "is_napot start stop =
     (if stop < start then False
      else let size = stop - start in
        size \<ge> 8 \<and> is_power_of_two size \<and> start mod size = 0)"

definition napot_addr :: "usize \<Rightarrow> usize \<Rightarrow> usize" where
  "napot_addr start stop =
     (let size = stop - start in drop_bit 2 (start OR (size div 2 - 1)))"

definition encode_region :: "usize \<Rightarrow> usize \<Rightarrow> u8 \<Rightarrow> entry_pair" where
  "encode_region start stop perms =
     (if stop \<le> start then \<lparr>addr_lo = 0, addr_hi = 0, cfg_lo = 0, cfg_hi = 0\<rparr>
      else if is_napot start stop
      then \<lparr>addr_lo = 0, addr_hi = napot_addr start stop, cfg_lo = 0, cfg_hi = PMP_NAPOT OR perms\<rparr>
      else \<lparr>addr_lo = drop_bit 2 start, addr_hi = drop_bit 2 stop, cfg_lo = 0,
            cfg_hi = PMP_TOR OR perms\<rparr>)"

definition task_entries :: "task_descriptor \<Rightarrow> entry_pair" where
  "task_entries t =
     (case td_mode t of
        User \<Rightarrow> encode_region (td_memory_start t) (td_memory_end t) (PMP_R OR PMP_W)
      | Machine \<Rightarrow> encode_region 0 0 0)"

text \<open>The registers the kernel writes; \<open>pmpcfg1\<close> and \<open>pmpcfg2\<close> keep their reset value.\<close>

record pmp_regs =
  pmpaddr :: "nat \<Rightarrow> usize"
  pmpcfg0 :: u32
  pmpcfg3 :: u32

definition write_pmpaddr :: "nat \<Rightarrow> usize \<Rightarrow> pmp_regs \<Rightarrow> pmp_regs" where
  "write_pmpaddr idx val r =
     (if idx \<in> {0, 1, 2, 15} then r\<lparr>pmpaddr := (pmpaddr r)(idx := val)\<rparr> else r)"

definition write_pmpcfg0 :: "u32 \<Rightarrow> pmp_regs \<Rightarrow> pmp_regs" where
  "write_pmpcfg0 val r = r\<lparr>pmpcfg0 := val\<rparr>"

text \<open>\<open>csrc\<close> clears the bits of \<open>clear\<close>, then \<open>csrs\<close> sets those of \<open>set\<close>.\<close>

definition write_cfg_byte :: "nat \<Rightarrow> u8 \<Rightarrow> pmp_regs \<Rightarrow> pmp_regs" where
  "write_cfg_byte idx byte r =
     (let shift = (idx mod 4) * 8;
          clr = push_bit shift (0xFF :: u32);
          st = push_bit shift (ucast byte :: u32)
      in if idx div 4 = 0 then r\<lparr>pmpcfg0 := (pmpcfg0 r AND NOT clr) OR st\<rparr>
         else if idx div 4 = 3 then r\<lparr>pmpcfg3 := (pmpcfg3 r AND NOT clr) OR st\<rparr>
         else r)"

definition configure_pmp :: "bool \<Rightarrow> pmp_regs \<Rightarrow> pmp_regs" where
  "configure_pmp pmp_feature r =
     (if pmp_feature then
        write_cfg_byte FLASH_ENTRY (PMP_NAPOT OR PMP_R OR PMP_X)
          (write_pmpaddr FLASH_ENTRY (napot_addr FLASH_ORIGIN (FLASH_ORIGIN + FLASH_SIZE))
            (write_pmpcfg0 0 r))
      else
        write_cfg_byte DEFAULT_GRANT_ENTRY (PMP_NAPOT OR PMP_R OR PMP_W OR PMP_X)
          (write_pmpaddr DEFAULT_GRANT_ENTRY (- 1) r))"

definition activate_task_region :: "bool \<Rightarrow> task_descriptor \<Rightarrow> pmp_regs \<Rightarrow> pmp_regs" where
  "activate_task_region pmp_feature t r =
     (if pmp_feature then
        let e = task_entries t in
        write_cfg_byte TASK_ENTRY_HI (cfg_hi e)
          (write_cfg_byte TASK_ENTRY_LO (cfg_lo e)
            (write_pmpaddr TASK_ENTRY_HI (addr_hi e)
              (write_pmpaddr TASK_ENTRY_LO (addr_lo e)
                (write_cfg_byte TASK_ENTRY_HI 0 r))))
      else r)"

section \<open>The matching rule of the architecture\<close>

text \<open>
  Addresses are natural numbers here. A NAPOT entry whose address register has \<open>k\<close> trailing ones
  covers the naturally aligned block of \<open>2^(k+3)\<close> bytes; a TOR entry covers the bytes from the
  previous address register up to its own. The lowest-numbered entry that matches decides.
\<close>

function trailing_ones :: "nat \<Rightarrow> nat" where
  "trailing_ones n = (if odd n then Suc (trailing_ones (n div 2)) else 0)"
  by pat_completeness auto
termination
  by (relation "measure id") (auto elim: oddE)

declare trailing_ones.simps [simp del]

definition cfg_byte :: "pmp_regs \<Rightarrow> nat \<Rightarrow> u8" where
  "cfg_byte r i =
     (if i < 4 then ucast (drop_bit (8 * i) (pmpcfg0 r))
      else if 12 \<le> i \<and> i < 16 then ucast (drop_bit (8 * (i - 12)) (pmpcfg3 r)) else 0)"

definition napot_covers :: "nat \<Rightarrow> nat \<Rightarrow> bool" where
  "napot_covers a x \<longleftrightarrow> x div 2 ^ (trailing_ones a + 3) = a div 2 ^ (trailing_ones a + 1)"

definition entry_matches :: "pmp_regs \<Rightarrow> nat \<Rightarrow> nat \<Rightarrow> bool" where
  "entry_matches r i x =
     (let mode = drop_bit 3 (cfg_byte r i) AND 3; a = unat (pmpaddr r i) in
      if mode = 1 then (if i = 0 then 0 else 4 * unat (pmpaddr r (i - 1))) \<le> x \<and> x < 4 * a
      else if mode = 3 then napot_covers a x
      else False)"

text \<open>What a user-mode access to byte \<open>x\<close> needs: permission bits of the first matching entry.\<close>

definition user_perms :: "pmp_regs \<Rightarrow> nat \<Rightarrow> u8" where
  "user_perms r x =
     (case filter (\<lambda>i. entry_matches r i x) [0..<16] of [] \<Rightarrow> 0 | i # _ \<Rightarrow> cfg_byte r i AND 7)"

section \<open>Encodings\<close>

lemma trailing_ones_block:
  "trailing_ones (q * 2 ^ Suc k + (2 ^ k - 1)) = k"
proof (induction k)
  case 0
  have "even (q * 2)" by simp
  then show ?case by (subst trailing_ones.simps) simp
next
  case (Suc k)
  let ?n = "q * 2 ^ Suc (Suc k) + (2 ^ Suc k - 1)"
  have eq: "?n = 2 * (q * 2 ^ Suc k + (2 ^ k - 1)) + 1"
  proof -
    obtain m where "(2 :: nat) ^ k = Suc m" using gr0_conv_Suc [of "2 ^ k"] by auto
    then show ?thesis by (simp add: algebra_simps)
  qed
  then have "odd ?n" "?n div 2 = q * 2 ^ Suc k + (2 ^ k - 1)" by simp_all
  with Suc show ?case by (subst trailing_ones.simps) simp
qed

lemma napot_covers_block:
  "napot_covers (q * 2 ^ Suc k + (2 ^ k - 1)) x \<longleftrightarrow> q * 2 ^ (k + 3) \<le> x \<and> x < (q + 1) * 2 ^ (k + 3)"
proof -
  have "(2::nat) ^ k - 1 < 2 ^ Suc k" by (simp add: less_imp_diff_less)
  then have "(q * c + r) div c = q" if "c = 2 ^ Suc k" "r = 2 ^ k - 1" for c r :: nat
    using that by (intro div_nat_eqI) (simp_all only: mult.commute mult_Suc_right add.commute, simp_all)
  then have "(q * 2 ^ Suc k + (2 ^ k - 1)) div 2 ^ (k + 1) = q"
    by (simp only: Suc_eq_plus1 [symmetric])
  moreover have "x div B = q \<longleftrightarrow> q * B \<le> x \<and> x < (q + 1) * B" if "0 < B" for B
    using that by (metis Suc_eq_plus1 div_less_iff_less_mult le_antisym less_Suc_eq_le
        less_eq_div_iff_mult_less_eq order_refl)
  ultimately show ?thesis
    by (simp only: napot_covers_def trailing_ones_block) simp
qed

text \<open>A region that fits one NAPOT entry, read as numbers.\<close>

lemma is_napot_numbers:
  assumes "is_napot start stop"
  obtains k q where "unat start = q * 2 ^ (k + 3)" and "unat stop = (q + 1) * 2 ^ (k + 3)"
    and "unat (stop - start) = 2 ^ (k + 3)" and "k + 3 < 32"
proof -
  let ?size = "stop - start"
  have *: "start \<le> stop" "8 \<le> ?size" "is_power_of_two ?size" "start mod ?size = 0"
    using assms by (auto simp: is_napot_def Let_def split: if_splits)
  then obtain j where j: "j < 32" "?size = push_bit j 1" by (auto simp: is_power_of_two_def)
  have "unat (push_bit j 1 :: usize) = take_bit 32 (push_bit j (1 :: nat))"
    by (simp only: unsigned_push_bit_eq) simp
  also have "\<dots> = 2 ^ j"
    using power_strict_increasing [OF j(1), of "2 :: nat"]
    by (simp add: push_bit_eq_mult take_bit_eq_mod)
  finally have size: "unat ?size = 2 ^ j" using j(2) by simp
  have "3 \<le> j"
  proof (rule ccontr)
    assume "\<not> 3 \<le> j"
    then have "(2::nat) ^ j < 2 ^ 3" by (intro power_strict_increasing) auto
    with size *(2) show False by (simp add: word_le_nat_alt)
  qed
  then obtain k where k: "j = k + 3" by (metis add.commute le_Suc_ex)
  have "unat start mod 2 ^ j = 0"
    using *(4) size by (metis unat_0 unat_mod_distrib)
  then obtain q where q: "unat start = q * 2 ^ j" by (metis dvd_div_mult_self mod_0_imp_dvd)
  have "unat stop = unat start + unat ?size"
    using *(1) by (simp add: unat_sub_if' word_le_nat_alt)
  with q size k j(1) that show thesis by simp
qed

lemma or_mask_add:
  fixes a :: nat
  assumes "a mod 2 ^ k = 0" shows "a OR mask k = a + mask k"
proof -
  have "a AND mask k = 0" using assms by (simp flip: take_bit_eq_mask add: take_bit_eq_mod)
  then show ?thesis by (simp add: disjunctive_add_eq_or)
qed

lemma unat_napot_addr:
  assumes "unat start = q * 2 ^ (k + 3)" and "unat (stop - start) = 2 ^ (k + 3)" and "k + 3 < 32"
  shows "unat (napot_addr start stop) = q * 2 ^ Suc k + (2 ^ k - 1)"
proof -
  let ?size = "stop - start"
  have half: "unat (?size div 2 - 1) = mask (k + 2)"
  proof -
    have d: "unat (?size div 2) = 2 ^ (k + 2)" using assms(2) by (simp add: unat_div_distrib power_add)
    then have "1 \<le> ?size div 2" by (simp add: word_le_nat_alt)
    with d show ?thesis by (simp add: unat_sub_if' word_le_nat_alt mask_eq_exp_minus_1)
  qed
  have "unat (start OR (?size div 2 - 1)) = unat start OR mask (k + 2)"
    by (simp add: unsigned_or_eq half)
  also have "\<dots> = unat start + mask (k + 2)"
    using assms(1) by (intro or_mask_add) (simp add: power_add mod_mult_right_eq)
  also have "\<dots> = 4 * (q * 2 ^ Suc k + (2 ^ k - 1)) + 3"
  proof -
    obtain m where "(2 :: nat) ^ k = Suc m" using gr0_conv_Suc [of "2 ^ k"] by auto
    then show ?thesis using assms(1) by (simp add: mask_eq_exp_minus_1 algebra_simps power_add)
  qed
  finally have "unat (start OR (?size div 2 - 1)) div 4 = q * 2 ^ Suc k + (2 ^ k - 1)" by simp
  moreover have "unat (drop_bit 2 w) = unat w div 4" for w :: usize
    by (simp add: drop_bit_eq_div unat_div_distrib)
  ultimately show ?thesis by (simp only: napot_addr_def Let_def)
qed

lemma napot_entry_exact:
  assumes "is_napot start stop"
  shows "napot_covers (unat (napot_addr start stop)) x \<longleftrightarrow> unat start \<le> x \<and> x < unat stop"
proof -
  obtain k q where *: "unat start = q * 2 ^ (k + 3)" "unat stop = (q + 1) * 2 ^ (k + 3)"
    "unat (stop - start) = 2 ^ (k + 3)" "k + 3 < 32"
    using is_napot_numbers [OF assms] .
  show ?thesis unfolding unat_napot_addr [OF *(1,3,4)] napot_covers_block *(1,2) by blast
qed

section \<open>Isolation\<close>

lemma cfg_byte_write:
  assumes "i < 4" and "j < 16"
  shows "cfg_byte (write_cfg_byte i b r) j = (if j = i then b else cfg_byte r j)"
proof -
  have ff: "(0xFF :: u32) = mask 8" by (simp add: mask_eq_exp_minus_1)
  show ?thesis
  proof (cases "j < 4")
    case True
    have far: "8 * j + n < 8 * i \<or> 8 * i + 8 \<le> 8 * j + n" if "j \<noteq> i" "n < 8" for n
      using that by linarith
    have small: "bit b m \<Longrightarrow> m < 8" for m using bit_imp_le_length [of b m] by simp
    show ?thesis
      using assms(1) True far
      by (intro bit_word_eqI) (auto simp: cfg_byte_def write_cfg_byte_def Let_def ff bit_simps mult.commute
          dest!: small)
  next
    case False
    with assms show ?thesis by (auto simp: cfg_byte_def write_cfg_byte_def Let_def)
  qed
qed

lemma pmpaddr_write_cfg [simp]: "pmpaddr (write_cfg_byte i b r) = pmpaddr r"
  by (simp add: write_cfg_byte_def Let_def)

lemma cfg_byte_write_addr [simp]: "cfg_byte (write_pmpaddr i a r) j = cfg_byte r j"
  by (simp add: cfg_byte_def write_pmpaddr_def)

text \<open>The register state from the boot configuration on: only the two task entries vary.\<close>

definition pmp_isolating :: "pmp_regs \<Rightarrow> bool" where
  "pmp_isolating r \<longleftrightarrow>
     pmpaddr r 0 = napot_addr FLASH_ORIGIN (FLASH_ORIGIN + FLASH_SIZE) \<and>
     cfg_byte r 0 = PMP_NAPOT OR PMP_R OR PMP_X \<and>
     (\<forall>i < 16. i \<notin> {0, 2} \<longrightarrow> cfg_byte r i = 0)"

lemma configure_isolating:
  assumes "pmpcfg3 r = 0" shows "pmp_isolating (configure_pmp True r)"
proof -
  have "cfg_byte (write_pmpcfg0 0 r) i = 0" for i
    using assms by (simp add: cfg_byte_def write_pmpcfg0_def)
  then show ?thesis
    by (simp add: pmp_isolating_def configure_pmp_def cfg_byte_write) (simp add: write_pmpaddr_def)
qed

lemma activate_isolating:
  assumes "pmp_isolating r"
  shows "pmp_isolating (activate_task_region True t r) \<and>
         pmpaddr (activate_task_region True t r) 1 = addr_lo (task_entries t) \<and>
         pmpaddr (activate_task_region True t r) 2 = addr_hi (task_entries t) \<and>
         cfg_byte (activate_task_region True t r) 2 = cfg_hi (task_entries t)"
proof -
  have "cfg_lo (task_entries t) = 0"
    by (simp add: task_entries_def encode_region_def split: task_mode.splits)
  then show ?thesis
    using assms
    by (simp add: pmp_isolating_def activate_task_region_def Let_def cfg_byte_write)
      (simp add: write_pmpaddr_def)
qed

text \<open>A region the two entries can express to the byte.\<close>

definition expressible :: "usize \<Rightarrow> usize \<Rightarrow> bool" where
  "expressible start stop \<longleftrightarrow>
     start < stop \<and> (is_napot start stop \<or> unat start mod 4 = 0 \<and> unat stop mod 4 = 0)"

lemma task_entry_matches:
  assumes "pmpaddr r 1 = addr_lo (encode_region start stop (PMP_R OR PMP_W))"
    and "pmpaddr r 2 = addr_hi (encode_region start stop (PMP_R OR PMP_W))"
    and "cfg_byte r 2 = cfg_hi (encode_region start stop (PMP_R OR PMP_W))"
    and "expressible start stop"
  shows "(entry_matches r 2 x \<longleftrightarrow> unat start \<le> x \<and> x < unat stop) \<and>
         cfg_byte r 2 AND 7 = PMP_R OR PMP_W"
proof -
  have lt: "\<not> stop \<le> start" using assms(4) by (auto simp: expressible_def)
  show ?thesis
  proof (cases "is_napot start stop")
    case True
    then show ?thesis
      using assms(1-3) lt napot_entry_exact [OF True, of x]
      by (simp add: entry_matches_def encode_region_def pmp_consts Let_def)
  next
    case False
    have "unat (drop_bit 2 w) = unat w div 4" for w :: usize
      by (simp add: drop_bit_eq_div unat_div_distrib)
    then show ?thesis
      using assms lt False
      by (auto simp: entry_matches_def encode_region_def pmp_consts Let_def expressible_def)
  qed
qed

lemma unmatched_off: "cfg_byte r i = 0 \<Longrightarrow> \<not> entry_matches r i x"
  by (simp add: entry_matches_def)

lemma flash_entry_matches:
  assumes "pmp_isolating r"
  shows "(entry_matches r 0 x \<longleftrightarrow> 0x80000000 \<le> x \<and> x < 0x80080000) \<and>
         cfg_byte r 0 AND 7 = PMP_R OR PMP_X"
proof -
  have "is_napot FLASH_ORIGIN (FLASH_ORIGIN + FLASH_SIZE)" by code_simp
  from napot_entry_exact [OF this, of x] assms show ?thesis
    by (simp add: entry_matches_def pmp_isolating_def pmp_consts Let_def FLASH_ORIGIN_def FLASH_SIZE_def)
qed

lemma first_match:
  assumes "pmp_isolating r"
  shows "user_perms r x =
         (if entry_matches r 0 x then cfg_byte r 0 AND 7
          else if entry_matches r 2 x then cfg_byte r 2 AND 7 else 0)"
proof -
  have "filter (\<lambda>i. entry_matches r i x) [0..<16] = filter (\<lambda>i. entry_matches r i x) [0, 2]"
  proof -
    have "filter (\<lambda>i. entry_matches r i x) [0..<16] =
        filter (\<lambda>i. entry_matches r i x) (filter (\<lambda>i. i = 0 \<or> i = 2) [0..<16])"
      unfolding filter_filter using assms unmatched_off
      by (intro filter_cong) (auto simp: pmp_isolating_def)
    also have "filter (\<lambda>i. i = 0 \<or> i = (2::nat)) [0..<16] = [0, 2]" by code_simp
    finally show ?thesis .
  qed
  then show ?thesis by (simp add: user_perms_def)
qed

text \<open>The registers hold the entries of task \<open>t\<close>, as after its activation.\<close>

definition pmp_holds :: "task_descriptor \<Rightarrow> pmp_regs \<Rightarrow> bool" where
  "pmp_holds t r \<longleftrightarrow>
     pmp_isolating r \<and> pmpaddr r 1 = addr_lo (task_entries t) \<and>
     pmpaddr r 2 = addr_hi (task_entries t) \<and> cfg_byte r 2 = cfg_hi (task_entries t)"

lemma activate_holds: "pmp_isolating r \<Longrightarrow> pmp_holds t (activate_task_region True t r)"
  using activate_isolating by (simp add: pmp_holds_def)

text \<open>The user-mode view of the address space while task \<open>t\<close> runs.\<close>

definition task_view :: "task_descriptor \<Rightarrow> nat \<Rightarrow> u8" where
  "task_view t x =
     (if 0x80000000 \<le> x \<and> x < 0x80080000 then PMP_R OR PMP_X
      else if unat (td_memory_start t) \<le> x \<and> x < unat (td_memory_end t) then PMP_R OR PMP_W
      else 0)"

lemma user_perms_holds:
  assumes "pmp_holds t r" and "td_mode t = User" and "expressible (td_memory_start t) (td_memory_end t)"
  shows "user_perms r x = task_view t x"
proof -
  have "task_entries t = encode_region (td_memory_start t) (td_memory_end t) (PMP_R OR PMP_W)"
    using assms(2) by (simp add: task_entries_def)
  with assms(1) task_entry_matches [OF _ _ _ assms(3), of r x] flash_entry_matches [of r x]
    first_match [of r x]
  show ?thesis by (simp add: pmp_holds_def task_view_def)
qed

lemma fold_activate_isolating:
  "pmp_isolating r \<Longrightarrow> pmp_isolating (fold (activate_task_region True) ts r)"
  using activate_isolating by (induction ts arbitrary: r) auto

text \<open>
  C8: with protection enabled, after boot configuration and any sequence of context switches
  that ends with activating a user task whose region is expressible, user-mode
  code may read and execute exactly the flash image, read and write exactly that task's region,
  and touch nothing else.
\<close>

theorem user_access_isolated:
  assumes "pmpcfg3 r = 0"
    and "td_mode t = User" and "expressible (td_memory_start t) (td_memory_end t)"
  shows "user_perms (activate_task_region True t
           (fold (activate_task_region True) ts (configure_pmp True r))) x =
         (if 0x80000000 \<le> x \<and> x < 0x80080000 then PMP_R OR PMP_X
          else if unat (td_memory_start t) \<le> x \<and> x < unat (td_memory_end t) then PMP_R OR PMP_W
          else 0)"
  using user_perms_holds [OF activate_holds assms(2,3)] fold_activate_isolating
    configure_isolating [OF assms(1)]
  by (simp add: task_view_def)

theorem user_access_isolated_witness:
  "user_perms (activate_task_region True
       (with_capabilities 0 1 0x800B8000 4096 0x800B8000 0x800B9000 1 0 0)
       (fold (activate_task_region True)
          [with_capabilities 1 2 0x800B9000 4096 0x800B9000 0x800BA000 0 0 0]
          (configure_pmp True \<lparr>pmpaddr = (\<lambda>_. 0), pmpcfg0 = 0, pmpcfg3 = 0\<rparr>))) 0x800B9000 = 0"
proof -
  have "expressible 0x800B8000 0x800B9000" by code_simp
  then show ?thesis
    by (subst user_access_isolated) (simp_all add: with_capabilities_def)
qed

end
