(* ===== verification/Uart_Console.thy ===== *)
theory Uart_Console
  imports Ferret_Prelude
begin

text \<open>
  The transmit-only UART driver (\<^verbatim>\<open>kernel/src/uart.rs\<close>). The console is the list of bytes written
  to the transmit register so far.
\<close>

section \<open>Model\<close>

type_synonym console = "u8 list"

definition bytes_of :: "string \<Rightarrow> u8 list" where
  "bytes_of s = map of_char s"

definition uart_putchar :: "u8 \<Rightarrow> console \<Rightarrow> console" where
  "uart_putchar c out = out @ [c]"

definition uart_puts :: "string \<Rightarrow> console \<Rightarrow> console" where
  "uart_puts s out = fold uart_putchar (bytes_of s) out"

definition HEX :: "u8 list" where
  "HEX = bytes_of ''0123456789abcdef''"

fun print_hex_loop :: "usize \<Rightarrow> nat \<Rightarrow> console \<Rightarrow> console res" where
  "print_hex_loop val 0 out = Inr out"
| "print_hex_loop val (Suc k) out =
     (let i = 4 * k in
      bind_res (arr_get HEX (unat (drop_bit i val AND 0xF))) (\<lambda>c.
        print_hex_loop val k (uart_putchar c out)))"

text \<open>\<open>size_of::<usize>() * 8\<close> bits are 8 nibbles on the target.\<close>

definition uart_print_hex :: "usize \<Rightarrow> console \<Rightarrow> console res" where
  "uart_print_hex val out = print_hex_loop val 8 (uart_puts ''0x'' out)"

function print_digits :: "u8 list \<Rightarrow> nat \<Rightarrow> usize \<Rightarrow> (u8 list \<times> nat) res" where
  "print_digits buf pos n =
     (if n > 0 then
        (if pos = 0 then Inl IndexOutOfBounds
         else bind_res (arr_set buf (pos - 1) (of_char CHR ''0'' + ucast (n mod 10))) (\<lambda>buf'.
           print_digits buf' (pos - 1) (n div 10)))
      else Inr (buf, pos))"
  by pat_completeness auto
termination
  by (relation "measure (\<lambda>(buf, pos, n). pos)") auto

declare print_digits.simps [simp del]

definition uart_print_usize :: "usize \<Rightarrow> console \<Rightarrow> console res" where
  "uart_print_usize val out =
     (if val = 0 then Inr (uart_puts ''0'' out)
      else bind_res (print_digits (replicate 20 0) 20 val) (\<lambda>(buf, pos).
        Inr (fold uart_putchar (drop pos buf) out)))"

section \<open>What is printed\<close>

text \<open>Decimal digits, most significant first.\<close>

function decimal :: "nat \<Rightarrow> u8 list" where
  "decimal n = (if n < 10 then [48 + of_nat n] else decimal (n div 10) @ [48 + of_nat (n mod 10)])"
  by pat_completeness auto
termination
  by (relation "measure id") auto

declare decimal.simps [simp del]

lemma fold_putchar [simp]: "fold uart_putchar bs out = out @ bs"
  by (induction bs arbitrary: out) (auto simp: uart_putchar_def)

lemma uart_puts_append: "uart_puts s out = out @ bytes_of s"
  by (simp add: uart_puts_def)

lemma digit_byte: "(ucast (n mod 10 :: usize) :: u8) = of_nat (unat n mod 10)"
proof -
  have "unat n mod 10 = unat (n mod 10)" by (simp add: unat_mod_distrib)
  then show ?thesis by (simp only: of_nat_unat)
qed

lemma decimal_zero_or: "n \<noteq> 0 \<Longrightarrow>
  decimal n = (if n div 10 = 0 then [] else decimal (n div 10)) @ [48 + of_nat (n mod 10)]"
  by (subst decimal.simps) auto

lemma print_digits_decimal:
  assumes "unat n < 10 ^ pos" and "pos \<le> length buf"
  shows "\<exists>buf' pos'. print_digits buf pos n = Inr (buf', pos') \<and> length buf' = length buf \<and> pos' \<le> pos \<and>
           drop pos' buf' = (if n = 0 then [] else decimal (unat n)) @ drop pos buf"
  using assms
proof (induction buf pos n rule: print_digits.induct)
  case (1 buf pos n)
  show ?case
  proof (cases "n = 0")
    case True
    then show ?thesis by (subst print_digits.simps) simp
  next
    case False
    then have n: "0 < n" by (simp add: word_gt_0)
    with "1.prems"(1) have pos: "pos \<noteq> 0"
      by (cases pos) (auto simp: word_less_nat_alt)
    let ?d = "48 + of_nat (unat n mod 10) :: u8" and ?buf = "buf[pos - 1 := 48 + of_nat (unat n mod 10)]"
    have div: "unat (n div 10) = unat n div 10" by (simp add: unat_div_distrib)
    have "unat (n div 10) < 10 ^ (pos - 1)"
      using "1.prems"(1) pos div by (cases pos) (auto simp: div_less_iff_less_mult mult.commute)
    moreover have "pos - Suc 0 \<le> length buf" using "1.prems"(2) by simp
    ultimately obtain buf' pos' where
      IH: "print_digits ?buf (pos - 1) (n div 10) = Inr (buf', pos')" "length buf' = length buf"
        "pos' \<le> pos - 1"
        "drop pos' buf' = (if n div 10 = 0 then [] else decimal (unat (n div 10))) @ drop (pos - 1) ?buf"
      using "1.IH" [of ?buf] n pos "1.prems"(2) by (auto simp: digit_byte)
    have "drop (pos - 1) ?buf = ?d # drop pos buf"
      using pos "1.prems"(2) by (cases pos) (simp_all add: Cons_nth_drop_Suc [symmetric] drop_update_cancel)
    moreover have "n div 10 = 0 \<longleftrightarrow> unat n div 10 = 0" using div by (metis unat_eq_0)
    ultimately have "drop pos' buf' = decimal (unat n) @ drop pos buf"
      using IH(4) div False by (subst decimal_zero_or) (auto simp: unat_eq_0)
    with IH n pos "1.prems"(2) False show ?thesis
      by (subst print_digits.simps) (auto simp: digit_byte)
  qed
qed

lemma uart_print_usize_eq: "uart_print_usize val out = Inr (out @ decimal (unat val))"
proof (cases "val = 0")
  case True
  have "decimal 0 = [48]" by (subst decimal.simps) simp
  with True show ?thesis
    by (simp add: uart_print_usize_def uart_puts_append bytes_of_def of_char_Char)
next
  case False
  have "unat val < 10 ^ 20"
    using unat_u32_less [of val] by simp
  from print_digits_decimal [OF this, of "replicate 20 0"] False show ?thesis
    by (auto simp: uart_print_usize_def)
qed

text \<open>Reading the digits back.\<close>

definition digits_value :: "u8 list \<Rightarrow> nat" where
  "digits_value ds = foldl (\<lambda>v d. 10 * v + unat (d - 48)) 0 ds"

lemma digits_value_decimal: "digits_value (decimal n) = n"
proof (induction n rule: decimal.induct)
  case (1 n)
  have small: "unat (48 + of_nat k - 48 :: u8) = k" if "k < 10" for k
    using that by (simp add: unat_of_nat)
  show ?case
  proof (cases "n < 10")
    case True
    then show ?thesis using small by (subst decimal.simps) (simp add: digits_value_def)
  next
    case False
    then have "digits_value (decimal n) = 10 * digits_value (decimal (n div 10)) + n mod 10"
      using small [of "n mod 10"] by (subst decimal.simps) (simp add: digits_value_def)
    with 1 False show ?thesis by simp
  qed
qed

text \<open>
  The decimal printer appends a digit string that reads back as its argument, never leaving
  its 20-byte digit buffer.
\<close>

theorem uart_print_usize_reads_back:
  "\<exists>ds. uart_print_usize val out = Inr (out @ ds) \<and> digits_value ds = unat val"
  by (simp add: uart_print_usize_eq digits_value_decimal)

lemma HEX_index: "unat (w AND 0xF :: usize) < length HEX"
proof -
  have "w AND 0xF \<le> 0xF" by (rule word_and_le1)
  then have "unat (w AND 0xF) \<le> 15" by (simp add: word_le_nat_alt)
  then show ?thesis by (simp add: HEX_def bytes_of_def)
qed

lemma print_hex_loop_ok:
  "\<exists>hs. print_hex_loop val k out = Inr (out @ hs) \<and> length hs = k"
proof (induction k arbitrary: out)
  case (Suc k)
  show ?case
    using Suc [of "out @ [HEX ! unat (drop_bit (4 * k) val AND 0xF)]"]
    by (auto simp: HEX_index uart_putchar_def Let_def)
qed simp

lemma uart_print_hex_ok: "\<exists>hs. uart_print_hex val out = Inr (out @ hs) \<and> length hs = 10"
  using print_hex_loop_ok [of val 8 "uart_puts ''0x'' out"]
  by (auto simp: uart_print_hex_def uart_puts_append bytes_of_def)

end
