(* ===== verification/Machine_Timer.thy ===== *)
theory Machine_Timer
  imports Ferret_Prelude
begin

text \<open>
  The CLINT driver (\<^verbatim>\<open>kernel/src/clint.rs\<close>). \<open>mtime\<close> runs on its own, so each read is an input: a
  read of the 64-bit counter consumes the values the two 32-bit registers show, three per
  round of the carry loop.
\<close>

section \<open>Model\<close>

record timer =
  tick_count :: u32
  next_deadline :: u64
  mtimecmp :: u64

definition TICK_CYCLES :: u64 where "TICK_CYCLES = 10000"

text \<open>
  The carry loop. The argument lists, round by round, the three words read (high, low, high);
  \<open>None\<close> means that the loop is still running when the list ends.
\<close>

fun get_mtime :: "(u32 \<times> u32 \<times> u32) list \<Rightarrow> u64 option" where
  "get_mtime [] = None"
| "get_mtime ((hi0, lo, hi1) # rounds) =
     (if hi0 = hi1 then Some (push_bit 32 (ucast hi0) OR ucast lo) else get_mtime rounds)"

text \<open>The three stores of \<open>set_mtimecmp\<close> on the (high, low) halves, as the register values go by.\<close>

definition cmp_value :: "u32 \<Rightarrow> u32 \<Rightarrow> u64" where
  "cmp_value hi lo = push_bit 32 (ucast hi) OR ucast lo"

definition set_mtimecmp_trace :: "u64 \<Rightarrow> u64 \<Rightarrow> u64 list" where
  "set_mtimecmp_trace old val =
     (let lo = ucast val :: u32; hi = ucast (drop_bit 32 val) :: u32; old_lo = ucast old :: u32 in
      [cmp_value (- 1) old_lo, cmp_value (- 1) lo, cmp_value hi lo])"

definition set_mtimecmp :: "u64 \<Rightarrow> 'z timer_scheme \<Rightarrow> 'z timer_scheme" where
  "set_mtimecmp val t = t\<lparr>mtimecmp := last (set_mtimecmp_trace (mtimecmp t) val)\<rparr>"

definition schedule_tick :: "u64 \<Rightarrow> u64 \<Rightarrow> 'z timer_scheme \<Rightarrow> 'z timer_scheme" where
  "schedule_tick now cycles t = set_mtimecmp (now + cycles) t"

definition timer_isr :: "u64 \<Rightarrow> 'z timer_scheme \<Rightarrow> u32 \<times> 'z timer_scheme" where
  "timer_isr now t =
     (let tick = tick_count t + 1;
          t1 = t\<lparr>tick_count := tick, next_deadline := next_deadline t + TICK_CYCLES\<rparr>;
          t2 = (if next_deadline t1 \<le> now then t1\<lparr>next_deadline := now + TICK_CYCLES\<rparr> else t1)
      in (tick, set_mtimecmp (next_deadline t2) t2))"

definition start_ticks :: "u64 \<Rightarrow> 'z timer_scheme \<Rightarrow> 'z timer_scheme" where
  "start_ticks now t =
     (let t1 = t\<lparr>next_deadline := now + TICK_CYCLES\<rparr> in set_mtimecmp (next_deadline t1) t1)"

definition ticks :: "'z timer_scheme \<Rightarrow> u32" where
  "ticks t = tick_count t"

section \<open>Lemmas\<close>

lemma cmp_value_split: "cmp_value (ucast (drop_bit 32 v)) (ucast v) = v"
proof (rule bit_word_eqI)
  fix n assume "n < LENGTH(64)"
  then have "n < 64" by simp
  then show "bit (cmp_value (ucast (drop_bit 32 v)) (ucast v)) n \<longleftrightarrow> bit v n"
    by (cases "n < 32") (auto simp: cmp_value_def bit_simps)
qed

lemma set_mtimecmp_value [simp]: "mtimecmp (set_mtimecmp v t) = v"
  by (simp add: set_mtimecmp_def set_mtimecmp_trace_def Let_def cmp_value_split)

lemma set_mtimecmp_other [simp]:
  "tick_count (set_mtimecmp v t) = tick_count t" "next_deadline (set_mtimecmp v t) = next_deadline t"
  by (simp_all add: set_mtimecmp_def)

lemma unat_cmp_value: "unat (cmp_value hi lo) = unat hi * 2 ^ 32 + unat lo"
proof -
  have "push_bit 32 (ucast hi :: u64) AND ucast lo = 0"
    by (rule bit_word_eqI) (auto simp: bit_simps dest: bit_imp_le_length)
  then have "cmp_value hi lo = push_bit 32 (ucast hi) + ucast lo"
    by (simp add: cmp_value_def disjunctive_add_eq_or)
  moreover have "unat (push_bit 32 (ucast hi :: u64)) = unat hi * 2 ^ 32"
    using unat_u32_less [of hi]
    by (simp only: unsigned_push_bit_eq) (simp add: push_bit_eq_mult take_bit_eq_mod unsigned_ucast_eq)
  moreover have "unat (ucast lo :: u64) = unat lo"
    using unat_u32_less [of lo] by (simp add: unsigned_ucast_eq take_bit_eq_mod)
  moreover have "unat hi * 2 ^ 32 + unat lo < 2 ^ 64"
    using unat_u32_less [of hi] unat_u32_less [of lo] by simp
  ultimately show ?thesis by (simp add: unat_word_ariths)
qed

lemma cmp_value_top: "0xFFFFFFFF00000000 \<le> cmp_value (- 1) lo"
proof -
  have "unat (- 1 :: u32) = 0xFFFFFFFF" by (simp add: unsigned_minus_1_eq_mask mask_eq_exp_minus_1)
  then show ?thesis using unat_cmp_value [of "- 1" lo] by (simp only: word_le_nat_alt) simp
qed

lemma cmp_value_le_top: "v \<le> cmp_value (- 1) (ucast v)"
proof -
  let ?hi = "ucast (drop_bit 32 v :: u64) :: u32" and ?lo = "ucast v :: u32"
  have "unat ?hi \<le> unat (- 1 :: u32)" using word_order.extremum [of ?hi] by (simp only: word_le_nat_alt)
  then have "unat (cmp_value ?hi ?lo) \<le> unat (cmp_value (- 1) ?lo)" unfolding unat_cmp_value by simp
  then show ?thesis by (simp add: cmp_value_split word_le_nat_alt)
qed

lemma timer_isr_deadline:
  assumes "now < 0xFFFFFFFF00000000"
  shows "now < mtimecmp (snd (timer_isr now t))"
proof -
  have "now < now + TICK_CYCLES"
    using assms by (simp add: TICK_CYCLES_def word_less_nat_alt unat_word_ariths)
  then show ?thesis by (auto simp: timer_isr_def Let_def not_le)
qed

text \<open>
  C31: the timer is pending while the compare register is at most the counter. As long as the counter
  \<open>now\<close> is below \<open>0xFFFFFFFF00000000\<close>: while the register is rewritten in three 32-bit stores,
  whatever it held before, every value it passes through is above \<open>now\<close>
  if the new deadline is, so no interrupt is raised before the new deadline, and it ends holding that
  deadline; and the interrupt handler always leaves a deadline above \<open>now\<close>.
\<close>

theorem set_mtimecmp_no_early_interrupt:
  assumes "now < 0xFFFFFFFF00000000"
  shows "last (set_mtimecmp_trace old val) = val \<and>
         (now < val \<longrightarrow> (\<forall>v \<in> set (set_mtimecmp_trace old val). now < v)) \<and>
         now < mtimecmp (snd (timer_isr now t))"
proof -
  have "now < cmp_value (- 1) lo" for lo using assms cmp_value_top by (rule less_le_trans)
  moreover have "now < cmp_value (- 1) (ucast val)" if "now < val" using that cmp_value_le_top by (rule less_le_trans)
  ultimately show ?thesis
    using timer_isr_deadline [OF assms, of t] by (auto simp: set_mtimecmp_trace_def Let_def cmp_value_split)
qed

theorem set_mtimecmp_no_early_interrupt_witness:
  "last (set_mtimecmp_trace 0x1FFFFFFFF 0x200002710) = 0x200002710 \<and>
   0x200000000 < set_mtimecmp_trace 0x1FFFFFFFF 0x200002710 ! 0 \<and>
   0x200000000 < set_mtimecmp_trace 0x1FFFFFFFF 0x200002710 ! 1 \<and>
   0x200000000 < set_mtimecmp_trace 0x1FFFFFFFF 0x200002710 ! 2"
proof -
  have "set_mtimecmp_trace 0x1FFFFFFFF 0x200002710 ! i \<in> set (set_mtimecmp_trace 0x1FFFFFFFF 0x200002710)"
    if "i < 3" for i
    using that by (intro nth_mem) (simp add: set_mtimecmp_trace_def Let_def)
  from this [of 0] this [of 1] this [of 2] show ?thesis
    using set_mtimecmp_no_early_interrupt [of "0x200000000" "0x1FFFFFFFF" "0x200002710"
        "\<lparr>tick_count = 0, next_deadline = 0, mtimecmp = 0\<rparr>"] by simp
qed

text \<open>
  The counter while one round of the carry loop runs: its values at the three reads, in order.
\<close>

definition round_of :: "u64 \<times> u64 \<times> u64 \<Rightarrow> u32 \<times> u32 \<times> u32" where
  "round_of = (\<lambda>(c0, c1, c2). (ucast (drop_bit 32 c0), ucast c1, ucast (drop_bit 32 c2)))"

lemma unat_high: "unat (ucast (drop_bit 32 c :: u64) :: u32) = unat c div 2 ^ 32"
proof -
  have "unat c < 2 ^ 64" using unsigned_less [of c, where 'a = nat] by simp
  then have "unat c div 2 ^ 32 < 2 ^ 32" by (simp add: less_mult_imp_div_less)
  then show ?thesis
    by (simp add: unsigned_ucast_eq drop_bit_eq_div unat_div_distrib take_bit_eq_mod)
qed

lemma same_high:
  assumes "c0 \<le> c1" and "c1 \<le> c2" and "drop_bit 32 c0 = drop_bit 32 (c2 :: u64)"
  shows "drop_bit 32 c1 = drop_bit 32 c0"
proof -
  have "unat c0 div 2 ^ 32 \<le> unat c1 div 2 ^ 32" "unat c1 div 2 ^ 32 \<le> unat c2 div 2 ^ 32"
    using assms(1,2) by (simp_all add: word_le_nat_alt div_le_mono)
  moreover have "unat c0 div 2 ^ 32 = unat c2 div 2 ^ 32"
    using assms(3) unat_high by metis
  ultimately have "unat (drop_bit 32 c1) = unat (drop_bit 32 c0)"
    by (simp add: drop_bit_eq_div unat_div_distrib)
  then show ?thesis by (simp only: word_unat_eq_iff)
qed

lemma high_inj: "(ucast (drop_bit 32 a :: u64) :: u32) = ucast (drop_bit 32 b) \<longleftrightarrow> drop_bit 32 a = drop_bit 32 b"
proof
  assume "(ucast (drop_bit 32 a) :: u32) = ucast (drop_bit 32 b)"
  then have "unat a div 2 ^ 32 = unat b div 2 ^ 32" using unat_high by metis
  then have "unat (drop_bit 32 a) = unat (drop_bit 32 b)" by (simp add: drop_bit_eq_div unat_div_distrib)
  then show "drop_bit 32 a = drop_bit 32 b" by (simp only: word_unat_eq_iff)
qed simp

text \<open>
  With a counter that never runs backwards during a round, the carry loop returns the exact
  64-bit value the counter had at a low-word read, and it returns as soon as one round sees no
  carry into the high word.
\<close>

theorem get_mtime_exact:
  assumes "\<forall>(c0, c1, c2) \<in> set cs. c0 \<le> c1 \<and> c1 \<le> c2"
    and "\<exists>(c0, c1, c2) \<in> set cs. drop_bit 32 c0 = drop_bit 32 c2"
  shows "\<exists>(c0, c1, c2) \<in> set cs. get_mtime (map round_of cs) = Some c1"
  using assms
proof (induction cs)
  case (Cons c cs)
  obtain c0 c1 c2 where c: "c = (c0, c1, c2)" by (cases c)
  show ?case
  proof (cases "drop_bit 32 c0 = drop_bit 32 c2")
    case True
    then have "drop_bit 32 c1 = drop_bit 32 c0" using same_high Cons.prems(1) c by auto
    then have "push_bit 32 (ucast (ucast (drop_bit 32 c0) :: u32)) OR ucast (ucast c1 :: u32) = c1"
      using cmp_value_split [of c1] by (simp add: cmp_value_def)
    with True c show ?thesis by (simp add: round_of_def)
  next
    case False
    with Cons c have "\<exists>(c0, c1, c2) \<in> set cs. get_mtime (map round_of cs) = Some c1" by auto
    with False c show ?thesis by (auto simp: round_of_def high_inj)
  qed
qed simp

theorem get_mtime_exact_witness:
  "get_mtime [round_of (0xFFFFFFFF, 0x100000000, 0x100000001),
              round_of (0x100000002, 0x100000003, 0x100000004)] = Some 0x100000003"
proof -
  let ?cs = "[(0xFFFFFFFF, 0x100000000, 0x100000001),
              (0x100000002, 0x100000003, 0x100000004)] :: (u64 \<times> u64 \<times> u64) list"
  have "\<exists>(c0, c1, c2) \<in> set ?cs. get_mtime (map round_of ?cs) = Some c1"
    by (rule get_mtime_exact) code_simp+
  moreover have "get_mtime (map round_of ?cs) \<noteq> Some 0x100000000" by code_simp
  ultimately show ?thesis by auto
qed

text \<open>
  The timer interrupt advances the tick by one, keeps the tick grid (deadlines are exactly one
  period apart) while the handler keeps up, and always re-arms the timer in the future, as long
  as the 64-bit counter is two periods from overflow.
\<close>

theorem timer_isr_rearms:
  assumes "unat now + 20000 < 2 ^ 64" and "unat (next_deadline t) + 20000 < 2 ^ 64"
    and "timer_isr now t = (tick, t')"
  shows "tick = tick_count t + 1 \<and> tick_count t' = tick \<and> mtimecmp t' = next_deadline t' \<and>
         now < mtimecmp t' \<and>
         (now < next_deadline t + TICK_CYCLES \<longrightarrow> next_deadline t' = next_deadline t + TICK_CYCLES)"
proof -
  have "unat (now + TICK_CYCLES) = unat now + 10000"
    using assms(1) by (simp add: TICK_CYCLES_def unat_word_ariths)
  then have "now < now + TICK_CYCLES" by (simp add: word_less_nat_alt)
  with assms(3) show ?thesis
    by (auto simp: timer_isr_def Let_def split: if_splits)
qed

theorem timer_isr_rearms_witness:
  "mtimecmp (snd (timer_isr 30500 \<lparr>tick_count = 2, next_deadline = 30000, mtimecmp = 30000\<rparr>)) = 40000"
proof -
  let ?t = "\<lparr>tick_count = 2, next_deadline = 30000, mtimecmp = 30000\<rparr> :: timer"
  obtain tick t' where t': "timer_isr 30500 ?t = (tick, t')" by (cases "timer_isr 30500 ?t")
  have "mtimecmp t' = next_deadline t'" "next_deadline t' = 30000 + TICK_CYCLES"
    using timer_isr_rearms [OF _ _ t'] by (simp_all add: TICK_CYCLES_def)
  with t' show ?thesis by (simp add: TICK_CYCLES_def)
qed

end
