(* ===== verification/Scheduler.thy ===== *)
theory Scheduler
  imports Priority_Queue Ipc_Channel Memory_Protection Uart_Console Task_Stack Machine_Timer Trap_Frame
begin

text \<open>
  The preemptive scheduler (\<^verbatim>\<open>kernel/src/scheduler/mod.rs\<close>). All statics the trap path touches are
  one record; every function of the source is a function on it, with the fault that stops the
  kernel as the other outcome. Values the hardware supplies (the \<open>minstret\<close> samples and \<open>mtime\<close>)
  are arguments.
\<close>

section \<open>Kernel state\<close>

text \<open>
  What the build and the linker decide: the feature \<open>pmp\<close>, the kernel stacks, the flash image, and the
  addresses that belong to the kernel itself (its code, its statics, its stacks and the device registers).
\<close>

record platform =
  pmp_feature :: bool
  kernel_stacks :: usize
  flash_image :: "usize \<times> usize"
  kernel_data :: "usize \<Rightarrow> bool"

record switch_stats =
  ss_min :: u32
  ss_max :: u32
  ss_total :: u64
  ss_count :: u32

record kernel = task_table +
  ready_queue :: prio_queue
  current_task_idx :: u8
  ticks_since_switch :: u32
  switch_statistics :: switch_stats
  syscall_seen :: u32
  clint :: timer
  channels :: "message channel list"
  frames :: frame_store
  mem :: memory
  uart :: console
  pmp :: pmp_regs

definition NO_TASK :: u8 where "NO_TASK = 0xFF"
definition TIME_QUANTUM_TICKS :: u32 where "TIME_QUANTUM_TICKS = 5"
definition SWITCH_LATENCY_BUDGET :: u32 where "SWITCH_LATENCY_BUDGET = 1000"
definition TRAP_STUB_INSTRUCTIONS :: u32 where "TRAP_STUB_INSTRUCTIONS = 84"
definition SWITCH_STATS_WINDOW :: u32 where "SWITCH_STATS_WINDOW = 100"

section \<open>Model\<close>

definition switch_stats_new :: switch_stats where
  "switch_stats_new = \<lparr>ss_min = - 1, ss_max = 0, ss_total = 0, ss_count = 0\<rparr>"

definition switch_stats_record ::
  "platform \<Rightarrow> u32 \<Rightarrow> switch_stats \<Rightarrow> console \<Rightarrow> (switch_stats \<times> console) res" where
  "switch_stats_record pf instructions s out =
     (let s1 = s\<lparr>ss_min := (if instructions < ss_min s then instructions else ss_min s),
                 ss_max := (if instructions > ss_max s then instructions else ss_max s),
                 ss_total := ss_total s + ucast instructions,
                 ss_count := ss_count s + 1\<rparr>
      in if ss_count s1 \<ge> SWITCH_STATS_WINDOW then
           let avg = ucast (ss_total s1 div ucast (ss_count s1)) :: u32 in
           bind_res (uart_print_usize (ss_min s1) (uart_puts ''Switch latency: min='' out)) (\<lambda>o1.
           bind_res (uart_print_usize (ss_max s1) (uart_puts '' max='' o1)) (\<lambda>o2.
           bind_res (uart_print_usize avg (uart_puts '' avg='' o2)) (\<lambda>o3.
             let o4 = uart_puts '' instructions'' o3;
                 o5 = (if pmp_feature pf then uart_puts '' [pmp]'' o4 else o4);
                 o6 = (if ss_max s1 > SWITCH_LATENCY_BUDGET
                       then uart_puts '' [WARN: exceeded budget]'' o5 else o5)
             in Inr (switch_stats_new, uart_puts [CHR 0x0A] o6))))
         else Inr (s1, out))"

definition task_ptr :: "u8 \<Rightarrow> 'z task_table_scheme \<Rightarrow> task_descriptor option" where
  "task_ptr idx k = (if unat idx \<ge> MAX_TASKS then None else registry k ! unat idx)"

text \<open>A write through the pointer \<open>task_ptr\<close> returns; no effect where it is null.\<close>

definition upd_task ::
  "u8 \<Rightarrow> (task_descriptor \<Rightarrow> task_descriptor) \<Rightarrow> 'z task_table_scheme \<Rightarrow> 'z task_table_scheme" where
  "upd_task idx f k =
     (case task_ptr idx k of
        None \<Rightarrow> k
      | Some d \<Rightarrow> k\<lparr>registry := (registry k)[unat idx := Some (f d)]\<rparr>)"

definition write_precomputed_mip :: "u8 list \<Rightarrow> kernel \<Rightarrow> kernel" where
  "write_precomputed_mip mip_table k =
     fold (\<lambda>(i, mip) k. upd_task (of_nat i) (\<lambda>d. d\<lparr>td_max_inherited_priority := mip\<rparr>) k)
       (take (task_count k) (enumerate 0 mip_table)) k"

definition queue_insert :: "u8 \<Rightarrow> u8 \<Rightarrow> kernel \<Rightarrow> kernel res" where
  "queue_insert idx prio k =
     bind_res (pq_insert (ready_queue k) idx prio) (\<lambda>q. Inr (k\<lparr>ready_queue := q\<rparr>))"

definition mark_running :: "platform \<Rightarrow> u8 \<Rightarrow> kernel \<Rightarrow> kernel" where
  "mark_running pf idx k =
     (let k1 = k\<lparr>current_task_idx := idx, ticks_since_switch := 0\<rparr>;
          k2 = upd_task idx (\<lambda>d. d\<lparr>td_state := Running\<rparr>) k1
      in case task_ptr idx k2 of
           None \<Rightarrow> k2
         | Some d \<Rightarrow> k2\<lparr>pmp := activate_task_region (pmp_feature pf) d (pmp k2)\<rparr>)"

definition populate_slot :: "nat \<Rightarrow> kernel \<Rightarrow> kernel res" where
  "populate_slot i k =
     (case task_ptr (of_nat i) k of
        None \<Rightarrow> Inr k
      | Some t \<Rightarrow>
          if td_state t = Ready then queue_insert (of_nat i) (effective_priority t) k else Inr k)"

definition populate_ready_queue :: "platform \<Rightarrow> kernel \<Rightarrow> kernel res" where
  "populate_ready_queue pf k =
     bind_res (fold_res populate_slot [0..<task_count k] k) (\<lambda>k1.
     bind_res (pq_pop_max (ready_queue k1)) (\<lambda>(r, q).
       Inr (case r of
              Some idx \<Rightarrow> mark_running pf idx (k1\<lparr>ready_queue := q\<rparr>)
            | None \<Rightarrow> k1\<lparr>ready_queue := q\<rparr>)))"

definition scheduler_init :: "platform \<Rightarrow> u8 list \<Rightarrow> kernel \<Rightarrow> kernel res" where
  "scheduler_init pf mip_table k = populate_ready_queue pf (write_precomputed_mip mip_table k)"

definition prepare_slot :: "platform \<Rightarrow> usize \<Rightarrow> usize \<Rightarrow> nat \<Rightarrow> kernel \<Rightarrow> kernel res" where
  "prepare_slot pf exit_trap gp i k =
     (case task_ptr (of_nat i) k of
        None \<Rightarrow> Inr k
      | Some t \<Rightarrow>
          let mpp = (case td_mode t of User \<Rightarrow> MSTATUS_MPP_USER | Machine \<Rightarrow> MSTATUS_MPP_MACHINE) in
          bind_res (kernel_stack_top (kernel_stacks pf) i) (\<lambda>top.
            let (frame, fs) =
                  init_frame top (td_stack_base t + td_stack_size t) (td_entry t) exit_trap gp
                    (mpp OR MSTATUS_MPIE) (frames k)
            in Inr (upd_task (of_nat i) (\<lambda>d. d\<lparr>td_stack_ptr := frame\<rparr>) (k\<lparr>frames := fs\<rparr>))))"

definition prepare_frames :: "platform \<Rightarrow> usize \<Rightarrow> usize \<Rightarrow> kernel \<Rightarrow> kernel res" where
  "prepare_frames pf exit_trap gp k =
     fold_res (prepare_slot pf exit_trap gp) [0..<task_count k] k"

definition note_syscall_mode :: "bool \<Rightarrow> kernel \<Rightarrow> kernel res" where
  "note_syscall_mode from_user k =
     (let idx = current_task_idx k in
      if unat idx \<ge> 32 then Inr k
      else if mask_has (syscall_seen k) (unat idx) then Inr k
      else
        bind_res (uart_print_usize (ucast idx) (uart_puts ''[KERNEL] task '' (uart k))) (\<lambda>o1.
          Inr (k\<lparr>syscall_seen := syscall_seen k OR push_bit (unat idx) 1,
                 uart := uart_puts (if from_user then '' running in U-mode'' @ [CHR 0x0A]
                                    else '' running in M-mode'' @ [CHR 0x0A]) o1\<rparr>)))"

text \<open>The null pointer is address 0.\<close>

definition frame_of :: "u8 \<Rightarrow> kernel \<Rightarrow> usize" where
  "frame_of idx k = (case task_ptr idx k of None \<Rightarrow> 0 | Some t \<Rightarrow> td_stack_ptr t)"

definition first_frame :: "kernel \<Rightarrow> usize" where
  "first_frame k = frame_of (current_task_idx k) k"

definition save_current :: "usize \<Rightarrow> kernel \<Rightarrow> kernel" where
  "save_current frame k = upd_task (current_task_idx k) (\<lambda>d. d\<lparr>td_stack_ptr := frame\<rparr>) k"

definition dispatch_next :: "platform \<Rightarrow> kernel \<Rightarrow> (usize \<times> kernel) res" where
  "dispatch_next pf k =
     bind_res (pq_pop_max (ready_queue k)) (\<lambda>(next, q).
       (case next of
          Some idx \<Rightarrow> let k1 = mark_running pf idx (k\<lparr>ready_queue := q\<rparr>) in Inr (frame_of idx k1, k1)
        | None \<Rightarrow> Inl NoRunnableTask))"

definition requeue_current :: "kernel \<Rightarrow> kernel res" where
  "requeue_current k =
     (let idx = current_task_idx k in
      case task_ptr idx k of
        None \<Rightarrow> Inr k
      | Some t \<Rightarrow>
          queue_insert idx (effective_priority t) (upd_task idx (\<lambda>d. d\<lparr>td_state := Ready\<rparr>) k))"

definition tick_reached :: "u32 \<Rightarrow> u32 \<Rightarrow> bool" where
  "tick_reached now deadline \<longleftrightarrow> sint (now - deadline) \<ge> 0"

definition wake_slot :: "u32 \<Rightarrow> nat \<Rightarrow> kernel \<Rightarrow> kernel res" where
  "wake_slot now i k =
     (case task_ptr (of_nat i) k of
        None \<Rightarrow> Inr k
      | Some t \<Rightarrow>
          if td_state t = Blocked \<and> td_blocked_on t = Sleep \<and> tick_reached now (td_wake_at t)
          then queue_insert (of_nat i) (effective_priority t)
                 (upd_task (of_nat i) (\<lambda>d. d\<lparr>td_state := Ready, td_blocked_on := NotBlocked\<rparr>) k)
          else Inr k)"

definition wake_sleepers :: "u32 \<Rightarrow> kernel \<Rightarrow> kernel res" where
  "wake_sleepers now k = fold_res (wake_slot now) [0..<task_count k] k"

definition check_stack_canaries :: "kernel \<Rightarrow> unit res" where
  "check_stack_canaries k =
     fold_res (\<lambda>i _. case task_ptr (of_nat i) k of
         None \<Rightarrow> Inr ()
       | Some t \<Rightarrow> if canary_intact (td_stack_base t) (mem k) then Inr ()
                   else Inl (StackCanaryOverwritten i)) [0..<task_count k] ()"

definition should_preempt :: "u8 \<Rightarrow> u8 option \<Rightarrow> u32 \<Rightarrow> bool" where
  "should_preempt cur_eff next_eff since =
     (case next_eff of
        None \<Rightarrow> False
      | Some next \<Rightarrow> next > cur_eff \<or> since \<ge> TIME_QUANTUM_TICKS \<and> next \<ge> cur_eff)"

definition current_effective :: "kernel \<Rightarrow> u8" where
  "current_effective k =
     (case task_ptr (current_task_idx k) k of None \<Rightarrow> 0 | Some t \<Rightarrow> effective_priority t)"

definition sched_tick :: "platform \<Rightarrow> u32 \<Rightarrow> u32 \<Rightarrow> kernel \<Rightarrow> (u8 option \<times> kernel) res" where
  "sched_tick pf isr_entry instret k =
     (let k1 = k\<lparr>ticks_since_switch := ticks_since_switch k + 1\<rparr>;
          cur_idx = current_task_idx k1;
          cur_eff = current_effective k1
      in bind_res (if pq_is_empty (ready_queue k1) then Inr None
                   else bind_res (pq_peek_max_priority (ready_queue k1)) (\<lambda>p. Inr (Some p))) (\<lambda>next_eff.
         if \<not> should_preempt cur_eff next_eff (ticks_since_switch k1) then Inr (None, k1)
         else bind_res (requeue_current k1) (\<lambda>k2.
              bind_res (dispatch_next pf k2) (\<lambda>(_, k3).
                let next_idx = current_task_idx k3 in
                if next_idx = cur_idx then Inr (None, k3)
                else
                  let elapsed = instret - isr_entry + TRAP_STUB_INSTRUCTIONS in
                  bind_res (switch_stats_record pf elapsed (switch_statistics k3) (uart k3))
                    (\<lambda>(s, out). Inr (Some next_idx, k3\<lparr>switch_statistics := s, uart := out\<rparr>))))))"

text \<open>\<open>entry\<close> and \<open>exit\<close> are the two \<open>minstret\<close> samples, \<open>mtime\<close> the value \<open>timer_isr\<close> reads.\<close>

definition on_timer_interrupt ::
  "platform \<Rightarrow> u32 \<Rightarrow> u64 \<Rightarrow> u32 \<Rightarrow> usize \<Rightarrow> kernel \<Rightarrow> (usize \<times> kernel) res" where
  "on_timer_interrupt pf isr_entry mtime isr_exit frame k =
     (let (now, t) = timer_isr mtime (clint k);
          k1 = save_current frame (k\<lparr>clint := t\<rparr>)
      in bind_res (check_stack_canaries k1) (\<lambda>_.
         bind_res (wake_sleepers now k1) (\<lambda>k2.
         bind_res (sched_tick pf isr_entry isr_exit k2) (\<lambda>(r, k3).
           Inr (case r of Some _ \<Rightarrow> frame_of (current_task_idx k3) k3 | None \<Rightarrow> frame, k3)))))"

definition yield_current :: "platform \<Rightarrow> usize \<Rightarrow> kernel \<Rightarrow> (usize \<times> kernel) res" where
  "yield_current pf frame k =
     bind_res (requeue_current (save_current frame k)) (\<lambda>k1. dispatch_next pf k1)"

definition sleep_current :: "platform \<Rightarrow> usize \<Rightarrow> u32 \<Rightarrow> kernel \<Rightarrow> (usize \<times> kernel) res" where
  "sleep_current pf frame n k =
     (let k1 = save_current frame k in
      dispatch_next pf
        (upd_task (current_task_idx k1)
           (\<lambda>d. d\<lparr>td_state := Blocked, td_blocked_on := Sleep,
                  td_wake_at := ticks (clint k1) + max n 1\<rparr>) k1))"

definition block_current :: "platform \<Rightarrow> usize \<Rightarrow> block_reason \<Rightarrow> kernel \<Rightarrow> (usize \<times> kernel) res" where
  "block_current pf frame reason k =
     (let k1 = save_current frame k in
      dispatch_next pf
        (upd_task (current_task_idx k1) (\<lambda>d. d\<lparr>td_state := Blocked, td_blocked_on := reason\<rparr>) k1))"

fun wake_blocked_loop :: "block_reason \<Rightarrow> nat list \<Rightarrow> kernel \<Rightarrow> (u8 option \<times> kernel) res" where
  "wake_blocked_loop reason [] k = Inr (None, k)"
| "wake_blocked_loop reason (i # is) k =
     (case task_ptr (of_nat i) k of
        None \<Rightarrow> wake_blocked_loop reason is k
      | Some t \<Rightarrow>
          if td_state t = Blocked \<and> td_blocked_on t = reason then
            bind_res (queue_insert (of_nat i) (effective_priority t)
                (upd_task (of_nat i) (\<lambda>d. d\<lparr>td_state := Ready, td_blocked_on := NotBlocked\<rparr>) k))
              (\<lambda>k1. Inr (Some (of_nat i), k1))
          else wake_blocked_loop reason is k)"

definition wake_blocked_on :: "block_reason \<Rightarrow> kernel \<Rightarrow> (u8 option \<times> kernel) res" where
  "wake_blocked_on reason k = wake_blocked_loop reason [0..<task_count k] k"

definition preempt_if_outranked :: "platform \<Rightarrow> usize \<Rightarrow> kernel \<Rightarrow> (usize \<times> kernel) res" where
  "preempt_if_outranked pf frame k =
     (let cur_eff = current_effective k in
      bind_res (if pq_is_empty (ready_queue k) then Inr True
                else bind_res (pq_peek_max_priority (ready_queue k)) (\<lambda>p. Inr (p \<le> cur_eff))) (\<lambda>stay.
        if stay then Inr (frame, k)
        else bind_res (requeue_current (save_current frame k)) (\<lambda>k1. dispatch_next pf k1)))"

definition current_task :: "kernel \<Rightarrow> task_descriptor option" where
  "current_task k = task_ptr (current_task_idx k) k"

end
