(* ===== verification/Scheduler_Invariant.thy ===== *)
theory Scheduler_Invariant
  imports Scheduler
begin

text \<open>
  The invariant of the scheduler state and its preservation by every scheduler operation: the
  ready queue holds exactly the tasks in state \<open>Ready\<close> with their effective priorities, at most
  one task is \<open>Running\<close>, and after every entry point the running task has an effective priority
  at least as high as every ready task.
\<close>

section \<open>The bag of ready tasks\<close>

definition slot_bag :: "nat \<Rightarrow> task_descriptor option \<Rightarrow> (u8 \<times> u8) multiset" where
  "slot_bag i s =
     (case s of None \<Rightarrow> {#}
      | Some d \<Rightarrow> if td_state d = Ready then {#(of_nat i, effective_priority d)#} else {#})"

definition ready_bag :: "task_descriptor option list \<Rightarrow> (u8 \<times> u8) multiset" where
  "ready_bag reg = (\<Sum>i < MAX_TASKS. slot_bag i (reg ! i))"

lemma in_ready_bag:
  "(t, p) \<in># ready_bag reg \<longleftrightarrow>
   (\<exists>i < MAX_TASKS. \<exists>d. reg ! i = Some d \<and> td_state d = Ready \<and> t = of_nat i \<and> p = effective_priority d)"
  by (force simp: ready_bag_def set_mset_sum slot_bag_def split: option.splits if_splits)

lemma ready_bag_update:
  assumes "i < MAX_TASKS" and "length reg = MAX_TASKS"
  shows "ready_bag (reg[i := s]) + slot_bag i (reg ! i) = ready_bag reg + slot_bag i s"
proof -
  let ?S = "{..<MAX_TASKS} - {i}"
  have "(\<Sum>j \<in> ?S. slot_bag j (reg[i := s] ! j)) = (\<Sum>j \<in> ?S. slot_bag j (reg ! j))"
    by (intro sum.cong) (auto simp: nth_list_update)
  with assms show ?thesis
    by (simp add: ready_bag_def sum.remove [of _ i])
qed

lemma size_slot_bag: "size (slot_bag i s) \<le> 1"
  by (simp add: slot_bag_def split: option.splits)

lemma size_ready_bag:
  assumes "i < MAX_TASKS" and "slot_bag i (reg ! i) = {#}"
  shows "size (ready_bag reg) < MAX_TASKS"
proof -
  let ?S = "{..<MAX_TASKS} - {i}"
  have "ready_bag reg = (\<Sum>j \<in> ?S. slot_bag j (reg ! j))"
    using assms by (simp add: ready_bag_def sum.remove [of _ i])
  moreover have "size (sum f A) = (\<Sum>j \<in> A. size (f j))"
    for f :: "nat \<Rightarrow> (u8 \<times> u8) multiset" and A
    by (induction A rule: infinite_finite_induct) auto
  ultimately have "size (ready_bag reg) = (\<Sum>j \<in> ?S. size (slot_bag j (reg ! j)))" by simp
  also have "\<dots> \<le> (\<Sum>j \<in> ?S. 1)" by (intro sum_mono size_slot_bag)
  also have "\<dots> < MAX_TASKS" using assms(1) by simp
  finally show ?thesis .
qed

section \<open>The invariant\<close>

text \<open>What the scheduler never changes in a descriptor.\<close>

definition td_static :: "task_descriptor \<Rightarrow> task_descriptor" where
  "td_static d =
     d\<lparr>td_state := Ready, td_stack_ptr := 0, td_wake_at := 0, td_blocked_on := NotBlocked\<rparr>"

lemma td_static_sel:
  "td_id (td_static d) = td_id d"
  "td_priority (td_static d) = td_priority d"
  "td_stack_base (td_static d) = td_stack_base d"
  "td_stack_size (td_static d) = td_stack_size d"
  "td_memory_start (td_static d) = td_memory_start d"
  "td_memory_end (td_static d) = td_memory_end d"
  "td_exclusive_cap_mask (td_static d) = td_exclusive_cap_mask d"
  "td_shared_cap_mask (td_static d) = td_shared_cap_mask d"
  "td_required_cap_mask (td_static d) = td_required_cap_mask d"
  "td_max_inherited_priority (td_static d) = td_max_inherited_priority d"
  "td_entry (td_static d) = td_entry d"
  "td_mode (td_static d) = td_mode d"
  "td_sends_mask (td_static d) = td_sends_mask d"
  "td_receives_mask (td_static d) = td_receives_mask d"
  by (simp_all add: td_static_def)

lemma td_static_fields:
  assumes "td_static d' = td_static d"
  shows "td_id d' = td_id d"
    and "td_priority d' = td_priority d"
    and "td_stack_base d' = td_stack_base d"
    and "td_stack_size d' = td_stack_size d"
    and "td_memory_start d' = td_memory_start d"
    and "td_memory_end d' = td_memory_end d"
    and "td_exclusive_cap_mask d' = td_exclusive_cap_mask d"
    and "td_shared_cap_mask d' = td_shared_cap_mask d"
    and "td_required_cap_mask d' = td_required_cap_mask d"
    and "td_max_inherited_priority d' = td_max_inherited_priority d"
    and "td_entry d' = td_entry d"
    and "td_mode d' = td_mode d"
    and "td_sends_mask d' = td_sends_mask d"
    and "td_receives_mask d' = td_receives_mask d"
  by (metis assms td_static_sel)+

definition statics :: "'z task_table_scheme \<Rightarrow> task_descriptor option list" where
  "statics k = map (map_option td_static) (registry k)"

definition stack_ptrs :: "'z task_table_scheme \<Rightarrow> usize option list" where
  "stack_ptrs k = map (map_option td_stack_ptr) (registry k)"

text \<open>The parts of the state the scheduler leaves alone.\<close>

definition kept :: "kernel \<Rightarrow> kernel \<Rightarrow> bool" where
  "kept k k' \<longleftrightarrow>
     statics k' = statics k \<and> stack_ptrs k' = stack_ptrs k \<and> task_count k' = task_count k \<and>
     channels k' = channels k \<and> frames k' = frames k \<and> mem k' = mem k"

lemma kept_refl [simp]: "kept k k" by (simp add: kept_def)

lemma kept_trans: "kept k k1 \<Longrightarrow> kept k1 k2 \<Longrightarrow> kept k k2" by (simp add: kept_def)

text \<open>What each slot waits for.\<close>

definition wait_of :: "task_descriptor option \<Rightarrow> (block_reason \<times> u32) option" where
  "wait_of s =
     (case s of None \<Rightarrow> None
      | Some d \<Rightarrow> if td_state d = Blocked then Some (td_blocked_on d, td_wake_at d) else None)"

definition waits :: "'z task_table_scheme \<Rightarrow> (block_reason \<times> u32) option list" where
  "waits k = map wait_of (registry k)"

lemma waits_update:
  "registry k' = (registry k)[i := s] \<Longrightarrow> waits k' = (waits k)[i := wait_of s]"
  by (simp add: waits_def map_update)

lemma waits_unchanged:
  "registry k' = (registry k)[i := s] \<Longrightarrow> wait_of s = wait_of (registry k ! i) \<Longrightarrow> waits k' = waits k"
  by (metis waits_def list_update_id map_update)

text \<open>No kernel path suspends a task.\<close>

definition none_suspended :: "task_descriptor option list \<Rightarrow> bool" where
  "none_suspended reg \<longleftrightarrow> (\<forall>d. Some d \<in> set reg \<longrightarrow> td_state d \<noteq> Suspended)"

lemma none_suspended_update:
  "none_suspended reg \<Longrightarrow> td_state d \<noteq> Suspended \<Longrightarrow> none_suspended (reg[i := Some d])"
  using set_update_subset_insert [of reg i "Some d"] by (auto simp: none_suspended_def)

definition core_inv :: "kernel \<Rightarrow> bool" where
  "core_inv k \<longleftrightarrow>
     table_wf k \<and> pq_wf (ready_queue k) \<and> pq_capacity (ready_queue k) = MAX_TASKS \<and>
     pq_bag (ready_queue k) = ready_bag (registry k) \<and>
     (\<forall>i < MAX_TASKS. \<forall>d. registry k ! i = Some d \<longrightarrow> td_state d = Running \<longrightarrow>
        current_task_idx k = of_nat i) \<and>
     none_suspended (registry k)"

definition running :: "kernel \<Rightarrow> bool" where
  "running k \<longleftrightarrow> (\<exists>d. task_ptr (current_task_idx k) k = Some d \<and> td_state d = Running)"

definition running_best :: "kernel \<Rightarrow> bool" where
  "running_best k \<longleftrightarrow> (\<forall>(t, p) \<in># pq_bag (ready_queue k). p \<le> current_effective k)"

definition sched_inv :: "kernel \<Rightarrow> bool" where
  "sched_inv k \<longleftrightarrow> core_inv k \<and> running k \<and> running_best k"

lemma task_ptr_of_nat: "i < MAX_TASKS \<Longrightarrow> task_ptr (of_nat i) k = registry k ! i"
  by (simp add: task_ptr_def unat_of_nat)

lemma task_ptr_Some:
  "task_ptr idx k = Some d \<Longrightarrow> unat idx < MAX_TASKS \<and> registry k ! unat idx = Some d"
  by (simp add: task_ptr_def split: if_splits)

lemma upd_task_Some:
  "task_ptr idx k = Some d \<Longrightarrow> upd_task idx f k = k\<lparr>registry := (registry k)[unat idx := Some (f d)]\<rparr>"
  by (simp add: upd_task_def)


lemma table_wf_update:
  "table_wf k \<Longrightarrow> i < MAX_TASKS \<Longrightarrow> registry k ! i = Some d \<Longrightarrow>
   table_wf (k\<lparr>registry := (registry k)[i := Some d']\<rparr>)"
  by (auto simp: table_wf_def nth_list_update)

lemma statics_update:
  assumes "i < length (registry k)" and "registry k ! i = Some d" and "td_static d' = td_static d"
  shows "statics (k\<lparr>registry := (registry k)[i := Some d']\<rparr>) = statics k"
proof -
  have "map_option td_static (Some d') = map (map_option td_static) (registry k) ! i"
    using assms by simp
  then show ?thesis by (simp add: statics_def map_update list_update_same_conv assms(1))
qed

lemma stack_ptrs_update:
  assumes "i < length (registry k)" and "registry k ! i = Some d" and "td_stack_ptr d' = td_stack_ptr d"
  shows "stack_ptrs (k\<lparr>registry := (registry k)[i := Some d']\<rparr>) = stack_ptrs k"
proof -
  have "map_option td_stack_ptr (Some d') = map (map_option td_stack_ptr) (registry k) ! i"
    using assms by simp
  then show ?thesis by (simp add: stack_ptrs_def map_update list_update_same_conv assms(1))
qed

lemma effective_priority_static:
  assumes "td_static d' = td_static d" shows "effective_priority d' = effective_priority d"
  by (simp add: effective_priority_def td_static_fields [OF assms])

text \<open>Making a task ready: mark it and put it into the queue.\<close>

lemma make_ready:
  assumes inv: "core_inv k" and t: "task_ptr idx k = Some t" and nr: "td_state t \<noteq> Ready"
    and f: "td_state (f t) = Ready" "td_static (f t) = td_static t" "td_stack_ptr (f t) = td_stack_ptr t"
  shows "\<exists>k'. queue_insert idx (effective_priority t) (upd_task idx f k) = Inr k' \<and>
           core_inv k' \<and> kept k k' \<and> current_task_idx k' = current_task_idx k \<and>
           clint k' = clint k \<and> pmp k' = pmp k \<and>
           registry k' = (registry k)[unat idx := Some (f t)] \<and>
           pq_bag (ready_queue k') = add_mset (idx, effective_priority t) (pq_bag (ready_queue k))"
proof -
  let ?i = "unat idx" and ?k = "upd_task idx f k"
  have i: "?i < MAX_TASKS" "registry k ! ?i = Some t" using task_ptr_Some [OF t] by auto
  have wf: "table_wf k" "pq_wf (ready_queue k)" "pq_capacity (ready_queue k) = MAX_TASKS"
    "pq_bag (ready_queue k) = ready_bag (registry k)"
    using inv by (simp_all add: core_inv_def)
  have len: "length (registry k) = MAX_TASKS" using wf(1) by (simp add: table_wf_def)
  have upd: "?k = k\<lparr>registry := (registry k)[?i := Some (f t)]\<rparr>" by (rule upd_task_Some [OF t])
  have empty: "slot_bag ?i (registry k ! ?i) = {#}" using i nr by (simp add: slot_bag_def)
  have "size (pq_bag (ready_queue ?k)) < pq_capacity (ready_queue ?k)"
    using size_ready_bag [OF i(1) empty] wf by (simp add: upd)
  with ready_queue.put_room [of "ready_queue ?k" idx "effective_priority t"] wf(2)
  obtain q where q: "pq_insert (ready_queue k) idx (effective_priority t) = Inr q" "pq_wf q"
    "pq_bag q = add_mset (idx, effective_priority t) (pq_bag (ready_queue k))"
    "pq_capacity q = pq_capacity (ready_queue k)"
    by (auto simp: upd)
  let ?k' = "?k\<lparr>ready_queue := q\<rparr>"
  have "slot_bag ?i (Some (f t)) = {#(idx, effective_priority t)#}"
    using f(1) effective_priority_static [OF f(2)] by (simp add: slot_bag_def)
  then have bag: "ready_bag ((registry k)[?i := Some (f t)]) =
      add_mset (idx, effective_priority t) (ready_bag (registry k))"
    using ready_bag_update [OF i(1) len, of "Some (f t)"] empty by simp
  have "core_inv ?k'"
    using inv q wf bag table_wf_update [OF wf(1) i, of "f t"] f(1) i(1) len
    by (auto simp: core_inv_def upd nth_list_update table_wf_def none_suspended_update)
  moreover have "kept k ?k'"
    using statics_update [of ?i k t "f t"] stack_ptrs_update [of ?i k t "f t"] i f len
    by (simp add: kept_def upd statics_def stack_ptrs_def)
  ultimately show ?thesis
    using q by (simp add: queue_insert_def upd)
qed

text \<open>
  Dispatching: with no task running and some task ready, the head of the queue becomes the running
  task and no remaining ready task outranks it.
\<close>

definition switched :: "platform \<Rightarrow> kernel \<Rightarrow> kernel \<Rightarrow> bool" where
  "switched pf k k' \<longleftrightarrow>
     sched_inv k' \<and> kept k k' \<and> clint k' = clint k \<and>
     (\<exists>d. task_ptr (current_task_idx k') k' = Some d \<and>
          pmp k' = activate_task_region (pmp_feature pf) d (pmp k))"

lemma switched_from:
  "kept k k1 \<Longrightarrow> clint k1 = clint k \<Longrightarrow> pmp k1 = pmp k \<Longrightarrow> switched pf k1 k' \<Longrightarrow> switched pf k k'"
  using kept_trans by (auto simp: switched_def)

definition none_running :: "kernel \<Rightarrow> bool" where
  "none_running k \<longleftrightarrow> (\<forall>i < MAX_TASKS. \<forall>d. registry k ! i = Some d \<longrightarrow> td_state d \<noteq> Running)"

lemma dispatch_next_inv:
  assumes inv: "core_inv k" and none: "none_running k" and ne: "pq_bag (ready_queue k) \<noteq> {#}"
  shows "\<exists>k'. dispatch_next pf k = Inr (frame_of (current_task_idx k') k', k') \<and>
           switched pf k k' \<and> waits k' = waits k"
proof -
  have wf: "table_wf k" "pq_wf (ready_queue k)" "pq_capacity (ready_queue k) = MAX_TASKS"
    "pq_bag (ready_queue k) = ready_bag (registry k)"
    using inv by (simp_all add: core_inv_def)
  have len: "length (registry k) = MAX_TASKS" using wf(1) by (simp add: table_wf_def)
  obtain t p q where q: "pq_pop_max (ready_queue k) = Inr (Some t, q)" "pq_wf q"
    "pq_bag (ready_queue k) = add_mset (t, p) (pq_bag q)"
    "\<forall>(u, r) \<in># pq_bag (ready_queue k). r \<le> p" "pq_capacity q = MAX_TASKS"
    using ready_queue.pop_max [OF wf(2) ne] wf(3) by auto
  then have "(t, p) \<in># ready_bag (registry k)" using wf(4) by simp
  then obtain i d where i: "i < MAX_TASKS" "registry k ! i = Some d" "td_state d = Ready" "t = of_nat i"
    "p = effective_priority d" unfolding in_ready_bag by auto
  have ui: "unat t = i" using i(1,4) by (simp add: unat_of_nat)
  let ?d = "d\<lparr>td_state := Running\<rparr>"
  let ?reg = "(registry k)[i := Some ?d]"
  define k' where "k' = mark_running pf t (k\<lparr>ready_queue := q\<rparr>)"
  have tp: "task_ptr t (k\<lparr>ready_queue := q, current_task_idx := t, ticks_since_switch := 0\<rparr>) = Some d"
    using i ui by (simp add: task_ptr_def)
  have k': "registry k' = ?reg" "ready_queue k' = q" "current_task_idx k' = t" "clint k' = clint k"
    "channels k' = channels k" "frames k' = frames k" "mem k' = mem k" "task_count k' = task_count k"
    "pmp k' = activate_task_region (pmp_feature pf) ?d (pmp k)"
    using i(1,2) ui len
    by (simp_all add: k'_def mark_running_def upd_task_Some [OF tp] Let_def task_ptr_def)
  have "ready_bag ?reg + {#(t, p)#} = ready_bag (registry k)"
    using ready_bag_update [OF i(1) len, of "Some ?d"] i by (simp add: slot_bag_def)
  then have bag: "pq_bag q = ready_bag ?reg" using q(3) wf(4) by simp
  have "table_wf k'" using wf(1) i len k' by (auto simp: table_wf_def nth_list_update)
  then have core: "core_inv k'"
    using q bag none len i(1,4) inv
    by (auto simp: core_inv_def k' nth_list_update none_running_def none_suspended_update)
  have cur: "task_ptr (current_task_idx k') k' = Some ?d"
    using i ui len k' by (simp add: task_ptr_def)
  have "current_effective k' = p"
    using cur i(5) by (simp add: current_effective_def effective_priority_def)
  then have "sched_inv k'"
    using core cur q(3,4) by (auto simp: sched_inv_def running_def running_best_def k')
  moreover have "kept k k'"
    using statics_update [of i k d ?d] stack_ptrs_update [of i k d ?d] i len k'
    by (simp add: kept_def statics_def stack_ptrs_def td_static_def)
  ultimately have "switched pf k k'"
    using cur k' by (simp add: switched_def)
  moreover have "waits k' = waits k"
    using waits_unchanged [of k' k i "Some ?d"] k' i by (simp add: wait_of_def)
  ultimately show ?thesis
    using q(1) k' by (auto simp: dispatch_next_def k'_def [symmetric] Let_def)
qed

section \<open>Operations\<close>

text \<open>Saving the frame pointer a task already has changes nothing.\<close>

lemma save_current_same:
  assumes "frame = frame_of (current_task_idx k) k"
  shows "save_current frame k = k"
proof (cases "task_ptr (current_task_idx k) k")
  case (Some d)
  then have "registry k ! unat (current_task_idx k) = Some d" "td_stack_ptr d = frame"
    using assms task_ptr_Some by (auto simp: frame_of_def)
  then have "(registry k)[unat (current_task_idx k) := Some (d\<lparr>td_stack_ptr := frame\<rparr>)] = registry k"
    by (metis list_update_id task_descriptor.surjective task_descriptor.update_convs(4))
  with Some show ?thesis by (simp add: save_current_def upd_task_Some)
qed (simp add: save_current_def upd_task_def)

text \<open>The running task leaves the state \<open>Running\<close>; nothing else does.\<close>

lemma only_current_running:
  assumes "core_inv k" and "registry k' = (registry k)[unat (current_task_idx k) := Some d]"
    and "td_state d \<noteq> Running"
  shows "none_running k'"
proof -
  have "length (registry k) = MAX_TASKS"
    using assms(1) by (simp add: core_inv_def table_wf_def)
  moreover have "unat (current_task_idx k) = i"
    if "i < MAX_TASKS" "registry k ! i = Some e" "td_state e = Running" for i e
    using assms(1) that by (auto simp: core_inv_def unat_of_nat)
  ultimately have "td_state e \<noteq> Running" if "i < MAX_TASKS" "registry k' ! i = Some e" for i e
    using that assms(2,3) by (cases "unat (current_task_idx k) = i") auto
  then show ?thesis by (simp add: none_running_def)
qed

lemma requeue_current_inv:
  assumes inv: "core_inv k" and run: "running k"
  shows "\<exists>k'. requeue_current k = Inr k' \<and> core_inv k' \<and> none_running k' \<and> kept k k' \<and>
           clint k' = clint k \<and> pmp k' = pmp k \<and> waits k' = waits k \<and> pq_bag (ready_queue k') \<noteq> {#}"
proof -
  obtain d where d: "task_ptr (current_task_idx k) k = Some d" "td_state d = Running"
    using run by (auto simp: running_def)
  let ?f = "\<lambda>d. d\<lparr>td_state := Ready\<rparr>"
  from make_ready [OF inv d(1), of ?f] d(2) obtain k' where
    k': "queue_insert (current_task_idx k) (effective_priority d)
           (upd_task (current_task_idx k) ?f k) = Inr k'"
      "core_inv k'" "kept k k'" "clint k' = clint k" "pmp k' = pmp k"
      "registry k' = (registry k)[unat (current_task_idx k) := Some (?f d)]"
      "pq_bag (ready_queue k') = add_mset (current_task_idx k, effective_priority d) (pq_bag (ready_queue k))"
    by (auto simp: td_static_def)
  have "waits k' = waits k"
    using waits_unchanged [OF k'(6)] task_ptr_Some [OF d(1)] d(2) by (simp add: wait_of_def)
  with k' only_current_running [OF inv k'(6)] d(1) show ?thesis
    by (simp add: requeue_current_def Let_def)
qed

lemma requeue_dispatch_inv:
  assumes "core_inv k" and "running k"
  shows "\<exists>k'. bind_res (requeue_current k) (\<lambda>k1. dispatch_next pf k1) =
                Inr (frame_of (current_task_idx k') k', k') \<and> switched pf k k' \<and> waits k' = waits k"
proof -
  obtain k1 where k1: "requeue_current k = Inr k1" "core_inv k1" "none_running k1" "kept k k1"
    "clint k1 = clint k" "pmp k1 = pmp k" "waits k1 = waits k" "pq_bag (ready_queue k1) \<noteq> {#}"
    using requeue_current_inv [OF assms] by blast
  with dispatch_next_inv [OF k1(2,3,8), of pf] switched_from [OF k1(4-6)] show ?thesis by auto
qed

lemma yield_current_inv:
  assumes "sched_inv k" and "frame = frame_of (current_task_idx k) k"
  shows "\<exists>k'. yield_current pf frame k = Inr (frame_of (current_task_idx k') k', k') \<and>
           switched pf k k' \<and> waits k' = waits k"
  using requeue_dispatch_inv [of k pf] assms
  by (simp add: yield_current_def save_current_same sched_inv_def)

lemma block_inv:
  assumes inv: "core_inv k" and run: "running k" and ne: "pq_bag (ready_queue k) \<noteq> {#}"
    and f: "\<And>d. td_state (f d) = Blocked" "\<And>d. td_static (f d) = td_static d"
      "\<And>d. td_stack_ptr (f d) = td_stack_ptr d"
    and w: "\<And>d. wait_of (Some (f d)) = Some (w d)"
  shows "\<exists>k' d. task_ptr (current_task_idx k) k = Some d \<and>
           dispatch_next pf (upd_task (current_task_idx k) f k) =
                Inr (frame_of (current_task_idx k') k', k') \<and> switched pf k k' \<and>
           waits k' = (waits k)[unat (current_task_idx k) := Some (w d)]"
proof -
  obtain d where d: "task_ptr (current_task_idx k) k = Some d" "td_state d = Running"
    using run by (auto simp: running_def)
  let ?i = "unat (current_task_idx k)" and ?k = "upd_task (current_task_idx k) f k"
  have i: "?i < MAX_TASKS" "registry k ! ?i = Some d" using task_ptr_Some [OF d(1)] by auto
  have len: "length (registry k) = MAX_TASKS" using inv by (simp add: core_inv_def table_wf_def)
  have upd: "?k = k\<lparr>registry := (registry k)[?i := Some (f d)]\<rparr>" by (rule upd_task_Some [OF d(1)])
  have none: "none_running ?k"
    using only_current_running [OF inv, of ?k "f d"] f(1) by (simp add: upd)
  have "ready_bag ((registry k)[?i := Some (f d)]) = ready_bag (registry k)"
    using ready_bag_update [OF i(1) len, of "Some (f d)"] i d(2) f(1) by (simp add: slot_bag_def)
  moreover have "table_wf ?k"
    using table_wf_update [OF _ i] inv by (simp add: upd core_inv_def)
  ultimately have core: "core_inv ?k"
    using inv none f(1) by (auto simp: core_inv_def upd none_running_def none_suspended_update)
  have "kept k ?k"
    using statics_update [of ?i k d "f d"] stack_ptrs_update [of ?i k d "f d"] i f len
    by (simp add: kept_def upd statics_def stack_ptrs_def)
  moreover have "waits ?k = (waits k)[?i := Some (w d)]"
    using waits_update [of ?k k ?i "Some (f d)"] w by (simp add: upd)
  ultimately show ?thesis
    using dispatch_next_inv [OF core none, of pf] ne switched_from [of k ?k] d(1)
    by (auto simp: upd)
qed

lemma sleep_current_inv:
  assumes "sched_inv k" and "frame = frame_of (current_task_idx k) k"
    and "pq_bag (ready_queue k) \<noteq> {#}"
  shows "\<exists>k'. sleep_current pf frame n k = Inr (frame_of (current_task_idx k') k', k') \<and>
           switched pf k k' \<and>
           waits k' = (waits k)[unat (current_task_idx k) := Some (Sleep, ticks (clint k) + max n 1)]"
  using block_inv [OF _ _ assms(3), of
      "\<lambda>d. d\<lparr>td_state := Blocked, td_blocked_on := Sleep, td_wake_at := ticks (clint k) + max n 1\<rparr>"
      "\<lambda>_. (Sleep, ticks (clint k) + max n 1)" pf]
    assms
  by (simp add: sleep_current_def save_current_same sched_inv_def td_static_def wait_of_def Let_def)

lemma block_current_inv:
  assumes "sched_inv k" and "frame = frame_of (current_task_idx k) k"
    and "pq_bag (ready_queue k) \<noteq> {#}"
  shows "\<exists>k' w. block_current pf frame reason k = Inr (frame_of (current_task_idx k') k', k') \<and>
           switched pf k k' \<and> waits k' = (waits k)[unat (current_task_idx k) := Some (reason, w)]"
  using block_inv [OF _ _ assms(3), of "\<lambda>d. d\<lparr>td_state := Blocked, td_blocked_on := reason\<rparr>"
      "\<lambda>d. (reason, td_wake_at d)" pf] assms
  by (simp add: block_current_def save_current_same sched_inv_def td_static_def wait_of_def Let_def) blast

section \<open>Wake-ups\<close>

text \<open>Only blocked tasks become ready; the running task and the clock stay.\<close>

definition woken :: "kernel \<Rightarrow> kernel \<Rightarrow> bool" where
  "woken k k' \<longleftrightarrow>
     core_inv k' \<and> kept k k' \<and> current_task_idx k' = current_task_idx k \<and> clint k' = clint k \<and>
     pmp k' = pmp k \<and> (running k \<longrightarrow> running k')"

lemma woken_refl: "core_inv k \<Longrightarrow> woken k k" by (simp add: woken_def)

lemma woken_trans: "woken k k1 \<Longrightarrow> woken k1 k2 \<Longrightarrow> woken k k2"
  using kept_trans by (auto simp: woken_def)

lemma wake_task:
  assumes inv: "core_inv k" and t: "task_ptr idx k = Some t" "td_state t = Blocked"
  shows "\<exists>k'. queue_insert idx (effective_priority t)
                (upd_task idx (\<lambda>d. d\<lparr>td_state := Ready, td_blocked_on := NotBlocked\<rparr>) k) = Inr k' \<and>
              woken k k' \<and> waits k' = (waits k)[unat idx := None]"
proof -
  let ?f = "\<lambda>d. d\<lparr>td_state := Ready, td_blocked_on := NotBlocked\<rparr>"
  from make_ready [OF inv t(1), of ?f] t(2) obtain k' where
    k': "queue_insert idx (effective_priority t) (upd_task idx ?f k) = Inr k'" "core_inv k'"
      "kept k k'" "current_task_idx k' = current_task_idx k" "clint k' = clint k" "pmp k' = pmp k"
      "registry k' = (registry k)[unat idx := Some (?f t)]"
    by (auto simp: td_static_def)
  have "running k'" if run: "running k"
  proof -
    obtain d where d: "task_ptr (current_task_idx k) k = Some d" "td_state d = Running"
      using run by (auto simp: running_def)
    then have "unat idx \<noteq> unat (current_task_idx k)" using t task_ptr_Some [OF d(1)] task_ptr_Some [OF t(1)] by auto
    with d show ?thesis by (simp add: running_def task_ptr_def k' split: if_splits)
  qed
  with k' have "woken k k'" by (simp add: woken_def)
  moreover have "waits k' = (waits k)[unat idx := None]"
    using waits_update [OF k'(7)] by (simp add: wait_of_def)
  ultimately show ?thesis using k'(1) by blast
qed

definition expired :: "u32 \<Rightarrow> (block_reason \<times> u32) option \<Rightarrow> bool" where
  "expired now w \<longleftrightarrow> (\<exists>deadline. w = Some (Sleep, deadline) \<and> tick_reached now deadline)"

lemma waits_nth:
  "core_inv k \<Longrightarrow> i < MAX_TASKS \<Longrightarrow> waits k ! i = wait_of (registry k ! i)"
  by (simp add: waits_def core_inv_def table_wf_def)

lemma length_waits: "core_inv k \<Longrightarrow> length (waits k) = MAX_TASKS"
  by (simp add: waits_def core_inv_def table_wf_def)

lemma wake_slot_inv:
  assumes inv: "core_inv k" and i: "i < MAX_TASKS"
  shows "\<exists>k'. wake_slot now i k = Inr k' \<and> woken k k' \<and>
           waits k' = (waits k)[i := if expired now (waits k ! i) then None else waits k ! i]"
proof (cases "expired now (waits k ! i)")
  case True
  then obtain t where t: "task_ptr (of_nat i) k = Some t" "td_state t = Blocked" "td_blocked_on t = Sleep"
    "tick_reached now (td_wake_at t)"
    using waits_nth [OF inv i]
    by (auto simp: expired_def wait_of_def task_ptr_of_nat [OF i] split: option.splits if_splits)
  have "unat (of_nat i :: u8) = i" using i by (simp add: unat_of_nat)
  with True wake_task [OF inv t(1,2)] t show ?thesis by (simp add: wake_slot_def)
next
  case False
  then have "wake_slot now i k = Inr k"
    using waits_nth [OF inv i]
    by (auto simp: wake_slot_def expired_def wait_of_def task_ptr_of_nat [OF i] split: option.splits)
  with False woken_refl [OF inv] show ?thesis by simp
qed

lemma wake_slots_inv:
  assumes "core_inv k" and "\<forall>i \<in> set is. i < MAX_TASKS"
  shows "\<exists>k'. fold_res (wake_slot now) is k = Inr k' \<and> woken k k' \<and>
           (\<forall>j. waits k' ! j =
              (if j \<in> set is \<and> j < MAX_TASKS \<and> expired now (waits k ! j) then None else waits k ! j))"
  using assms
proof (induction "is" arbitrary: k)
  case Nil
  then show ?case by (simp add: woken_refl)
next
  case (Cons i "is")
  obtain k1 where k1: "wake_slot now i k = Inr k1" "woken k k1"
    "waits k1 = (waits k)[i := if expired now (waits k ! i) then None else waits k ! i]"
    using wake_slot_inv [of k i now] Cons.prems by auto
  from Cons.IH [of k1] k1(2) Cons.prems obtain k2 where
    k2: "fold_res (wake_slot now) is k1 = Inr k2" "woken k1 k2"
      "\<forall>j. waits k2 ! j =
         (if j \<in> set is \<and> j < MAX_TASKS \<and> expired now (waits k1 ! j) then None else waits k1 ! j)"
    by (auto simp: woken_def)
  have "waits k1 ! j = (if j = i \<and> expired now (waits k ! i) then None else waits k ! j)" for j
    using k1(3) length_waits [of k] Cons.prems by (auto simp: nth_list_update)
  with k2 k1 woken_trans [OF k1(2) k2(2)] Cons.prems(2) show ?case
    by (auto simp: expired_def)
qed

lemma wake_sleepers_inv:
  assumes inv: "core_inv k"
  shows "\<exists>k'. wake_sleepers now k = Inr k' \<and> woken k k' \<and>
           waits k' = map (\<lambda>w. if expired now w then None else w) (waits k)"
proof -
  have n: "task_count k \<le> MAX_TASKS" and wf: "table_wf k"
    using inv by (auto simp: core_inv_def table_wf_def)
  from wake_slots_inv [OF inv, of "[0..<task_count k]" now] n obtain k' where
    k': "wake_sleepers now k = Inr k'" "woken k k'"
      "\<forall>j. waits k' ! j = (if j \<in> set [0..<task_count k] \<and> j < MAX_TASKS \<and> expired now (waits k ! j)
           then None else waits k ! j)"
    by (auto simp: wake_sleepers_def)
  have "waits k ! j = None" if "j < MAX_TASKS" "\<not> j < task_count k" for j
    using that wf waits_nth [OF inv that(1)] by (auto simp: table_wf_def wait_of_def)
  then have "waits k' = map (\<lambda>w. if expired now w then None else w) (waits k)"
    using k' length_waits [OF inv] length_waits [of k']
    by (intro nth_equalityI) (auto simp: woken_def expired_def)
  with k' show ?thesis by blast
qed

end
