(* ===== verification/Scheduler_Entry.thy ===== *)
theory Scheduler_Entry
  imports Scheduler_Invariant
begin

text \<open>
  The entry points of the scheduler as the trap path calls them: the timer interrupt, the
  wake-up of a channel's peer and the immediate preemption that follows it, and the boot sequence
  that establishes the invariant.
\<close>

section \<open>The protection registers follow the running task\<close>

definition pmp_tracks :: "platform \<Rightarrow> kernel \<Rightarrow> bool" where
  "pmp_tracks pf k \<longleftrightarrow>
     (pmp_feature pf \<longrightarrow> (\<exists>d. task_ptr (current_task_idx k) k = Some d \<and> pmp_holds d (pmp k)))"

text \<open>What every entry point guarantees of the state it returns to a task.\<close>

definition resumed :: "platform \<Rightarrow> kernel \<Rightarrow> kernel \<Rightarrow> bool" where
  "resumed pf k k' \<longleftrightarrow> sched_inv k' \<and> kept k k' \<and> (pmp_tracks pf k \<longrightarrow> pmp_tracks pf k')"

lemma task_entries_static:
  assumes "td_static d' = td_static d" shows "task_entries d' = task_entries d"
  by (cases "td_mode d") (simp_all add: task_entries_def td_static_fields [OF assms])

lemma kept_slot:
  assumes "kept k k'" and "i < length (registry k)"
  shows "map_option td_static (registry k' ! i) = map_option td_static (registry k ! i)"
    and "map_option td_stack_ptr (registry k' ! i) = map_option td_stack_ptr (registry k ! i)"
proof -
  have s: "map (map_option td_static) (registry k') = map (map_option td_static) (registry k)"
    and p: "map (map_option td_stack_ptr) (registry k') = map (map_option td_stack_ptr) (registry k)"
    using assms(1) by (simp_all add: kept_def statics_def stack_ptrs_def)
  from s have "length (registry k') = length (registry k)" by (metis length_map)
  with s p assms(2) show "map_option td_static (registry k' ! i) = map_option td_static (registry k ! i)"
    and "map_option td_stack_ptr (registry k' ! i) = map_option td_stack_ptr (registry k ! i)"
    by (metis nth_map)+
qed

lemma kept_task_ptr:
  assumes "kept k k'" and "table_wf k" and "task_ptr idx k = Some d"
  shows "\<exists>d'. task_ptr idx k' = Some d' \<and> td_static d' = td_static d \<and> td_stack_ptr d' = td_stack_ptr d"
  using kept_slot [OF assms(1), of "unat idx"] task_ptr_Some [OF assms(3)] assms(2)
  by (auto simp: task_ptr_def table_wf_def)

lemma kept_frame_of:
  assumes "kept k k'" and "table_wf k"
  shows "frame_of idx k' = frame_of idx k"
  using kept_slot [OF assms(1), of "unat idx"] assms(2)
  by (auto simp: frame_of_def task_ptr_def table_wf_def split: option.splits)

lemma kept_effective:
  assumes "kept k k'" and "table_wf k" and "current_task_idx k' = current_task_idx k"
  shows "current_effective k' = current_effective k"
proof (cases "task_ptr (current_task_idx k) k")
  case None
  then have "task_ptr (current_task_idx k) k' = None"
    using kept_slot(1) [OF assms(1), of "unat (current_task_idx k)"] assms(2)
    by (auto simp: task_ptr_def table_wf_def split: if_splits)
  with None assms(3) show ?thesis by (simp add: current_effective_def)
next
  case (Some d)
  from kept_task_ptr [OF assms(1,2) Some] obtain d' where
    "task_ptr (current_task_idx k) k' = Some d'" "td_static d' = td_static d" by blast
  with Some assms(3) effective_priority_static [of d' d] show ?thesis
    by (simp add: current_effective_def)
qed

lemma sched_inv_wf: "sched_inv k \<Longrightarrow> table_wf k" "core_inv k \<Longrightarrow> table_wf k"
  by (simp_all add: sched_inv_def core_inv_def)

lemma switched_resumed:
  assumes "switched pf k k'" shows "resumed pf k k'"
  using assms activate_holds
  by (auto simp: switched_def resumed_def pmp_tracks_def pmp_holds_def)

lemma stayed_tracks:
  assumes "kept k k'" and "table_wf k" and "current_task_idx k' = current_task_idx k" and "pmp k' = pmp k"
    and "pmp_tracks pf k"
  shows "pmp_tracks pf k'"
proof -
  have "\<exists>d'. task_ptr (current_task_idx k) k' = Some d' \<and> pmp_holds d' (pmp k)"
    if d: "task_ptr (current_task_idx k) k = Some d" "pmp_holds d (pmp k)" for d
  proof -
    from kept_task_ptr [OF assms(1,2) d(1)] obtain d' where
      d': "task_ptr (current_task_idx k) k' = Some d'" "td_static d' = td_static d" by blast
    then have "pmp_holds d' (pmp k)"
      using d(2) by (simp add: pmp_holds_def task_entries_static [OF d'(2)])
    with d' show ?thesis by blast
  qed
  with assms(3-5) show ?thesis by (auto simp: pmp_tracks_def)
qed

lemma stayed_resumed:
  assumes "sched_inv k'" and "kept k k'" and "table_wf k" and "current_task_idx k' = current_task_idx k"
    and "pmp k' = pmp k"
  shows "resumed pf k k'"
  using stayed_tracks [OF assms(2-5)] assms(1,2) by (simp add: resumed_def)

lemma woken_resumed:
  assumes "woken k k1" and "table_wf k" and "resumed pf k1 k2"
  shows "resumed pf k k2"
  using assms stayed_tracks [of k k1 pf] kept_trans by (auto simp: resumed_def woken_def)

section \<open>The timer interrupt\<close>

lemma switch_stats_record_total: "\<exists>s' out'. switch_stats_record pf n s out = Inr (s', out')"
  by (simp add: switch_stats_record_def Let_def uart_print_usize_eq)

lemma ready_queue_head:
  assumes "core_inv k"
  shows "\<exists>h. (if pq_is_empty (ready_queue k) then Inr None
              else bind_res (pq_peek_max_priority (ready_queue k)) (\<lambda>p. Inr (Some p))) = Inr h \<and>
             (case h of None \<Rightarrow> pq_bag (ready_queue k) = {#}
              | Some p \<Rightarrow> p \<in># image_mset snd (pq_bag (ready_queue k)) \<and>
                          (\<forall>(t, r) \<in># pq_bag (ready_queue k). r \<le> p))"
proof -
  have wf: "pq_wf (ready_queue k)" using assms by (simp add: core_inv_def)
  have "pq_is_empty (ready_queue k) \<longleftrightarrow> pq_bag (ready_queue k) = {#}"
    using wf by (auto simp: pq_is_empty_def elim!: pq_wf_obtain)
  with ready_queue.peek_max [OF wf] show ?thesis by force
qed

text \<open>Statistics, the console, the clock and the quantum counter play no part in the invariant.\<close>

definition sched_same :: "kernel \<Rightarrow> kernel \<Rightarrow> bool" where
  "sched_same k k' \<longleftrightarrow>
     registry k' = registry k \<and> task_count k' = task_count k \<and> ready_queue k' = ready_queue k \<and>
     current_task_idx k' = current_task_idx k \<and> pmp k' = pmp k"

definition same_view :: "kernel \<Rightarrow> kernel \<Rightarrow> bool" where
  "same_view k k' \<longleftrightarrow>
     sched_same k k' \<and> channels k' = channels k \<and> frames k' = frames k \<and> mem k' = mem k"

lemma sched_same_table:
  assumes "sched_same k k'"
  shows "table_wf k' \<longleftrightarrow> table_wf k" "task_ptr idx k' = task_ptr idx k" "frame_of idx k' = frame_of idx k"
    "current_effective k' = current_effective k" "waits k' = waits k" "statics k' = statics k"
    "stack_ptrs k' = stack_ptrs k"
  using assms by (simp_all add: sched_same_def table_wf_def task_ptr_def frame_of_def
      current_effective_def waits_def statics_def stack_ptrs_def)

lemma sched_same_inv:
  assumes "sched_same k k'"
  shows "core_inv k' \<longleftrightarrow> core_inv k" "running k' \<longleftrightarrow> running k" "sched_inv k' \<longleftrightarrow> sched_inv k"
    "pmp_tracks pf k' \<longleftrightarrow> pmp_tracks pf k"
proof -
  note st = sched_same_table [OF assms]
  have v: "registry k' = registry k" "task_count k' = task_count k" "ready_queue k' = ready_queue k"
    "current_task_idx k' = current_task_idx k" "pmp k' = pmp k"
    using assms by (simp_all add: sched_same_def)
  show c: "core_inv k' \<longleftrightarrow> core_inv k" and r: "running k' \<longleftrightarrow> running k"
    by (simp_all add: core_inv_def running_def v st)
  show "sched_inv k' \<longleftrightarrow> sched_inv k"
    by (simp add: sched_inv_def running_best_def c r v st)
  show "pmp_tracks pf k' \<longleftrightarrow> pmp_tracks pf k" by (simp add: pmp_tracks_def v st)
qed

lemma same_view_sched: "same_view k k' \<Longrightarrow> sched_same k k'" by (simp add: same_view_def)

lemmas same_view_table = sched_same_table [OF same_view_sched]

lemma same_view_kept:
  assumes "same_view k k'"
  shows "kept k' k2 \<longleftrightarrow> kept k k2" "kept k0 k' \<longleftrightarrow> kept k0 k"
  using assms same_view_table [OF assms] by (auto simp: same_view_def sched_same_def kept_def)

lemmas same_view_inv = sched_same_inv [OF same_view_sched] same_view_kept

lemma same_view_resumed:
  "same_view k k1 \<Longrightarrow> resumed pf k1 k2 \<longleftrightarrow> resumed pf k k2"
  "same_view k2 k3 \<Longrightarrow> resumed pf k k3 \<longleftrightarrow> resumed pf k k2"
  by (simp_all add: resumed_def same_view_inv)

lemma same_view_updates [simp]:
  "same_view k (k\<lparr>ticks_since_switch := n\<rparr>)" "same_view k (k\<lparr>clint := t\<rparr>)" "same_view k (k\<lparr>uart := out\<rparr>)"
  "same_view k (k\<lparr>switch_statistics := s, uart := out\<rparr>)" "same_view k (k\<lparr>syscall_seen := m, uart := out\<rparr>)"
  by (simp_all add: same_view_def sched_same_def)

lemma sched_tick_inv:
  assumes inv: "core_inv k" and run: "running k"
  shows "\<exists>r k'. sched_tick pf isr_entry instret k = Inr (r, k') \<and> resumed pf k k' \<and>
           clint k' = clint k \<and> waits k' = waits k \<and>
           (r = None \<longrightarrow> current_task_idx k' = current_task_idx k)"
proof -
  let ?k1 = "k\<lparr>ticks_since_switch := ticks_since_switch k + 1\<rparr>"
  have v: "same_view k ?k1" by simp
  have inv1: "core_inv ?k1" "running ?k1" using inv run by (simp_all add: same_view_inv [OF v])
  from ready_queue_head [OF inv] obtain h where
    h: "(if pq_is_empty (ready_queue k) then Inr None
         else bind_res (pq_peek_max_priority (ready_queue k)) (\<lambda>p. Inr (Some p))) = Inr h"
      "case h of None \<Rightarrow> pq_bag (ready_queue k) = {#}
       | Some p \<Rightarrow> p \<in># image_mset snd (pq_bag (ready_queue k)) \<and>
                   (\<forall>(t, r) \<in># pq_bag (ready_queue k). r \<le> p)"
    by blast
  show ?thesis
  proof (cases "should_preempt (current_effective ?k1) h (ticks_since_switch ?k1)")
    case False
    then have "running_best k"
      using h(2) by (auto simp: running_best_def should_preempt_def same_view_table [OF v] split: option.splits)
    with inv run have "sched_inv ?k1" unfolding same_view_inv(3) [OF v] by (simp add: sched_inv_def)
    then have "resumed pf k ?k1"
      using sched_inv_wf(2) [OF inv] by (intro stayed_resumed) (auto simp: same_view_inv [OF v])
    with False h(1) show ?thesis
      by (simp add: sched_tick_def Let_def same_view_table [OF v] cong: if_cong)
  next
    case True
    from requeue_dispatch_inv [OF inv1, of pf] obtain k1' k3 where
      d: "requeue_current ?k1 = Inr k1'" "dispatch_next pf k1' = Inr (frame_of (current_task_idx k3) k3, k3)"
        "switched pf ?k1 k3" "waits k3 = waits ?k1"
      by (auto simp: bind_res_eq_Inr_iff)
    have k3: "resumed pf k k3" "clint k3 = clint k" "waits k3 = waits k"
      using switched_resumed [OF d(3)] d(3,4) same_view_resumed(1) [OF v] same_view_table [OF v]
      by (simp_all add: switched_def)
    obtain s out where so: "switch_stats_record pf (instret - isr_entry + TRAP_STUB_INSTRUCTIONS)
        (switch_statistics k3) (uart k3) = Inr (s, out)"
      using switch_stats_record_total by blast
    show ?thesis
      using True h(1) d(1,2) so k3
      by (auto simp: sched_tick_def Let_def same_view_resumed(2) [of k3] same_view_table [of k3]
          cong: if_cong)
  qed
qed

text \<open>The canary sweep either passes or stops at the first overwritten stack.\<close>

definition stack_overflow :: "kernel \<Rightarrow> nat \<Rightarrow> bool" where
  "stack_overflow k i \<longleftrightarrow>
     (case task_ptr (of_nat i) k of None \<Rightarrow> False | Some t \<Rightarrow> \<not> canary_intact (td_stack_base t) (mem k))"

lemma check_stack_canaries_cases:
  "check_stack_canaries k =
     (case filter (stack_overflow k) [0..<task_count k] of [] \<Rightarrow> Inr () | i # _ \<Rightarrow> Inl (StackCanaryOverwritten i))"
proof -
  have "fold_res (\<lambda>i _. case task_ptr (of_nat i) k of
         None \<Rightarrow> Inr ()
       | Some t \<Rightarrow> if canary_intact (td_stack_base t) (mem k) then Inr ()
                   else Inl (StackCanaryOverwritten i)) is () =
     (case filter (stack_overflow k) is of [] \<Rightarrow> Inr () | i # _ \<Rightarrow> Inl (StackCanaryOverwritten i))"
    for "is"
    by (induction "is") (auto simp: stack_overflow_def split: option.splits)
  then show ?thesis by (simp add: check_stack_canaries_def)
qed

lemma on_timer_interrupt_inv:
  assumes inv: "sched_inv k" and frame: "frame = frame_of (current_task_idx k) k"
    and ok: "\<forall>i < task_count k. \<not> stack_overflow k i"
  shows "\<exists>k'. on_timer_interrupt pf isr_entry mtime isr_exit frame k =
                Inr (frame_of (current_task_idx k') k', k') \<and>
           resumed pf k k' \<and> clint k' = snd (timer_isr mtime (clint k)) \<and>
           waits k' = map (\<lambda>w. if expired (tick_count (clint k')) w then None else w) (waits k)"
proof -
  obtain now t where t: "timer_isr mtime (clint k) = (now, t)" by fastforce
  then have now: "now = tick_count t" by (auto simp: timer_isr_def Let_def)
  let ?k1 = "k\<lparr>clint := t\<rparr>"
  have v: "same_view k ?k1" by simp
  have save: "save_current frame ?k1 = ?k1"
    using frame by (intro save_current_same) (simp add: same_view_table [OF v])
  have inv1: "core_inv ?k1" "running ?k1"
    using inv by (simp_all add: same_view_inv [OF v] sched_inv_def)
  have ov: "stack_overflow ?k1 i \<longleftrightarrow> stack_overflow k i" for i
    by (simp add: stack_overflow_def same_view_table [OF v] cong: option.case_cong)
  have "filter (stack_overflow ?k1) [0..<task_count ?k1] = []"
    using ok by (auto simp: ov filter_empty_conv)
  then have canary: "check_stack_canaries ?k1 = Inr ()"
    by (simp only: check_stack_canaries_cases) simp
  obtain k2 where k2: "wake_sleepers now ?k1 = Inr k2" "woken ?k1 k2"
    "waits k2 = map (\<lambda>w. if expired now w then None else w) (waits k)"
    using wake_sleepers_inv [OF inv1(1), of now] by (auto simp: same_view_table [OF v])
  have run2: "core_inv k2" "running k2" "kept k k2" "current_task_idx k2 = current_task_idx k"
    "clint k2 = t" "pmp k2 = pmp k"
    using k2(2) inv1(2) by (simp_all add: woken_def same_view_inv [OF v])
  obtain r k3 where k3: "sched_tick pf isr_entry isr_exit k2 = Inr (r, k3)" "resumed pf k2 k3"
    "clint k3 = t" "waits k3 = waits k2" "r = None \<Longrightarrow> current_task_idx k3 = current_task_idx k"
    using sched_tick_inv [OF run2(1,2), of pf isr_entry isr_exit] run2 by auto
  have "resumed pf ?k1 k3"
    using woken_resumed [OF k2(2) sched_inv_wf(2) [OF inv1(1)] k3(2)] .
  then have res: "resumed pf k k3" using same_view_resumed(1) [OF v] by blast
  then have "r = None \<Longrightarrow> frame_of (current_task_idx k3) k3 = frame"
    using kept_frame_of [of k k3] sched_inv_wf(1) [OF inv] k3(5) frame by (simp add: resumed_def)
  with res show ?thesis
    using t now save canary k2(1,3) k3
    by (auto simp: on_timer_interrupt_def Let_def split: option.splits)
qed

lemma on_timer_interrupt_overflow:
  assumes frame: "frame = frame_of (current_task_idx k) k"
    and bad: "filter (stack_overflow k) [0..<task_count k] = i # is"
  shows "on_timer_interrupt pf isr_entry mtime isr_exit frame k = Inl (StackCanaryOverwritten i)"
proof -
  obtain now t where t: "timer_isr mtime (clint k) = (now, t)" by fastforce
  let ?k1 = "k\<lparr>clint := t\<rparr>"
  have v: "same_view k ?k1" by simp
  have save: "save_current frame ?k1 = ?k1"
    using frame by (intro save_current_same) (simp add: same_view_table [OF v])
  have "stack_overflow ?k1 = stack_overflow k"
    by (simp add: stack_overflow_def fun_eq_iff same_view_table [OF v] cong: option.case_cong)
  then have "check_stack_canaries ?k1 = Inl (StackCanaryOverwritten i)"
    using bad by (simp add: check_stack_canaries_cases)
  with t save show ?thesis by (simp add: on_timer_interrupt_def)
qed

section \<open>Channel wake-ups\<close>

definition waits_for :: "block_reason \<Rightarrow> 'z task_table_scheme \<Rightarrow> nat \<Rightarrow> bool" where
  "waits_for reason k i \<longleftrightarrow> (\<exists>w. waits k ! i = Some (reason, w))"

lemma wake_blocked_loop_inv:
  assumes inv: "core_inv k" and "\<forall>i \<in> set is. i < MAX_TASKS"
  shows "\<exists>r k'. wake_blocked_loop reason is k = Inr (r, k') \<and> woken k k' \<and>
           (case find (waits_for reason k) is of
              None \<Rightarrow> r = None \<and> k' = k
            | Some i \<Rightarrow> r = Some (of_nat i) \<and> waits k' = (waits k)[i := None])"
  using assms(2)
proof (induction "is")
  case Nil
  then show ?case by (simp add: woken_refl [OF inv])
next
  case (Cons i "is")
  then have i: "i < MAX_TASKS" by simp
  show ?case
  proof (cases "waits_for reason k i")
    case True
    then obtain t where t: "task_ptr (of_nat i) k = Some t" "td_state t = Blocked" "td_blocked_on t = reason"
      using waits_nth [OF inv i]
      by (auto simp: waits_for_def wait_of_def task_ptr_of_nat [OF i] split: option.splits if_splits)
    have "unat (of_nat i :: u8) = i" using i by (simp add: unat_of_nat)
    with True wake_task [OF inv t(1,2)] t show ?thesis by auto
  next
    case False
    then have "wake_blocked_loop reason (i # is) k = wake_blocked_loop reason is k"
      using waits_nth [OF inv i]
      by (auto simp: waits_for_def wait_of_def task_ptr_of_nat [OF i] split: option.splits)
    with False Cons show ?thesis by simp
  qed
qed

lemma wake_blocked_on_inv:
  assumes "core_inv k"
  shows "\<exists>r k'. wake_blocked_on reason k = Inr (r, k') \<and> woken k k' \<and>
           (case find (waits_for reason k) [0..<task_count k] of
              None \<Rightarrow> r = None \<and> k' = k
            | Some i \<Rightarrow> r = Some (of_nat i) \<and> waits k' = (waits k)[i := None])"
  using wake_blocked_loop_inv [OF assms, of "[0..<task_count k]" reason] assms
  by (auto simp: wake_blocked_on_def core_inv_def table_wf_def)

lemma preempt_if_outranked_inv:
  assumes inv: "core_inv k" and run: "running k" and frame: "frame = frame_of (current_task_idx k) k"
  shows "\<exists>k'. preempt_if_outranked pf frame k = Inr (frame_of (current_task_idx k') k', k') \<and>
           resumed pf k k' \<and> clint k' = clint k \<and> waits k' = waits k"
proof -
  have wf: "pq_wf (ready_queue k)" using inv by (simp add: core_inv_def)
  have e: "pq_is_empty (ready_queue k) \<longleftrightarrow> pq_bag (ready_queue k) = {#}"
    using wf by (auto simp: pq_is_empty_def elim!: pq_wf_obtain)
  obtain stay where stay: "(if pq_is_empty (ready_queue k) then Inr True
       else bind_res (pq_peek_max_priority (ready_queue k)) (\<lambda>p. Inr (p \<le> current_effective k))) = Inr stay"
    "stay \<Longrightarrow> running_best k"
    using ready_queue.peek_max [OF wf] e by (cases "pq_is_empty (ready_queue k)")
      (force simp: running_best_def)+
  show ?thesis
  proof (cases stay)
    case True
    then have "resumed pf k k"
      using stay(2) inv run sched_inv_wf(2) [OF inv] by (intro stayed_resumed) (simp_all add: sched_inv_def)
    with True stay(1) frame show ?thesis by (simp add: preempt_if_outranked_def Let_def)
  next
    case False
    with requeue_dispatch_inv [OF inv run, of pf] stay(1) frame switched_resumed show ?thesis
      by (auto simp: preempt_if_outranked_def Let_def save_current_same switched_def)
  qed
qed

end
