(* ===== verification/Scheduler_Boot.thy ===== *)
theory Scheduler_Boot
  imports Scheduler_Entry
begin

text \<open>
  The boot half of the scheduler: copying the precomputed inherited priorities, filling the ready
  queue, choosing the first task and building every task's first trap frame.
\<close>

section \<open>Inherited priorities\<close>

lemma write_precomputed_mip_registry:
  assumes "length tbl = MAX_TASKS" and "length (registry k) = MAX_TASKS" and "task_count k \<le> MAX_TASKS"
  shows "\<exists>reg. write_precomputed_mip tbl k = k\<lparr>registry := reg\<rparr> \<and> length reg = MAX_TASKS \<and>
           (\<forall>i < MAX_TASKS. reg ! i =
              (if i < task_count k
               then map_option (\<lambda>d. d\<lparr>td_max_inherited_priority := tbl ! i\<rparr>) (registry k ! i)
               else registry k ! i))"
proof -
  let ?step = "\<lambda>(i, mip) k. upd_task (of_nat i) (\<lambda>d. d\<lparr>td_max_inherited_priority := mip\<rparr>) k"
  have "\<exists>reg. fold ?step (take n (enumerate 0 tbl)) k = k\<lparr>registry := reg\<rparr> \<and> length reg = MAX_TASKS \<and>
      (\<forall>i < MAX_TASKS. reg ! i =
         (if i < n then map_option (\<lambda>d. d\<lparr>td_max_inherited_priority := tbl ! i\<rparr>) (registry k ! i)
          else registry k ! i))" if "n \<le> MAX_TASKS" for n
    using that
  proof (induction n)
    case 0
    then show ?case using assms(2) by (intro exI [of _ "registry k"]) simp
  next
    case (Suc n)
    then obtain reg where reg: "fold ?step (take n (enumerate 0 tbl)) k = k\<lparr>registry := reg\<rparr>"
      "length reg = MAX_TASKS"
      "\<forall>i < MAX_TASKS. reg ! i =
         (if i < n then map_option (\<lambda>d. d\<lparr>td_max_inherited_priority := tbl ! i\<rparr>) (registry k ! i)
          else registry k ! i)"
      by auto
    have n: "n < MAX_TASKS" using Suc.prems by simp
    have "take (Suc n) (enumerate 0 tbl) = take n (enumerate 0 tbl) @ [(n, tbl ! n)]"
      using n assms(1) by (simp add: take_Suc_conv_app_nth nth_enumerate_eq)
    then have "fold ?step (take (Suc n) (enumerate 0 tbl)) k =
        upd_task (of_nat n) (\<lambda>d. d\<lparr>td_max_inherited_priority := tbl ! n\<rparr>) (k\<lparr>registry := reg\<rparr>)"
      using reg(1) by simp
    also have "\<dots> = k\<lparr>registry := reg[n :=
        map_option (\<lambda>d. d\<lparr>td_max_inherited_priority := tbl ! n\<rparr>) (reg ! n)]\<rparr>"
    proof (cases "reg ! n")
      case None
      then have "reg[n := None] = reg" by (metis list_update_id)
      with None n show ?thesis by (simp add: upd_task_def task_ptr_of_nat)
    next
      case (Some d)
      then have "task_ptr (of_nat n) (k\<lparr>registry := reg\<rparr>) = Some d"
        using n by (simp add: task_ptr_of_nat)
      with Some n show ?thesis by (simp add: upd_task_Some unat_of_nat)
    qed
    finally show ?case
      using reg(2,3) n
      by (intro exI [of _ "reg[n := map_option (\<lambda>d. d\<lparr>td_max_inherited_priority := tbl ! n\<rparr>) (reg ! n)]"])
        (auto simp: nth_list_update less_Suc_eq)
  qed
  with assms(3) show ?thesis unfolding write_precomputed_mip_def by blast
qed

section \<open>The ready queue\<close>

lemma pq_new_facts:
  "pq_wf (pq_new n)" "pq_bag (pq_new n) = {#}" "pq_capacity (pq_new n) = n"
proof -
  show "pq_bag (pq_new n) = {#}" "pq_capacity (pq_new n) = n" by (simp_all add: pq_new_rep)
  show "pq_wf (pq_new n)" by (simp add: pq_new_rep pq_wf_rep heap_ordered_def)
qed

lemma populate_slots:
  assumes "ready_queue k = pq_new MAX_TASKS" and "n \<le> MAX_TASKS"
  shows "\<exists>q. fold_res populate_slot [0..<n] k = Inr (k\<lparr>ready_queue := q\<rparr>) \<and> pq_wf q \<and>
           pq_capacity q = MAX_TASKS \<and> pq_bag q = (\<Sum>i < n. slot_bag i (registry k ! i)) \<and> size (pq_bag q) \<le> n"
  using assms(2)
proof (induction n)
  case 0
  then show ?case
    using assms(1) pq_new_facts [of MAX_TASKS] by (intro exI [of _ "pq_new MAX_TASKS"]) simp
next
  case (Suc n)
  then obtain q where q: "fold_res populate_slot [0..<n] k = Inr (k\<lparr>ready_queue := q\<rparr>)" "pq_wf q"
    "pq_capacity q = MAX_TASKS" "pq_bag q = (\<Sum>i < n. slot_bag i (registry k ! i))" "size (pq_bag q) \<le> n"
    by auto
  have n: "n < MAX_TASKS" using Suc.prems by simp
  let ?k = "k\<lparr>ready_queue := q\<rparr>"
  have ptr: "task_ptr (of_nat n) ?k = registry k ! n" using n by (simp add: task_ptr_of_nat)
  have split: "fold_res populate_slot [0..<Suc n] k = populate_slot n ?k"
    using q(1) by (simp add: fold_res_append) (cases "populate_slot n ?k"; simp)
  show ?case
  proof (cases "slot_bag n (registry k ! n) = {#}")
    case True
    then have "populate_slot n ?k = Inr ?k"
      using ptr by (auto simp: populate_slot_def slot_bag_def split: option.splits if_splits)
    with split q True show ?thesis by auto
  next
    case False
    then obtain d where d: "registry k ! n = Some d" "td_state d = Ready"
      "slot_bag n (registry k ! n) = {#(of_nat n, effective_priority d)#}"
      by (auto simp: slot_bag_def split: option.splits if_splits)
    have "size (pq_bag q) < pq_capacity q" using q n by simp
    with ready_queue.put_room [OF q(2), of "of_nat n" "effective_priority d"] obtain q' where
      q': "pq_insert q (of_nat n) (effective_priority d) = Inr q'" "pq_wf q'"
        "pq_bag q' = add_mset (of_nat n, effective_priority d) (pq_bag q)" "pq_capacity q' = pq_capacity q"
      by blast
    have "populate_slot n ?k = Inr (k\<lparr>ready_queue := q'\<rparr>)"
      using ptr d(1,2) q'(1) by (simp add: populate_slot_def queue_insert_def)
    with split q q' d show ?thesis by auto
  qed
qed

text \<open>A freshly registered task table with the scheduler statics at their initial values.\<close>

definition unscheduled :: "kernel \<Rightarrow> bool" where
  "unscheduled k \<longleftrightarrow>
     table_wf k \<and> ready_queue k = pq_new MAX_TASKS \<and>
     (\<forall>i < task_count k. \<exists>d. registry k ! i = Some d \<and> td_state d = Ready)"

lemma populate_ready_queue_inv:
  assumes k: "unscheduled k" and "0 < task_count k"
  shows "\<exists>k'. populate_ready_queue pf k = Inr k' \<and> switched pf k k' \<and> waits k' = waits k"
proof -
  have wf: "table_wf k" and n: "task_count k \<le> MAX_TASKS" and empty: "ready_queue k = pq_new MAX_TASKS"
    using k by (auto simp: unscheduled_def table_wf_def)
  from populate_slots [OF empty n] obtain q where
    q: "fold_res populate_slot [0..<task_count k] k = Inr (k\<lparr>ready_queue := q\<rparr>)" "pq_wf q"
      "pq_capacity q = MAX_TASKS" "pq_bag q = (\<Sum>i < task_count k. slot_bag i (registry k ! i))" by auto
  let ?k1 = "k\<lparr>ready_queue := q\<rparr>"
  have rest: "slot_bag i (registry k ! i) = {#}" if "i < MAX_TASKS" "\<not> i < task_count k" for i
    using wf that by (auto simp: table_wf_def slot_bag_def)
  have "(\<Sum>i < task_count k. slot_bag i (registry k ! i)) = ready_bag (registry k)"
    unfolding ready_bag_def using n rest by (intro sum.mono_neutral_left) auto
  then have bag: "pq_bag q = ready_bag (registry k)" using q(4) by simp
  have none: "none_running ?k1"
    using k by (fastforce simp: none_running_def unscheduled_def table_wf_def)
  have "none_suspended (registry k)"
    using k wf by (fastforce simp: none_suspended_def unscheduled_def table_wf_def in_set_conv_nth)
  then have core: "core_inv ?k1"
    using wf q bag none by (auto simp: core_inv_def none_running_def table_wf_def)
  obtain d where d: "registry k ! 0 = Some d" "td_state d = Ready"
    using k assms(2) by (auto simp: unscheduled_def)
  have "(of_nat 0, effective_priority d) \<in># ready_bag (registry k)"
    unfolding in_ready_bag using d by (intro exI [of _ 0]) auto
  then have "pq_bag q \<noteq> {#}" using bag by auto
  with dispatch_next_inv [OF core none, of pf] obtain k' where
    k': "dispatch_next pf ?k1 = Inr (frame_of (current_task_idx k') k', k')" "switched pf ?k1 k'"
      "waits k' = waits ?k1" by auto
  from k'(1) obtain idx q' where pop: "pq_pop_max q = Inr (Some idx, q')"
    "k' = mark_running pf idx (?k1\<lparr>ready_queue := q'\<rparr>)"
    by (auto simp: dispatch_next_def bind_res_eq_Inr_iff Let_def split: option.splits)
  have "populate_ready_queue pf k = Inr k'"
    using q(1) pop by (simp add: populate_ready_queue_def)
  moreover have "switched pf k k'" "waits k' = waits k"
    using k'(2,3) by (simp_all add: switched_def kept_def statics_def stack_ptrs_def waits_def)
  ultimately show ?thesis by blast
qed

lemma scheduler_init_inv:
  assumes k: "unscheduled k" and "0 < task_count k" and "length tbl = MAX_TASKS"
  shows "\<exists>k0 k'. scheduler_init pf tbl k = Inr k' \<and> write_precomputed_mip tbl k = k0 \<and>
           switched pf k0 k' \<and> waits k' = waits k \<and> task_count k' = task_count k \<and>
           (\<forall>i < task_count k. registry k0 ! i =
              map_option (\<lambda>d. d\<lparr>td_max_inherited_priority := tbl ! i\<rparr>) (registry k ! i))"
proof -
  have wf: "table_wf k" using k by (simp add: unscheduled_def)
  then have len: "length (registry k) = MAX_TASKS" "task_count k \<le> MAX_TASKS"
    by (simp_all add: table_wf_def)
  from write_precomputed_mip_registry [OF assms(3) len] obtain reg where
    reg: "write_precomputed_mip tbl k = k\<lparr>registry := reg\<rparr>" "length reg = MAX_TASKS"
      "\<forall>i < MAX_TASKS. reg ! i =
         (if i < task_count k
          then map_option (\<lambda>d. d\<lparr>td_max_inherited_priority := tbl ! i\<rparr>) (registry k ! i)
          else registry k ! i)" by blast
  let ?k0 = "k\<lparr>registry := reg\<rparr>"
  have "table_wf ?k0" using wf reg by (auto simp: table_wf_def split: if_splits)
  moreover have "\<exists>d. reg ! i = Some d \<and> td_state d = Ready" if "i < task_count k" for i
    using k that reg(3) len(2) by (force simp: unscheduled_def)
  ultimately have f: "unscheduled ?k0" using k by (simp add: unscheduled_def)
  have "wait_of (reg ! i) = wait_of (registry k ! i)" if "i < MAX_TASKS" for i
    using reg(3) that by (auto simp: wait_of_def split: option.splits)
  then have "waits ?k0 = waits k"
    using reg(2) len by (intro nth_equalityI) (auto simp: waits_def)
  with populate_ready_queue_inv [OF f, of pf] assms(2) reg len(2) show ?thesis
    by (auto simp: scheduler_init_def switched_def kept_def)
qed

section \<open>Initial frames\<close>

text \<open>The frame that \<open>prepare_frames\<close> leaves for a task, in closed form (\<open>prepare_slot_value\<close> below).\<close>

definition initial_frame :: "usize \<Rightarrow> usize \<Rightarrow> task_descriptor \<Rightarrow> trap_frame" where
  "initial_frame exit_trap gp t =
     \<lparr>regs = (replicate 32 0)[REG_RA := exit_trap, REG_SP := td_stack_base t + td_stack_size t, REG_GP := gp],
      mepc = td_entry t,
      mstatus = (case td_mode t of User \<Rightarrow> MSTATUS_MPP_USER | Machine \<Rightarrow> MSTATUS_MPP_MACHINE) OR MSTATUS_MPIE,
      mcause = 0, mtval = 0\<rparr>"

lemma initial_frame_static:
  assumes "td_static d' = td_static d" shows "initial_frame exit_trap gp d' = initial_frame exit_trap gp d"
  using td_static_fields [OF assms] by (simp add: initial_frame_def)

lemma prepare_slot_value:
  assumes i: "i < MAX_TASKS" and t: "registry k ! i = Some t"
  shows "prepare_slot pf exit_trap gp i k =
     Inr (k\<lparr>registry := (registry k)[i := Some (t\<lparr>td_stack_ptr := frame_slot (kernel_stacks pf) i\<rparr>)],
            frames := (frames k)(frame_slot (kernel_stacks pf) i \<mapsto> initial_frame exit_trap gp t)\<rparr>)"
proof -
  have "task_ptr (of_nat i) (k\<lparr>frames := fs\<rparr>) = Some t" for fs
    using i t by (simp add: task_ptr_of_nat)
  moreover have "task_ptr (of_nat i) k = Some t" using i t by (simp add: task_ptr_of_nat)
  moreover have "unat (of_nat i :: u8) = i" using i by (simp add: unat_of_nat)
  ultimately show ?thesis
    using i by (simp add: prepare_slot_def kernel_stack_top_slot init_frame_def Let_def upd_task_Some
        initial_frame_def)
qed

text \<open>Every slot below \<open>n\<close> has its frame pointer and its initial frame; nothing else changed.\<close>

definition frames_ready :: "platform \<Rightarrow> usize \<Rightarrow> usize \<Rightarrow> nat \<Rightarrow> kernel \<Rightarrow> kernel \<Rightarrow> bool" where
  "frames_ready pf exit_trap gp n k k' \<longleftrightarrow>
     (\<exists>reg fs. k' = k\<lparr>registry := reg, frames := fs\<rparr> \<and> length reg = MAX_TASKS \<and>
        (\<forall>i < MAX_TASKS. reg ! i =
           (if i < n then map_option (\<lambda>t. t\<lparr>td_stack_ptr := frame_slot (kernel_stacks pf) i\<rparr>) (registry k ! i)
            else registry k ! i)) \<and>
        (\<forall>i < n. \<forall>t. registry k ! i = Some t \<longrightarrow>
           fs (frame_slot (kernel_stacks pf) i) = Some (initial_frame exit_trap gp t)))"

lemma prepare_frames_ready:
  assumes wf: "table_wf k"
  shows "\<exists>k'. prepare_frames pf exit_trap gp k = Inr k' \<and> frames_ready pf exit_trap gp (task_count k) k k'"
proof -
  have "\<exists>k'. fold_res (prepare_slot pf exit_trap gp) [0..<n] k = Inr k' \<and>
          frames_ready pf exit_trap gp n k k'" if "n \<le> task_count k" for n
    using that
  proof (induction n)
    case 0
    then show ?case using wf by (cases k) (auto simp: frames_ready_def table_wf_def)
  next
    case (Suc n)
    then obtain k1 where k1: "fold_res (prepare_slot pf exit_trap gp) [0..<n] k = Inr k1"
      "frames_ready pf exit_trap gp n k k1" by auto
    have n: "n < MAX_TASKS" "n < task_count k" using Suc.prems wf by (auto simp: table_wf_def)
    have "registry k ! n \<noteq> None" using wf n by (simp add: table_wf_def)
    then obtain t where t: "registry k ! n = Some t" by blast
    obtain reg fs where r: "k1 = k\<lparr>registry := reg, frames := fs\<rparr>" "length reg = MAX_TASKS"
      "\<forall>i < MAX_TASKS. reg ! i =
         (if i < n then map_option (\<lambda>t. t\<lparr>td_stack_ptr := frame_slot (kernel_stacks pf) i\<rparr>) (registry k ! i)
          else registry k ! i)"
      "\<forall>i < n. \<forall>t. registry k ! i = Some t \<longrightarrow>
         fs (frame_slot (kernel_stacks pf) i) = Some (initial_frame exit_trap gp t)"
      using k1(2) unfolding frames_ready_def by blast
    let ?reg = "reg[n := Some (t\<lparr>td_stack_ptr := frame_slot (kernel_stacks pf) n\<rparr>)]"
    let ?fs = "fs(frame_slot (kernel_stacks pf) n \<mapsto> initial_frame exit_trap gp t)"
    let ?k2 = "k\<lparr>registry := ?reg, frames := ?fs\<rparr>"
    have "fold_res (prepare_slot pf exit_trap gp) [0..<Suc n] k = Inr ?k2"
      using k1(1) prepare_slot_value [OF n(1), of k1 t pf exit_trap gp] t r n
      by (simp add: fold_res_append)
    moreover have "frame_slot (kernel_stacks pf) i \<noteq> frame_slot (kernel_stacks pf) n" if "i < n" for i
      using frame_slot_inj [of i n "kernel_stacks pf"] that n by auto
    then have "frames_ready pf exit_trap gp (Suc n) k ?k2"
      unfolding frames_ready_def using r(2-4) t n
      by (intro exI [of _ ?reg] exI [of _ ?fs]) (auto simp: nth_list_update less_Suc_eq)
    ultimately show ?case by blast
  qed
  then show ?thesis by (simp add: prepare_frames_def)
qed

end
