(* ===== verification/Capability_Allocator.thy ===== *)
theory Capability_Allocator
  imports Task_Registry
begin

text \<open>
  The boot-time conflict detectors of \<^verbatim>\<open>kernel/src/capability/allocator.rs\<close>: exclusive
  peripherals (\<open>check_capability_conflicts\<close>) and channel endpoints
  (\<open>check_channel_conflicts\<close>), and the console capability of \<^verbatim>\<open>capability/types.rs\<close>.
  A diagnostic followed by the final spin is the fault that names the reported identifiers.
\<close>

section \<open>Model\<close>

definition CONSOLE_PERIPHERAL_ID :: nat where "CONSOLE_PERIPHERAL_ID = 31"

definition CONSOLE_CAP_BIT :: u32 where "CONSOLE_CAP_BIT = push_bit CONSOLE_PERIPHERAL_ID 1"

text \<open>
  The body both detectors share: skip a clear bit, reject an identifier beyond the owner table,
  reject an identifier that already has an owner, and record the owner otherwise.
\<close>

definition claim ::
  "nat \<Rightarrow> (nat \<Rightarrow> u8 \<Rightarrow> fault) \<Rightarrow> (nat \<Rightarrow> u8 \<Rightarrow> u8 \<Rightarrow> fault) \<Rightarrow> u32 \<Rightarrow> u8 \<Rightarrow> nat \<Rightarrow>
   u8 option list \<Rightarrow> u8 option list res" where
  "claim limit out_of_range conflict msk tid i owners =
     (if \<not> mask_has msk i then Inr owners
      else if i \<ge> limit then Inl (out_of_range i tid)
      else bind_res (arr_get owners i) (\<lambda>prior.
        (case prior of
           Some p \<Rightarrow> Inl (conflict i p tid)
         | None \<Rightarrow> arr_set owners i (Some tid))))"

fun cap_bits :: "task_descriptor \<Rightarrow> nat list \<Rightarrow> u8 option list \<Rightarrow> u8 option list res" where
  "cap_bits t [] claimed = Inr claimed"
| "cap_bits t (cap_id # ids) claimed =
     bind_res (claim MAX_PERIPHERALS CapabilityOutOfRange CapabilityConflict
                 (td_exclusive_cap_mask t) (td_id t) cap_id claimed)
       (cap_bits t ids)"

fun cap_slots :: "task_descriptor option list \<Rightarrow> u8 option list \<Rightarrow> u8 option list res" where
  "cap_slots [] claimed = Inr claimed"
| "cap_slots (None # slots) claimed = cap_slots slots claimed"
| "cap_slots (Some t # slots) claimed = bind_res (cap_bits t [0..<32] claimed) (cap_slots slots)"

definition check_capability_conflicts :: "task_descriptor option list \<Rightarrow> unit res" where
  "check_capability_conflicts reg =
     bind_res (cap_slots reg (replicate MAX_PERIPHERALS None)) (\<lambda>_. Inr ())"

fun chan_bits ::
  "task_descriptor \<Rightarrow> nat list \<Rightarrow> u8 option list \<Rightarrow> u8 option list \<Rightarrow>
   (u8 option list \<times> u8 option list) res" where
  "chan_bits t [] senders receivers = Inr (senders, receivers)"
| "chan_bits t (i # ids) senders receivers =
     bind_res (claim MAX_CHANNELS (ChannelOutOfRange Sender) (ChannelConflict Sender)
                 (td_sends_mask t) (td_id t) i senders) (\<lambda>senders'.
     bind_res (claim MAX_CHANNELS (ChannelOutOfRange Receiver) (ChannelConflict Receiver)
                 (td_receives_mask t) (td_id t) i receivers) (\<lambda>receivers'.
       chan_bits t ids senders' receivers'))"

fun chan_slots ::
  "task_descriptor option list \<Rightarrow> u8 option list \<Rightarrow> u8 option list \<Rightarrow>
   (u8 option list \<times> u8 option list) res" where
  "chan_slots [] senders receivers = Inr (senders, receivers)"
| "chan_slots (None # slots) senders receivers = chan_slots slots senders receivers"
| "chan_slots (Some t # slots) senders receivers =
     bind_res (chan_bits t [0..<32] senders receivers) (\<lambda>(s, r). chan_slots slots s r)"

definition check_channel_conflicts :: "task_descriptor option list \<Rightarrow> unit res" where
  "check_channel_conflicts reg =
     bind_res (chan_slots reg (replicate MAX_CHANNELS None) (replicate MAX_CHANNELS None))
       (\<lambda>_. Inr ())"

section \<open>One owner table\<close>

text \<open>
  What a detector does to one owner table, whatever the table holds. The three tables of the
  kernel (peripherals, channel senders, channel receivers) are the instances below.
\<close>

definition occupied :: "'a option list \<Rightarrow> 'a list" where
  "occupied reg = map the (filter (\<lambda>s. s \<noteq> None) reg)"

lemma occupied_simps [simp]:
  "occupied [] = []" "occupied (None # reg) = occupied reg"
  "occupied (Some t # reg) = t # occupied reg"
  by (simp_all add: occupied_def)

lemma occupied_set: "t \<in> set (occupied reg) \<longleftrightarrow> Some t \<in> set reg"
  by (force simp: occupied_def)

locale owner_table =
  fixes limit :: nat
    and out_of_range :: "nat \<Rightarrow> u8 \<Rightarrow> fault"
    and conflict :: "nat \<Rightarrow> u8 \<Rightarrow> u8 \<Rightarrow> fault"
    and mask_of :: "task_descriptor \<Rightarrow> u32"
  assumes limit_le: "limit \<le> 32"
begin

fun bits :: "task_descriptor \<Rightarrow> nat list \<Rightarrow> u8 option list \<Rightarrow> u8 option list res" where
  "bits t [] owners = Inr owners"
| "bits t (i # is) owners =
     bind_res (claim limit out_of_range conflict (mask_of t) (td_id t) i owners) (bits t is)"

fun tasks :: "task_descriptor list \<Rightarrow> u8 option list \<Rightarrow> u8 option list res" where
  "tasks [] owners = Inr owners"
| "tasks (t # ts) owners = bind_res (bits t [0..<32] owners) (tasks ts)"

definition free_for :: "task_descriptor \<Rightarrow> nat set \<Rightarrow> u8 option list \<Rightarrow> bool" where
  "free_for t S owners \<longleftrightarrow> (\<forall>i \<in> S. mask_has (mask_of t) i \<longrightarrow> i < limit \<and> owners ! i = None)"

lemma bits_free:
  assumes "length owners = limit" and "distinct is" and "free_for t (set is) owners"
  shows "\<exists>owners'. bits t is owners = Inr owners' \<and> length owners' = limit \<and>
           (\<forall>i < limit. owners' ! i =
              (if i \<in> set is \<and> mask_has (mask_of t) i then Some (td_id t) else owners ! i))"
  using assms
proof (induction "is" arbitrary: owners)
  case (Cons i "is")
  show ?case
  proof (cases "mask_has (mask_of t) i")
    case True
    with Cons.prems have i: "i < limit" "owners ! i = None" by (auto simp: free_for_def)
    let ?o = "owners[i := Some (td_id t)]"
    have "free_for t (set is) ?o"
      using Cons.prems i(1) by (auto simp: free_for_def nth_list_update)
    from Cons.IH [OF _ _ this] Cons.prems obtain o' where
      "bits t is ?o = Inr o'" "length o' = limit"
      "\<forall>j < limit. o' ! j =
         (if j \<in> set is \<and> mask_has (mask_of t) j then Some (td_id t) else ?o ! j)"
      by auto
    with True i Cons.prems(1) show ?thesis
      by (auto simp: claim_def nth_list_update)
  next
    case False
    have "free_for t (set is) owners" using Cons.prems by (simp add: free_for_def)
    from Cons.IH [OF _ _ this] Cons.prems obtain o' where
      "bits t is owners = Inr o'" "length o' = limit"
      "\<forall>j < limit. o' ! j =
         (if j \<in> set is \<and> mask_has (mask_of t) j then Some (td_id t) else owners ! j)"
      by auto
    with False show ?thesis by (auto simp: claim_def)
  qed
qed simp

lemma bits_fault:
  assumes "bits t is owners = Inl f" and "length owners = limit" and "distinct is"
  shows "\<exists>i \<in> set is. mask_has (mask_of t) i \<and>
           (limit \<le> i \<and> f = out_of_range i (td_id t) \<or>
            i < limit \<and> (\<exists>p. owners ! i = Some p \<and> f = conflict i p (td_id t)))"
  using assms
proof (induction "is" arbitrary: owners)
  case (Cons i "is")
  show ?case
  proof (cases "mask_has (mask_of t) i \<and> (limit \<le> i \<or> owners ! i \<noteq> None)")
    case True
    with Cons.prems show ?thesis by (auto simp: claim_def split: if_splits)
  next
    case False
    define o' where "o' = (if mask_has (mask_of t) i then owners[i := Some (td_id t)] else owners)"
    have "bits t is o' = Inl f" "length o' = limit"
      using False Cons.prems by (auto simp: o'_def claim_def split: if_splits)
    with Cons.IH [of o'] Cons.prems(3) obtain j where j: "j \<in> set is" "mask_has (mask_of t) j"
      "limit \<le> j \<and> f = out_of_range j (td_id t) \<or>
       j < limit \<and> (\<exists>p. o' ! j = Some p \<and> f = conflict j p (td_id t))" by auto
    moreover have "i \<noteq> j" using j(1) Cons.prems(3) by auto
    then have "o' ! j = owners ! j" by (simp add: o'_def)
    ultimately show ?thesis by auto
  qed
qed simp

lemma bits_success:
  assumes "bits t is owners = Inr o'" and "length owners = limit" and "distinct is"
  shows "free_for t (set is) owners"
  using assms
proof (induction "is" arbitrary: owners)
  case (Cons i "is")
  define o1 where "o1 = (if mask_has (mask_of t) i then owners[i := Some (td_id t)] else owners)"
  have i: "mask_has (mask_of t) i \<Longrightarrow> i < limit \<and> owners ! i = None"
    using Cons.prems(1,2)
    by (auto simp: claim_def bind_res_eq_Inr_iff split: if_splits option.splits)
  have "bits t is o1 = Inr o'" "length o1 = limit"
    using Cons.prems i by (auto simp: o1_def claim_def split: if_splits)
  with Cons.IH [of o1] Cons.prems(3) have "free_for t (set is) o1" by simp
  moreover have "o1 ! j = owners ! j" if "j \<in> set is" for j
    using that Cons.prems(3) by (cases "i = j") (auto simp: o1_def)
  ultimately show ?case using i by (simp add: free_for_def)
qed (simp add: free_for_def)

text \<open>
  The scan of all tasks succeeds exactly when all identifiers are within the table and no
  identifier is claimed twice.
\<close>

lemma tasks_ok_iff:
  assumes "length owners = limit"
  shows "(\<exists>o'. tasks ts owners = Inr o') \<longleftrightarrow>
         (\<forall>t \<in> set ts. free_for t UNIV owners) \<and>
         sorted_wrt (\<lambda>a b. mask_of a AND mask_of b = 0) ts"
  using assms
proof (induction ts arbitrary: owners)
  case (Cons t ts)
  show ?case
  proof (cases "free_for t UNIV owners")
    case True
    then have "free_for t (set [0..<32]) owners" by (simp add: free_for_def)
    from bits_free [OF Cons.prems _ this] obtain o1 where
      o1: "bits t [0..<32] owners = Inr o1" "length o1 = limit"
        "\<forall>i < limit. o1 ! i =
           (if mask_has (mask_of t) i then Some (td_id t) else owners ! i)"
      using limit_le by auto
    have "free_for u UNIV o1 \<longleftrightarrow> free_for u UNIV owners \<and> mask_of t AND mask_of u = 0" for u
      using o1(3) masks_overlap_iff [of "mask_of t" "mask_of u"] True
      unfolding free_for_def by (metis UNIV_I option.distinct(1))
    with Cons.IH [OF o1(2)] o1(1) True show ?thesis by auto
  next
    case False
    have "\<nexists>o1. bits t [0..<32] owners = Inr o1"
      using bits_success [OF _ Cons.prems, of t "[0..<32]"] False mask_has_less
      by (auto simp: free_for_def)
    then show ?thesis using False by (cases "bits t [0..<32] owners") auto
  qed
qed simp


text \<open>When it fails, the fault names an identifier out of range or one claimed by two tasks.\<close>

definition backed :: "task_descriptor list \<Rightarrow> u8 option list \<Rightarrow> bool" where
  "backed seen owners \<longleftrightarrow>
     (\<forall>i < limit. \<forall>p. owners ! i = Some p \<longrightarrow>
        (\<exists>t \<in> set seen. td_id t = p \<and> mask_has (mask_of t) i))"

lemma tasks_fault:
  assumes "tasks ts owners = Inl f" and "length owners = limit" and "backed seen owners"
  shows "(\<exists>t \<in> set ts. \<exists>i \<ge> limit. mask_has (mask_of t) i \<and> f = out_of_range i (td_id t)) \<or>
         (\<exists>xs t ys u i. ts = xs @ t # ys \<and> u \<in> set seen \<union> set xs \<and>
            mask_has (mask_of u) i \<and> mask_has (mask_of t) i \<and> f = conflict i (td_id u) (td_id t))"
  using assms
proof (induction ts arbitrary: owners seen)
  case (Cons t ts)
  show ?case
  proof (cases "bits t [0..<32] owners")
    case (Inl e)
    with Cons.prems(1) have "e = f" by simp
    with bits_fault [OF Inl Cons.prems(2)] obtain i where i: "mask_has (mask_of t) i"
      "limit \<le> i \<and> f = out_of_range i (td_id t) \<or>
       i < limit \<and> (\<exists>p. owners ! i = Some p \<and> f = conflict i p (td_id t))" by auto
    then show ?thesis
    proof (elim disjE conjE exE)
      fix p assume "i < limit" "owners ! i = Some p" "f = conflict i p (td_id t)"
      moreover from this Cons.prems(3) obtain u where
        "u \<in> set seen" "td_id u = p" "mask_has (mask_of u) i" by (auto simp: backed_def)
      ultimately show ?thesis using i(1)
        by (intro disjI2 exI [of _ "[]"] exI [of _ t] exI [of _ ts] exI [of _ u] exI [of _ i]) auto
    qed (use i(1) in auto)
  next
    case (Inr o1)
    have fr: "free_for t (set [0..<32]) owners"
      using bits_success [OF Inr Cons.prems(2)] by simp
    from bits_free [OF Cons.prems(2) _ fr] Inr have o1: "length o1 = limit"
      "\<forall>i < limit. o1 ! i =
         (if i < 32 \<and> mask_has (mask_of t) i then Some (td_id t) else owners ! i)" by auto
    have "backed (t # seen) o1"
      using Cons.prems(3) o1(2) by (auto simp: backed_def)
    moreover have "tasks ts o1 = Inl f" using Cons.prems(1) Inr by simp
    ultimately consider "\<exists>u \<in> set ts. \<exists>i \<ge> limit. mask_has (mask_of u) i \<and> f = out_of_range i (td_id u)"
      | xs v ys u i where "ts = xs @ v # ys" "u \<in> set (t # seen) \<union> set xs"
          "mask_has (mask_of u) i" "mask_has (mask_of v) i" "f = conflict i (td_id u) (td_id v)"
      using Cons.IH [OF _ o1(1)] by blast
    then show ?thesis
    proof cases
      case 2
      then show ?thesis
        by (intro disjI2 exI [of _ "t # xs"] exI [of _ v] exI [of _ ys] exI [of _ u] exI [of _ i])
          auto
    qed auto
  qed
qed simp

end

section \<open>The three tables of the kernel\<close>

interpretation peripherals: owner_table MAX_PERIPHERALS CapabilityOutOfRange CapabilityConflict
  td_exclusive_cap_mask
  by unfold_locales simp

interpretation senders: owner_table MAX_CHANNELS "ChannelOutOfRange Sender"
  "ChannelConflict Sender" td_sends_mask
  by unfold_locales simp

interpretation receivers: owner_table MAX_CHANNELS "ChannelOutOfRange Receiver"
  "ChannelConflict Receiver" td_receives_mask
  by unfold_locales simp

lemma cap_bits_table: "cap_bits t is owners = peripherals.bits t is owners"
  by (induction "is" arbitrary: owners) (auto intro: bind_res_cong)

lemma cap_slots_table: "cap_slots reg owners = peripherals.tasks (occupied reg) owners"
  by (induction reg owners rule: cap_slots.induct) (auto simp: cap_bits_table intro!: bind_res_cong)

lemma check_capability_conflicts_table:
  "check_capability_conflicts reg =
   bind_res (peripherals.tasks (occupied reg) (replicate 32 None)) (\<lambda>_. Inr ())"
  by (simp add: check_capability_conflicts_def cap_slots_table)

lemma chan_bits_tables:
  "chan_bits t is s r = Inr (s', r') \<longleftrightarrow>
   senders.bits t is s = Inr s' \<and> receivers.bits t is r = Inr r'"
  by (induction "is" arbitrary: s r) (auto simp: bind_res_eq_Inr_iff)

lemma chan_slots_tables:
  "chan_slots reg s r = Inr (s', r') \<longleftrightarrow>
   senders.tasks (occupied reg) s = Inr s' \<and> receivers.tasks (occupied reg) r = Inr r'"
proof (induction reg s r rule: chan_slots.induct)
  case (3 t slots s r)
  then show ?case by (auto simp: bind_res_eq_Inr_iff chan_bits_tables)
qed auto

lemma check_channel_conflicts_tables:
  "check_channel_conflicts reg = Inr () \<longleftrightarrow>
   (\<exists>s. senders.tasks (occupied reg) (replicate 8 None) = Inr s) \<and>
   (\<exists>r. receivers.tasks (occupied reg) (replicate 8 None) = Inr r)"
  by (auto simp: check_channel_conflicts_def bind_res_eq_Inr_iff chan_slots_tables)

text \<open>Two slots of the registry, in either order, against the list of occupied slots.\<close>

lemma sorted_wrt_occupied:
  assumes "\<And>a b. R a b \<longleftrightarrow> R b a"
  shows "sorted_wrt R (occupied reg) \<longleftrightarrow>
         (\<forall>i < length reg. \<forall>j < length reg. \<forall>a b.
            i \<noteq> j \<longrightarrow> reg ! i = Some a \<longrightarrow> reg ! j = Some b \<longrightarrow> R a b)"
proof (induction reg)
  case (Cons s reg)
  have "(\<forall>x \<in> set (occupied reg). R a x) \<longleftrightarrow> (\<forall>j < length reg. \<forall>b. reg ! j = Some b \<longrightarrow> R a b)" for a
    unfolding Ball_def occupied_set by (auto simp: in_set_conv_nth)
  with Cons assms show ?case
    by (cases s) (auto simp: All_less_Suc2)
qed simp

lemma occupied_split:
  assumes "occupied reg = xs @ t # ys" and "u \<in> set xs"
  shows "\<exists>i j. i < j \<and> j < length reg \<and> reg ! i = Some u \<and> reg ! j = Some t"
  using assms
proof (induction reg arbitrary: xs)
  case (Cons s reg)
  have shift: "\<exists>i j. i < j \<and> j < length (s # reg) \<and> (s # reg) ! i = Some u \<and> (s # reg) ! j = Some t"
    if "\<exists>i j. i < j \<and> j < length reg \<and> reg ! i = Some u \<and> reg ! j = Some t"
    using that by (metis Suc_mono length_Cons nth_Cons_Suc)
  show ?case
  proof (cases s)
    case None
    with Cons show ?thesis by (intro shift) simp
  next
    case (Some v)
    with Cons.prems obtain xs' where xs: "xs = v # xs'" "occupied reg = xs' @ t # ys"
      by (cases xs) auto
    show ?thesis
    proof (cases "u \<in> set xs'")
      case True
      with Cons.IH xs show ?thesis by (intro shift) simp
    next
      case False
      with Cons.prems(2) xs have "u = v" by simp
      have "Some t \<in> set reg"
        using xs(2) by (metis (no_types, lifting) in_set_conv_decomp occupied_set)
      then obtain j where "j < length reg" "reg ! j = Some t" by (auto simp: in_set_conv_nth)
      with Some \<open>u = v\<close> show ?thesis
        by (intro exI [of _ 0] exI [of _ "Suc j"]) simp
    qed
  qed
qed simp

text \<open>What the detectors promise, slot by slot.\<close>

definition exclusive_disjoint :: "task_descriptor option list \<Rightarrow> bool" where
  "exclusive_disjoint reg \<longleftrightarrow>
     (\<forall>i < length reg. \<forall>j < length reg. \<forall>a b.
        i \<noteq> j \<longrightarrow> reg ! i = Some a \<longrightarrow> reg ! j = Some b \<longrightarrow>
        td_exclusive_cap_mask a AND td_exclusive_cap_mask b = 0)"

definition endpoints_unique :: "task_descriptor option list \<Rightarrow> bool" where
  "endpoints_unique reg \<longleftrightarrow>
     (\<forall>i < length reg. \<forall>j < length reg. \<forall>a b.
        i \<noteq> j \<longrightarrow> reg ! i = Some a \<longrightarrow> reg ! j = Some b \<longrightarrow>
        td_sends_mask a AND td_sends_mask b = 0 \<and>
        td_receives_mask a AND td_receives_mask b = 0) \<and>
     (\<forall>a c. Some a \<in> set reg \<longrightarrow> mask_has (td_sends_mask a) c \<or> mask_has (td_receives_mask a) c \<longrightarrow>
        c < MAX_CHANNELS)"

text \<open>
  C28: the peripheral check passes only if no two registered tasks hold a common exclusive
  peripheral, and when it halts, the peripheral and the two tasks it prints are a real double
  claim, the earlier registered task first.
\<close>

theorem capability_check_exact:
  "case check_capability_conflicts reg of
     Inr _ \<Rightarrow> exclusive_disjoint reg
   | Inl f \<Rightarrow>
       (\<exists>i j a b c. i < j \<and> j < length reg \<and> reg ! i = Some a \<and> reg ! j = Some b \<and>
          mask_has (td_exclusive_cap_mask a) c \<and> mask_has (td_exclusive_cap_mask b) c \<and>
          f = CapabilityConflict c (td_id a) (td_id b))"
proof (cases "peripherals.tasks (occupied reg) (replicate 32 None)")
  case (Inr o')
  with peripherals.tasks_ok_iff [of "replicate 32 None" "occupied reg"]
  have "sorted_wrt (\<lambda>a b. td_exclusive_cap_mask a AND td_exclusive_cap_mask b = 0) (occupied reg)"
    by simp
  with Inr show ?thesis
    by (simp add: check_capability_conflicts_table exclusive_disjoint_def sorted_wrt_occupied
        and.commute)
next
  case (Inl f)
  have "peripherals.backed [] (replicate 32 None)" by (simp add: peripherals.backed_def)
  from peripherals.tasks_fault [OF Inl _ this] obtain xs t ys u c where
    *: "occupied reg = xs @ t # ys" "u \<in> set xs" "mask_has (td_exclusive_cap_mask u) c"
    "mask_has (td_exclusive_cap_mask t) c" "f = CapabilityConflict c (td_id u) (td_id t)"
    by (auto dest: mask_has_less)
  with Inl occupied_split [OF *(1,2)] show ?thesis
    by (simp add: check_capability_conflicts_table) blast
qed

lemma chan_bits_fault:
  "chan_bits t is s r = Inl f \<Longrightarrow> senders.bits t is s = Inl f \<or> receivers.bits t is r = Inl f"
  by (induction "is" arbitrary: s r) (auto simp: bind_res_eq_Inl_iff)

lemma chan_slots_fault:
  "chan_slots reg s r = Inl f \<Longrightarrow>
   senders.tasks (occupied reg) s = Inl f \<or> receivers.tasks (occupied reg) r = Inl f"
proof (induction reg s r rule: chan_slots.induct)
  case (3 t slots s r)
  then show ?case
    by (auto simp: bind_res_eq_Inl_iff chan_bits_tables dest!: chan_bits_fault)
qed auto

definition endpoint_mask :: "endpoint \<Rightarrow> task_descriptor \<Rightarrow> u32" where
  "endpoint_mask e t = (case e of Sender \<Rightarrow> td_sends_mask t | Receiver \<Rightarrow> td_receives_mask t)"

lemma capability_check_ok_iff:
  "check_capability_conflicts reg = Inr () \<longleftrightarrow>
   sorted_wrt (\<lambda>a b. td_exclusive_cap_mask a AND td_exclusive_cap_mask b = 0) (occupied reg)"
proof -
  have "(\<exists>o'. peripherals.tasks (occupied reg) (replicate 32 None) = Inr o') \<longleftrightarrow>
      sorted_wrt (\<lambda>a b. td_exclusive_cap_mask a AND td_exclusive_cap_mask b = 0) (occupied reg)"
    using peripherals.tasks_ok_iff [of "replicate 32 None" "occupied reg"]
    by (auto simp: peripherals.free_for_def dest: mask_has_less)
  then show ?thesis by (simp add: check_capability_conflicts_table bind_res_eq_Inr_iff)
qed

lemma channel_check_ok_iff:
  "check_channel_conflicts reg = Inr () \<longleftrightarrow>
   (\<forall>t \<in> set (occupied reg). \<forall>c. mask_has (td_sends_mask t) c \<or> mask_has (td_receives_mask t) c \<longrightarrow> c < MAX_CHANNELS) \<and>
   sorted_wrt (\<lambda>a b. td_sends_mask a AND td_sends_mask b = 0) (occupied reg) \<and>
   sorted_wrt (\<lambda>a b. td_receives_mask a AND td_receives_mask b = 0) (occupied reg)"
  unfolding check_channel_conflicts_tables
    senders.tasks_ok_iff [of "replicate 8 None", simplified]
    receivers.tasks_ok_iff [of "replicate 8 None", simplified]
  by (auto simp: senders.free_for_def receivers.free_for_def)

lemma channel_check_passes:
  assumes "check_channel_conflicts reg = Inr u"
  shows "endpoints_unique reg"
proof -
  have "check_channel_conflicts reg = Inr ()" using assms by simp
  then show ?thesis
    unfolding channel_check_ok_iff Ball_def occupied_set
    by (auto simp: endpoints_unique_def sorted_wrt_occupied and.commute)
qed

text \<open>
  C29: the channel check passes exactly when every channel identifier in use is below
  \<open>MAX_CHANNELS\<close> and every channel has at most one sender and at most one receiver; when it
  halts, the endpoint, channel and tasks it prints are a real violation.
\<close>

theorem channel_check_exact:
  "case check_channel_conflicts reg of
     Inr _ \<Rightarrow> endpoints_unique reg
   | Inl f \<Rightarrow>
       (\<exists>e j b c. j < length reg \<and> reg ! j = Some b \<and> mask_has (endpoint_mask e b) c \<and>
          (MAX_CHANNELS \<le> c \<and> f = ChannelOutOfRange e c (td_id b) \<or>
           (\<exists>i a. i < j \<and> reg ! i = Some a \<and> mask_has (endpoint_mask e a) c \<and>
              f = ChannelConflict e c (td_id a) (td_id b))))"
proof (cases "check_channel_conflicts reg")
  case (Inr u)
  with channel_check_passes [of reg u] show ?thesis by simp
next
  case (Inl f)
  have backed: "senders.backed [] (replicate 8 None)" "receivers.backed [] (replicate 8 None)"
    by (simp_all add: senders.backed_def receivers.backed_def)
  have "chan_slots reg (replicate 8 None) (replicate 8 None) = Inl f"
    using Inl by (auto simp: check_channel_conflicts_def bind_res_eq_Inl_iff)
  then have "senders.tasks (occupied reg) (replicate 8 None) = Inl f \<or>
             receivers.tasks (occupied reg) (replicate 8 None) = Inl f"
    by (rule chan_slots_fault)
  moreover define Q where "Q e \<longleftrightarrow>
    (\<exists>t \<in> set (occupied reg). \<exists>c \<ge> 8. mask_has (endpoint_mask e t) c \<and>
        f = ChannelOutOfRange e c (td_id t)) \<or>
    (\<exists>xs t ys u c. occupied reg = xs @ t # ys \<and> u \<in> set xs \<and> mask_has (endpoint_mask e u) c \<and>
        mask_has (endpoint_mask e t) c \<and> f = ChannelConflict e c (td_id u) (td_id t))" for e
  have "Q Sender" if "senders.tasks (occupied reg) (replicate 8 None) = Inl f"
    using senders.tasks_fault [OF that _ backed(1)] by (simp add: Q_def endpoint_mask_def)
  moreover have "Q Receiver" if "receivers.tasks (occupied reg) (replicate 8 None) = Inl f"
    using receivers.tasks_fault [OF that _ backed(2)] by (simp add: Q_def endpoint_mask_def)
  ultimately obtain e where "Q e" by blast
  then show ?thesis
    unfolding Q_def
  proof (elim disjE bexE exE conjE)
    fix t c assume "t \<in> set (occupied reg)" "8 \<le> c" "mask_has (endpoint_mask e t) c"
      "f = ChannelOutOfRange e c (td_id t)"
    moreover from this obtain j where "j < length reg" "reg ! j = Some t"
      unfolding occupied_set by (auto simp: in_set_conv_nth)
    ultimately show ?thesis using Inl by auto
  next
    fix xs t ys u c
    assume *: "occupied reg = xs @ t # ys" "u \<in> set xs"
      and "mask_has (endpoint_mask e u) c" "mask_has (endpoint_mask e t) c"
        "f = ChannelConflict e c (td_id u) (td_id t)"
    with occupied_split [OF *] Inl show ?thesis by simp blast
  qed
qed

end
