(* ===== verification/Syscall.thy ===== *)
theory Syscall
  imports Scheduler Capability_Allocator
begin

text \<open>
  The kernel side of the system calls (\<^verbatim>\<open>kernel/src/syscall.rs\<close>) and the trap dispatcher above it
  (\<^verbatim>\<open>kernel/src/context/trap.rs\<close>). A frame pointer is an address in the frame store; following one
  that holds no frame is the fault \<open>NullFrame\<close>. A halt is a fault value; the text that
  \<open>fault_and_halt\<close> prints first is \<open>fault_report\<close>.
\<close>

section \<open>Model\<close>

definition SYS_YIELD :: usize where "SYS_YIELD = 0"
definition SYS_SLEEP :: usize where "SYS_SLEEP = 1"
definition SYS_LOG :: usize where "SYS_LOG = 2"
definition SYS_NOW :: usize where "SYS_NOW = 3"
definition SYS_SEND :: usize where "SYS_SEND = 4"
definition SYS_RECEIVE :: usize where "SYS_RECEIVE = 5"
definition FLAG_NONBLOCK :: usize where "FLAG_NONBLOCK = 1"

lemmas sys_numbers = SYS_YIELD_def SYS_SLEEP_def SYS_LOG_def SYS_NOW_def SYS_SEND_def SYS_RECEIVE_def

text \<open>\<open>usize::MAX\<close> is \<open>- 1\<close>.\<close>

definition ENOSYS :: usize where "ENOSYS = - 1"
definition EPERM :: usize where "EPERM = - 1 - 1"
definition EFAULT :: usize where "EFAULT = - 1 - 2"
definition EAGAIN :: usize where "EAGAIN = - 1 - 3"
definition EINVAL :: usize where "EINVAL = - 1 - 4"
definition LOG_MAX_LEN :: usize where "LOG_MAX_LEN = 256"

text \<open>\<open>checked_add\<close> fails where the sum reaches \<open>2^32\<close>.\<close>

definition checked_add :: "usize \<Rightarrow> usize \<Rightarrow> usize option" where
  "checked_add a b = (if unat a + unat b < 2 ^ 32 then Some (a + b) else None)"

definition buffer_readable :: "usize \<Rightarrow> usize \<Rightarrow> (usize \<times> usize) list \<Rightarrow> bool" where
  "buffer_readable ptr len ranges =
     (if len = 0 then True
      else case checked_add ptr len of
             None \<Rightarrow> False
           | Some stop \<Rightarrow> list_ex (\<lambda>(start, limit). start \<le> ptr \<and> stop \<le> limit) ranges)"

definition may_log :: "task_descriptor \<Rightarrow> bool" where
  "may_log task \<longleftrightarrow> td_shared_cap_mask task AND CONSOLE_CAP_BIT \<noteq> 0"

definition readable_ranges :: "platform \<Rightarrow> task_descriptor \<Rightarrow> (usize \<times> usize) list" where
  "readable_ranges pf task =
     [(td_memory_start task, td_memory_end task),
      (td_stack_base task, td_stack_base task + td_stack_size task),
      flash_image pf]"

definition writable_ranges :: "task_descriptor \<Rightarrow> (usize \<times> usize) list" where
  "writable_ranges task =
     [(td_memory_start task, td_memory_end task),
      (td_stack_base task, td_stack_base task + td_stack_size task)]"

definition holds_endpoint :: "u32 \<Rightarrow> usize \<Rightarrow> bool" where
  "holds_endpoint m ch \<longleftrightarrow> unat ch < 32 \<and> mask_has m (unat ch)"

text \<open>Accesses through raw pointers: a slice read and \<open>copy_nonoverlapping\<close>.\<close>

definition read_bytes :: "memory \<Rightarrow> usize \<Rightarrow> nat \<Rightarrow> u8 list" where
  "read_bytes m ptr n = map (\<lambda>i. m (ptr + of_nat i)) [0..<n]"

fun write_bytes :: "usize \<Rightarrow> u8 list \<Rightarrow> memory \<Rightarrow> memory" where
  "write_bytes ptr [] m = m"
| "write_bytes ptr (b # bs) m = write_bytes (ptr + 1) bs (m(ptr := b))"

definition frame_at :: "usize \<Rightarrow> kernel \<Rightarrow> trap_frame res" where
  "frame_at frame k = (case frames k frame of None \<Rightarrow> Inl NullFrame | Some f \<Rightarrow> Inr f)"

definition upd_frame :: "usize \<Rightarrow> (trap_frame \<Rightarrow> trap_frame) \<Rightarrow> kernel \<Rightarrow> kernel res" where
  "upd_frame frame g k = bind_res (frame_at frame k) (\<lambda>f. Inr (k\<lparr>frames := (frames k)(frame \<mapsto> g f)\<rparr>))"

definition ret :: "usize \<Rightarrow> usize \<Rightarrow> kernel \<Rightarrow> (usize \<times> kernel) res" where
  "ret frame val k =
     bind_res (upd_frame frame (\<lambda>f. f\<lparr>regs := (regs f)[REG_A0 := val]\<rparr>) k) (\<lambda>k1. Inr (frame, k1))"

definition block_and_restart :: "platform \<Rightarrow> usize \<Rightarrow> block_reason \<Rightarrow> kernel \<Rightarrow> (usize \<times> kernel) res" where
  "block_and_restart pf frame reason k =
     bind_res (upd_frame frame (\<lambda>f. f\<lparr>mepc := mepc f - 4\<rparr>) k) (\<lambda>k1. block_current pf frame reason k1)"

definition sys_log :: "platform \<Rightarrow> usize \<Rightarrow> usize \<Rightarrow> kernel \<Rightarrow> usize \<times> kernel" where
  "sys_log pf ptr len k =
     (case current_task k of
        None \<Rightarrow> (EPERM, k)
      | Some task \<Rightarrow>
          if \<not> may_log task then (EPERM, k)
          else if \<not> buffer_readable ptr len (readable_ranges pf task) then (EFAULT, k)
          else (len, k\<lparr>uart := fold uart_putchar (read_bytes (mem k) ptr (unat len)) (uart k)\<rparr>))"

definition sys_send ::
  "platform \<Rightarrow> usize \<Rightarrow> usize \<Rightarrow> usize \<Rightarrow> usize \<Rightarrow> usize \<Rightarrow> kernel \<Rightarrow> (usize \<times> kernel) res" where
  "sys_send pf frame ch ptr len flags k =
     (case current_task k of
        None \<Rightarrow> ret frame EPERM k
      | Some task \<Rightarrow>
          (case channel_at (channels k) (unat ch) of
             None \<Rightarrow> ret frame EINVAL k
           | Some chan \<Rightarrow>
               if \<not> holds_endpoint (td_sends_mask task) ch then ret frame EPERM k
               else if unat len > MSG_MAX then ret frame EINVAL k
               else if \<not> buffer_readable ptr len (readable_ranges pf task) then ret frame EFAULT k
               else if ch_is_full chan then
                 (if flags AND FLAG_NONBLOCK \<noteq> 0 then ret frame EAGAIN k
                  else block_and_restart pf frame (Send (ucast ch)) k)
               else
                 (case message_from_bytes (read_bytes (mem k) ptr (unat len)) of
                    None \<Rightarrow> Inl MessageTooLong
                  | Some msg \<Rightarrow>
                      bind_res (try_send chan msg) (\<lambda>(_, chan').
                      bind_res (ret frame 0 (k\<lparr>channels := (channels k)[unat ch := chan']\<rparr>)) (\<lambda>(_, k1).
                      bind_res (wake_blocked_on (Receive (ucast ch)) k1) (\<lambda>(_, k2).
                        preempt_if_outranked pf frame k2))))))"

definition sys_receive ::
  "platform \<Rightarrow> usize \<Rightarrow> usize \<Rightarrow> usize \<Rightarrow> usize \<Rightarrow> usize \<Rightarrow> kernel \<Rightarrow> (usize \<times> kernel) res" where
  "sys_receive pf frame ch ptr cap flags k =
     (case current_task k of
        None \<Rightarrow> ret frame EPERM k
      | Some task \<Rightarrow>
          (case channel_at (channels k) (unat ch) of
             None \<Rightarrow> ret frame EINVAL k
           | Some chan \<Rightarrow>
               if \<not> holds_endpoint (td_receives_mask task) ch then ret frame EPERM k
               else if \<not> buffer_readable ptr cap (writable_ranges task) then ret frame EFAULT k
               else
                 bind_res (try_receive chan) (\<lambda>(r, chan').
                   let k0 = k\<lparr>channels := (channels k)[unat ch := chan']\<rparr> in
                   (case r of
                      None \<Rightarrow>
                        if flags AND FLAG_NONBLOCK \<noteq> 0 then ret frame EAGAIN k0
                        else block_and_restart pf frame (Receive (ucast ch)) k0
                    | Some msg \<Rightarrow>
                        bind_res (message_bytes msg) (\<lambda>bytes.
                          let n = min (length bytes) (unat cap) in
                          bind_res (ret frame (of_nat (length bytes))
                              (k0\<lparr>mem := write_bytes ptr (take n bytes) (mem k0)\<rparr>)) (\<lambda>(_, k1).
                          bind_res (wake_blocked_on (Send (ucast ch)) k1) (\<lambda>(_, k2).
                            preempt_if_outranked pf frame k2)))))))"

definition dispatch :: "platform \<Rightarrow> usize \<Rightarrow> kernel \<Rightarrow> (usize \<times> kernel) res" where
  "dispatch pf frame k =
     bind_res (frame_at frame k) (\<lambda>f.
     bind_res (arr_get (regs f) REG_A0) (\<lambda>a0.
     bind_res (arr_get (regs f) REG_A1) (\<lambda>a1.
     bind_res (arr_get (regs f) REG_A7) (\<lambda>a7.
       if a7 = SYS_YIELD then bind_res (ret frame 0 k) (\<lambda>(_, k1). yield_current pf frame k1)
       else if a7 = SYS_SLEEP then bind_res (ret frame 0 k) (\<lambda>(_, k1). sleep_current pf frame a0 k1)
       else if a7 = SYS_LOG then
         let (v, k1) = sys_log pf a0 (min a1 LOG_MAX_LEN) k in ret frame v k1
       else if a7 = SYS_NOW then ret frame (ticks (clint k)) k
       else if a7 = SYS_SEND then
         bind_res (arr_get (regs f) REG_A2) (\<lambda>a2.
         bind_res (arr_get (regs f) REG_A3) (\<lambda>a3. sys_send pf frame a0 a1 a2 a3 k))
       else if a7 = SYS_RECEIVE then
         bind_res (arr_get (regs f) REG_A2) (\<lambda>a2.
         bind_res (arr_get (regs f) REG_A3) (\<lambda>a3. sys_receive pf frame a0 a1 a2 a3 k))
       else ret frame ENOSYS k))))"

section \<open>The trap dispatcher\<close>

definition exception_name :: "usize \<Rightarrow> string" where
  "exception_name code =
     (if code = 0 then ''instruction address misaligned''
      else if code = 1 then ''instruction access fault''
      else if code = 2 then ''illegal instruction''
      else if code = 3 then ''breakpoint''
      else if code = 4 then ''load address misaligned''
      else if code = 5 then ''load access fault''
      else if code = 6 then ''store address misaligned''
      else if code = 7 then ''store access fault''
      else ''exception'')"

text \<open>The diagnostic of \<open>fault_and_halt\<close>; \<open>idx\<close> is the running task.\<close>

definition fault_report :: "trap_frame \<Rightarrow> u8 \<Rightarrow> console \<Rightarrow> console res" where
  "fault_report f idx out =
     (let code = mcause f AND NOT (push_bit 31 1);
          from_user = (drop_bit 11 (mstatus f) AND 3 = 0);
          o1 = uart_puts (exception_name code) (uart_puts ''[FAULT] '' out);
          o2 = (if from_user \<and> code \<in> {1, 5, 7} then uart_puts '' (PMP violation)'' o1 else o1)
      in bind_res (uart_print_hex (mcause f) (uart_puts '' mcause='' o2)) (\<lambda>o3.
         bind_res (uart_print_hex (mepc f) (uart_puts '' mepc='' o3)) (\<lambda>o4.
         bind_res (uart_print_hex (mtval f) (uart_puts '' mtval='' o4)) (\<lambda>o5.
         bind_res (uart_print_usize (ucast idx) (uart_puts '' task='' o5)) (\<lambda>o6.
           Inr (uart_puts ([CHR 0x0A] @ ''System halted.'' @ [CHR 0x0A])
                  (uart_puts (if from_user then '' mode=U'' else '' mode=M'') o6)))))))"

definition fault_and_halt :: "trap_frame \<Rightarrow> kernel \<Rightarrow> (usize \<times> kernel) res" where
  "fault_and_halt f k =
     bind_res (fault_report f (current_task_idx k) (uart k)) (\<lambda>_.
       Inl (HardwareFault (mcause f) (mepc f) (mtval f)))"

text \<open>What the hardware supplies during a trap: the two \<open>minstret\<close> samples and \<open>mtime\<close>.\<close>

record hw_input =
  hw_entry :: u32
  hw_mtime :: u64
  hw_exit :: u32

definition trap_handler :: "platform \<Rightarrow> hw_input \<Rightarrow> usize \<Rightarrow> kernel \<Rightarrow> (usize \<times> kernel) res" where
  "trap_handler pf hw frame k =
     bind_res (frame_at frame k) (\<lambda>f.
       let is_interrupt = (drop_bit 31 (mcause f) AND 1 = 1);
           cause_code = mcause f AND NOT (push_bit 31 1)
       in if is_interrupt then
            (if cause_code = 7 then
               on_timer_interrupt pf (hw_entry hw) (hw_mtime hw) (hw_exit hw) frame k
             else
               bind_res (uart_print_hex (mcause f) (uart_puts ''[TRAP] unhandled interrupt cause='' (uart k)))
                 (\<lambda>out. Inr (frame, k\<lparr>uart := uart_puts [CHR 0x0A] out\<rparr>)))
          else if cause_code = 8 \<or> cause_code = 11 then
            bind_res (upd_frame frame (\<lambda>f. f\<lparr>mepc := mepc f + 4\<rparr>) k) (\<lambda>k1.
            bind_res (note_syscall_mode (cause_code = 8) k1) (\<lambda>k2. dispatch pf frame k2))
          else fault_and_halt f k)"

end
