(* ===== verification/Kernel_Invariant.thy ===== *)
theory Kernel_Invariant
  imports Syscall Scheduler_Entry
begin

text \<open>
  The invariant of the running kernel beyond the scheduler: channels are well formed and hold
  well-formed messages, every task has its own saved frame on its own kernel stack, channel
  endpoints have one owner, and a task is blocked on a channel only while the channel cannot
  serve it.
\<close>

section \<open>Definitions\<close>

definition msg_wf :: "message \<Rightarrow> bool" where
  "msg_wf m \<longleftrightarrow> unat (msg_len m) \<le> length (msg_data m)"

definition chan_inv :: "message channel list \<Rightarrow> bool" where
  "chan_inv chs \<longleftrightarrow>
     length chs = MAX_CHANNELS \<and>
     (\<forall>ch \<in> set chs. ch_wf ch \<and> ch_capacity ch = CHANNEL_CAPACITY \<and> (\<forall>m \<in> set (ch_contents ch). msg_wf m))"

definition frames_inv :: "platform \<Rightarrow> kernel \<Rightarrow> bool" where
  "frames_inv pf k \<longleftrightarrow>
     (\<forall>i < task_count k.
        stack_ptrs k ! i = Some (frame_slot (kernel_stacks pf) i) \<and>
        (\<exists>f. frames k (frame_slot (kernel_stacks pf) i) = Some f \<and> length (regs f) = 32))"

text \<open>The slots that own an endpoint of channel \<open>c\<close>, read off the part of the registry that never changes.\<close>

definition sends_on :: "task_descriptor option list \<Rightarrow> nat \<Rightarrow> nat \<Rightarrow> bool" where
  "sends_on st i c \<longleftrightarrow> (\<exists>d. st ! i = Some d \<and> mask_has (td_sends_mask d) c)"

definition receives_on :: "task_descriptor option list \<Rightarrow> nat \<Rightarrow> nat \<Rightarrow> bool" where
  "receives_on st i c \<longleftrightarrow> (\<exists>d. st ! i = Some d \<and> mask_has (td_receives_mask d) c)"

definition single_owner :: "task_descriptor option list \<Rightarrow> bool" where
  "single_owner st \<longleftrightarrow>
     (\<forall>i < MAX_TASKS. \<forall>j < MAX_TASKS. \<forall>c.
        (sends_on st i c \<longrightarrow> sends_on st j c \<longrightarrow> i = j) \<and>
        (receives_on st i c \<longrightarrow> receives_on st j c \<longrightarrow> i = j))"

fun wait_owner :: "task_descriptor option list \<Rightarrow> nat \<Rightarrow> block_reason \<Rightarrow> bool" where
  "wait_owner st i (Send c) \<longleftrightarrow> unat c < MAX_CHANNELS \<and> sends_on st i (unat c)"
| "wait_owner st i (Receive c) \<longleftrightarrow> unat c < MAX_CHANNELS \<and> receives_on st i (unat c)"
| "wait_owner st i _ \<longleftrightarrow> True"

fun must_wait :: "message channel list \<Rightarrow> block_reason \<Rightarrow> bool" where
  "must_wait chs (Send c) \<longleftrightarrow> ch_is_full (chs ! unat c)"
| "must_wait chs (Receive c) \<longleftrightarrow> ch_is_empty (chs ! unat c)"
| "must_wait chs _ \<longleftrightarrow> True"

definition wait_inv :: "kernel \<Rightarrow> bool" where
  "wait_inv k \<longleftrightarrow>
     (\<forall>i < MAX_TASKS. \<forall>r w. waits k ! i = Some (r, w) \<longrightarrow>
        wait_owner (statics k) i r \<and> must_wait (channels k) r)"

definition kernel_inv :: "platform \<Rightarrow> kernel \<Rightarrow> bool" where
  "kernel_inv pf k \<longleftrightarrow>
     sched_inv k \<and> pmp_tracks pf k \<and> chan_inv (channels k) \<and> frames_inv pf k \<and>
     single_owner (statics k) \<and> wait_inv k"

declare kernel_inv_def [kernel_invs]

text \<open>Task \<open>n\<close> is registered and neither blocked nor suspended, as the idle task always is.\<close>

definition available :: "nat \<Rightarrow> kernel \<Rightarrow> bool" where
  "available n k \<longleftrightarrow> n < task_count k \<and> waits k ! n = None"

section \<open>Preservation\<close>

text \<open>The part of the invariant a scheduler operation may disturb is only who waits.\<close>

lemma kernel_inv_after:
  assumes k: "pmp_tracks pf k" "chan_inv (channels k)" "frames_inv pf k" "single_owner (statics k)"
    and r: "resumed pf k k'"
    and w: "\<And>i r w. i < MAX_TASKS \<Longrightarrow> waits k' ! i = Some (r, w) \<Longrightarrow>
              wait_owner (statics k) i r \<and> must_wait (channels k) r"
  shows "kernel_inv pf k'"
proof -
  have kept: "statics k' = statics k" "stack_ptrs k' = stack_ptrs k" "task_count k' = task_count k"
    "channels k' = channels k" "frames k' = frames k"
    using r by (simp_all add: resumed_def kept_def)
  have "wait_inv k'" using w unfolding wait_inv_def kept by blast
  then show ?thesis
    using k r unfolding kernel_inv_def frames_inv_def kept resumed_def by blast
qed

lemma kernel_inv_resumed:
  assumes k: "kernel_inv pf k" and r: "resumed pf k k'"
    and w: "\<And>i r w. i < MAX_TASKS \<Longrightarrow> waits k' ! i = Some (r, w) \<Longrightarrow>
              waits k ! i = Some (r, w) \<or> wait_owner (statics k) i r \<and> must_wait (channels k) r"
  shows "kernel_inv pf k'"
proof -
  have "wait_owner (statics k) i r \<and> must_wait (channels k) r"
    if "i < MAX_TASKS" "waits k' ! i = Some (r, w)" for i r w
    using w [OF that] k that(1) by (auto simp: kernel_inv_def wait_inv_def)
  with k r show ?thesis by (intro kernel_inv_after [of pf k k']) (auto simp: kernel_inv_def)
qed

lemma available_ready:
  assumes "sched_inv k" and "available n k" and "n \<noteq> unat (current_task_idx k)"
  shows "\<exists>d. registry k ! n = Some d \<and> td_state d = Ready \<and>
             (of_nat n, effective_priority d) \<in># pq_bag (ready_queue k)"
proof -
  have core: "core_inv k" and wf: "table_wf k" using assms(1) by (auto simp: sched_inv_def core_inv_def)
  have n: "n < MAX_TASKS" using assms(2) wf by (simp add: available_def table_wf_def)
  then have "registry k ! n \<noteq> None" using wf assms(2) by (simp add: available_def table_wf_def)
  then obtain d where d: "registry k ! n = Some d" by blast
  have "td_state d \<noteq> Blocked"
    using waits_nth [OF core n] assms(2) d by (auto simp: available_def wait_of_def)
  moreover have "td_state d \<noteq> Suspended"
    using core d n wf by (metis core_inv_def none_suspended_def nth_mem table_wf_def)
  moreover have "td_state d \<noteq> Running"
    using core d n assms(3) by (auto simp: core_inv_def unat_of_nat)
  ultimately have "td_state d = Ready" by (cases "td_state d") auto
  then have "(of_nat n, effective_priority d) \<in># ready_bag (registry k)"
    unfolding in_ready_bag using d n by blast
  with d \<open>td_state d = Ready\<close> show ?thesis using core by (auto simp: core_inv_def)
qed

lemma queue_nonempty:
  assumes "sched_inv k" and "available n k" and "n \<noteq> unat (current_task_idx k)"
  shows "pq_bag (ready_queue k) \<noteq> {#}"
  using available_ready [OF assms] by auto

lemma current_slot:
  assumes "sched_inv k"
  shows "\<exists>d. task_ptr (current_task_idx k) k = Some d \<and> unat (current_task_idx k) < task_count k \<and>
             unat (current_task_idx k) < MAX_TASKS \<and>
             registry k ! unat (current_task_idx k) = Some d \<and>
             statics k ! unat (current_task_idx k) = Some (td_static d)"
proof -
  obtain d where d: "task_ptr (current_task_idx k) k = Some d"
    using assms by (auto simp: sched_inv_def running_def)
  have "table_wf k" using assms by (rule sched_inv_wf)
  then show ?thesis
    using d task_ptr_Some [OF d] by (auto simp: table_wf_def statics_def)
qed

lemma current_frame:
  assumes "kernel_inv pf k"
  shows "frame_of (current_task_idx k) k = frame_slot (kernel_stacks pf) (unat (current_task_idx k))"
    and "\<exists>f. frames k (frame_of (current_task_idx k) k) = Some f \<and> length (regs f) = 32"
proof -
  have s: "sched_inv k" and f: "frames_inv pf k" using assms by (simp_all add: kernel_inv_def)
  obtain d where d: "task_ptr (current_task_idx k) k = Some d" "unat (current_task_idx k) < task_count k"
    "unat (current_task_idx k) < MAX_TASKS" "registry k ! unat (current_task_idx k) = Some d"
    using current_slot [OF s] by auto
  have "stack_ptrs k ! unat (current_task_idx k) = Some (td_stack_ptr d)"
    using d sched_inv_wf(1) [OF s] by (simp add: stack_ptrs_def table_wf_def)
  with f d show "frame_of (current_task_idx k) k = frame_slot (kernel_stacks pf) (unat (current_task_idx k))"
    and "\<exists>f. frames k (frame_of (current_task_idx k) k) = Some f \<and> length (regs f) = 32"
    by (auto simp: frames_inv_def frame_of_def)
qed

text \<open>Writes to the running task's frame, to user memory and to the console.\<close>

lemma kernel_inv_local:
  assumes k: "kernel_inv pf k" and same: "sched_same k k'" "channels k' = channels k"
    and f: "frames k' = (frames k)(frame_of (current_task_idx k) k \<mapsto> f)" "length (regs f) = 32"
  shows "kernel_inv pf k'"
proof -
  note st = sched_same_table [OF same(1)] and inv = sched_same_inv [OF same(1)]
  have tc: "task_count k' = task_count k" using same(1) by (simp add: sched_same_def)
  have "frames_inv pf k'"
    using k f by (auto simp: frames_inv_def kernel_inv_def st tc)
  then show ?thesis
    using k same(2) by (simp add: kernel_inv_def wait_inv_def st inv)
qed

section \<open>What a system call may change\<close>

definition local_change :: "kernel \<Rightarrow> kernel \<Rightarrow> bool" where
  "local_change k k1 \<longleftrightarrow>
     sched_same k k1 \<and> clint k1 = clint k \<and>
     (\<forall>p. p \<noteq> frame_of (current_task_idx k) k \<longrightarrow> frames k1 p = frames k p)"

text \<open>Runnable and sleeping tasks other than the caller are not affected by a system call.\<close>

definition undisturbed :: "(block_reason \<times> u32) option \<Rightarrow> bool" where
  "undisturbed w \<longleftrightarrow> w = None \<or> (\<exists>t. w = Some (Sleep, t))"

definition served :: "platform \<Rightarrow> kernel \<Rightarrow> kernel \<Rightarrow> bool" where
  "served pf k k' \<longleftrightarrow>
     kernel_inv pf k' \<and> statics k' = statics k \<and> task_count k' = task_count k \<and> clint k' = clint k \<and>
     (\<forall>p. p \<noteq> frame_of (current_task_idx k) k \<longrightarrow> frames k' p = frames k p) \<and>
     (\<forall>n < MAX_TASKS. n \<noteq> unat (current_task_idx k) \<longrightarrow> undisturbed (waits k ! n) \<longrightarrow> waits k' ! n = waits k ! n)"

lemma served_intro:
  assumes "local_change k k1" and "kernel_inv pf k2" and "kept k1 k2" and "clint k2 = clint k1"
    and "\<And>n. n < MAX_TASKS \<Longrightarrow> n \<noteq> unat (current_task_idx k) \<Longrightarrow> undisturbed (waits k1 ! n) \<Longrightarrow>
           waits k2 ! n = waits k1 ! n"
  shows "served pf k k2"
proof -
  have "sched_same k k1" using assms(1) by (simp add: local_change_def)
  note st = sched_same_table [OF this]
  have "task_count k1 = task_count k" using assms(1) by (simp add: local_change_def sched_same_def)
  with assms st show ?thesis by (auto simp: served_def local_change_def kept_def)
qed

lemma ret_value:
  "frames k frame = Some f \<Longrightarrow>
   ret frame v k = Inr (frame, k\<lparr>frames := (frames k)(frame \<mapsto> f\<lparr>regs := (regs f)[REG_A0 := v]\<rparr>)\<rparr>)"
  by (simp add: ret_def upd_frame_def frame_at_def)

lemma sched_same_refl [simp]: "sched_same k k" by (simp add: sched_same_def)

lemma ret_served:
  assumes k: "kernel_inv pf k" and frame: "frame = frame_of (current_task_idx k) k"
    and k1: "sched_same k k1" "channels k1 = channels k" "frames k1 = frames k" "clint k1 = clint k"
  shows "\<exists>k'. ret frame v k1 = Inr (frame, k') \<and> local_change k k' \<and> kernel_inv pf k' \<and>
           channels k' = channels k \<and> mem k' = mem k1 \<and> uart k' = uart k1 \<and>
           frame_of (current_task_idx k') k' = frame"
proof -
  obtain f where f: "frames k frame = Some f" "length (regs f) = 32"
    using current_frame(2) [OF k] frame by auto
  let ?f = "f\<lparr>regs := (regs f)[REG_A0 := v]\<rparr>"
  let ?k = "k1\<lparr>frames := (frames k1)(frame \<mapsto> ?f)\<rparr>"
  have same: "sched_same k ?k" using k1(1) by (simp add: sched_same_def)
  have "kernel_inv pf ?k"
    using k1 f frame by (intro kernel_inv_local [OF k same, of ?f]) simp_all
  moreover have "frame_of (current_task_idx ?k) ?k = frame"
    using frame sched_same_table(3) [OF same] same by (simp add: sched_same_def)
  moreover have "local_change k ?k" using same k1 frame by (simp add: local_change_def)
  ultimately show ?thesis using f k1 by (simp add: ret_value)
qed

lemma local_served:
  assumes "local_change k k'" and "kernel_inv pf k'"
  shows "served pf k k'"
  using assms by (intro served_intro [of k k']) auto

lemma block_and_restart_served:
  assumes k: "kernel_inv pf k" and frame: "frame = frame_of (current_task_idx k) k"
    and own: "wait_owner (statics k) (unat (current_task_idx k)) reason" "must_wait (channels k) reason"
    and ne: "pq_bag (ready_queue k) \<noteq> {#}"
  shows "\<exists>k' f. block_and_restart pf frame reason k = Inr (frame_of (current_task_idx k') k', k') \<and>
           served pf k k' \<and> mem k' = mem k \<and> channels k' = channels k \<and>
           (\<exists>w. waits k' = (waits k)[unat (current_task_idx k) := Some (reason, w)]) \<and>
           frames k frame = Some f \<and> frames k' frame = Some (f\<lparr>mepc := mepc f - 4\<rparr>)"
proof -
  obtain f where f: "frames k frame = Some f" "length (regs f) = 32"
    using current_frame(2) [OF k] frame by auto
  let ?f = "f\<lparr>mepc := mepc f - 4\<rparr>"
  let ?k = "k\<lparr>frames := (frames k)(frame \<mapsto> ?f)\<rparr>"
  have same: "sched_same k ?k" by (simp add: sched_same_def)
  note st = sched_same_table [OF same]
  have k1: "kernel_inv pf ?k"
    using f frame by (intro kernel_inv_local [OF k same, of ?f]) simp_all
  then have s1: "sched_inv ?k" by (simp add: kernel_inv_def)
  have frame1: "frame = frame_of (current_task_idx ?k) ?k" using frame st by simp
  from block_current_inv [OF s1 frame1, of pf reason] ne obtain k' w where
    k': "block_current pf frame reason ?k = Inr (frame_of (current_task_idx k') k', k')" "switched pf ?k k'"
      "waits k' = (waits k)[unat (current_task_idx k) := Some (reason, w)]" by (auto simp: st)
  have res: "resumed pf ?k k'" by (rule switched_resumed [OF k'(2)])
  have len: "length (waits k) = MAX_TASKS"
    using k length_waits by (simp add: kernel_inv_def sched_inv_def)
  have "kernel_inv pf k'"
  proof (rule kernel_inv_resumed [OF k1 res])
    fix i r w' assume "i < MAX_TASKS" "waits k' ! i = Some (r, w')"
    then show "waits ?k ! i = Some (r, w') \<or>
        wait_owner (statics ?k) i r \<and> must_wait (channels ?k) r"
      using own len k'(3) by (cases "unat (current_task_idx k) = i") (auto simp: st)
  qed
  moreover have kc: "kept ?k k'" "clint k' = clint k" using k'(2) by (auto simp: switched_def)
  moreover have "local_change k ?k" using same frame by (simp add: local_change_def)
  ultimately have "served pf k k'"
    using k'(3) by (intro served_intro [of k ?k]) (auto simp: st)
  with k' kc f show ?thesis
    by (auto simp: block_and_restart_def upd_frame_def frame_at_def kept_def)
qed

section \<open>Sending and receiving\<close>

text \<open>After a channel operation only the peer blocked on \<open>reason\<close> may wait without cause; waking it restores the invariant.\<close>

lemma wake_preempt:
  assumes s: "sched_inv k1" "pmp_tracks pf k1" "chan_inv (channels k1)" "frames_inv pf k1"
      "single_owner (statics k1)"
    and own: "\<And>i r w. i < MAX_TASKS \<Longrightarrow> waits k1 ! i = Some (r, w) \<Longrightarrow> wait_owner (statics k1) i r"
    and wait: "\<And>i r w. i < MAX_TASKS \<Longrightarrow> waits k1 ! i = Some (r, w) \<Longrightarrow> r \<noteq> reason \<Longrightarrow> must_wait (channels k1) r"
    and reason: "reason = Send c \<or> reason = Receive c"
    and frame: "frame = frame_of (current_task_idx k1) k1"
  shows "\<exists>k'. bind_res (wake_blocked_on reason k1) (\<lambda>(_, k2). preempt_if_outranked pf frame k2) =
                Inr (frame_of (current_task_idx k') k', k') \<and>
           kernel_inv pf k' \<and> kept k1 k' \<and> clint k' = clint k1 \<and>
           (\<forall>i < MAX_TASKS. waits k' ! i = (if waits_for reason k1 i then None else waits k1 ! i))"
proof -
  have core: "core_inv k1" and wf: "table_wf k1" using s(1) by (auto simp: sched_inv_def core_inv_def)
  have one: "i = j" if "i < MAX_TASKS" "j < MAX_TASKS" "waits_for reason k1 i" "waits_for reason k1 j" for i j
  proof -
    have "wait_owner (statics k1) i reason" "wait_owner (statics k1) j reason"
      using own that by (auto simp: waits_for_def)
    with reason have "sends_on (statics k1) i (unat c) \<and> sends_on (statics k1) j (unat c) \<or>
        receives_on (statics k1) i (unat c) \<and> receives_on (statics k1) j (unat c)" by auto
    with s(5) that(1,2) show ?thesis unfolding single_owner_def by blast
  qed
  obtain r k2 where k2: "wake_blocked_on reason k1 = Inr (r, k2)" "woken k1 k2"
    "case find (waits_for reason k1) [0..<task_count k1] of None \<Rightarrow> r = None \<and> k2 = k1
     | Some i \<Rightarrow> r = Some (of_nat i) \<and> waits k2 = (waits k1)[i := None]"
    using wake_blocked_on_inv [OF core] by blast
  have bound: "i < task_count k1" if "i < MAX_TASKS" "waits_for reason k1 i" for i
    using that waits_nth [OF core that(1)] wf
    by (auto simp: waits_for_def wait_of_def table_wf_def split: option.splits)
  have w2: "waits k2 ! i = (if waits_for reason k1 i then None else waits k1 ! i)" if i: "i < MAX_TASKS" for i
  proof (cases "find (waits_for reason k1) [0..<task_count k1]")
    case None
    then have "k2 = k1" using k2(3) by simp
    moreover have "\<not> waits_for reason k1 i" using None bound [OF i] by (auto simp: find_None_iff)
    ultimately show ?thesis by simp
  next
    case (Some j)
    then have j: "waits_for reason k1 j" "j < task_count k1" by (auto simp: find_Some_iff)
    then have "j < MAX_TASKS" using wf by (simp add: table_wf_def)
    with one [OF i _ _ j(1)] have "waits_for reason k1 i \<longleftrightarrow> i = j" using j(1) by blast
    with k2(3) Some i length_waits [OF core] show ?thesis by (simp add: nth_list_update)
  qed
  have run2: "core_inv k2" "running k2" "current_task_idx k2 = current_task_idx k1" "kept k1 k2" "clint k2 = clint k1"
    using k2(2) s(1) by (auto simp: woken_def sched_inv_def)
  have "frame = frame_of (current_task_idx k2) k2"
    using frame kept_frame_of [OF run2(4) wf] run2(3) by simp
  from preempt_if_outranked_inv [OF run2(1,2) this, of pf] obtain k' where
    k': "preempt_if_outranked pf frame k2 = Inr (frame_of (current_task_idx k') k', k')" "resumed pf k2 k'"
      "clint k' = clint k2" "waits k' = waits k2" by blast
  have res: "resumed pf k1 k'" by (rule woken_resumed [OF k2(2) wf k'(2)])
  have "kernel_inv pf k'"
    using own wait w2 k'(4)
    by (intro kernel_inv_after [OF s(2-5) res]) (auto simp: waits_for_def split: if_splits)
  with k2(1) k' w2 run2(5) res show ?thesis by (auto simp: resumed_def)
qed

lemma must_wait_update:
  assumes "unat c < MAX_CHANNELS" and "length chs = MAX_CHANNELS" and "must_wait chs r" and "r \<noteq> reason"
    and "reason = Receive c \<and> \<not> ch_is_full (chs ! unat c) \<or> reason = Send c \<and> \<not> ch_is_empty (chs ! unat c)"
  shows "must_wait (chs[unat c := ch']) r"
  using assms by (cases r) (auto simp: nth_list_update word_unat_eq_iff)

lemma channel_op_served:
  assumes k: "kernel_inv pf k" and frame: "frame = frame_of (current_task_idx k) k"
    and c: "unat c < MAX_CHANNELS"
    and ch': "ch_wf ch'" "ch_capacity ch' = CHANNEL_CAPACITY" "\<forall>m \<in> set (ch_contents ch'). msg_wf m"
    and reason: "reason = Receive c \<and> \<not> ch_is_full (channels k ! unat c) \<or>
                 reason = Send c \<and> \<not> ch_is_empty (channels k ! unat c)"
  shows "\<exists>k' f. bind_res (ret frame v (k\<lparr>channels := (channels k)[unat c := ch'], mem := m\<rparr>)) (\<lambda>(_, k1).
                 bind_res (wake_blocked_on reason k1) (\<lambda>(_, k2). preempt_if_outranked pf frame k2)) =
                Inr (frame_of (current_task_idx k') k', k') \<and>
           served pf k k' \<and> mem k' = m \<and> channels k' = (channels k)[unat c := ch'] \<and> frames k frame = Some f \<and>
           frames k' frame = Some (f\<lparr>regs := (regs f)[REG_A0 := v]\<rparr>) \<and>
           (\<forall>i < MAX_TASKS. waits k' ! i = (if waits_for reason k i then None else waits k ! i))"
proof -
  obtain f where f: "frames k frame = Some f" "length (regs f) = 32"
    using current_frame(2) [OF k] frame by auto
  let ?f = "f\<lparr>regs := (regs f)[REG_A0 := v]\<rparr>" and ?chs = "(channels k)[unat c := ch']"
  let ?k = "k\<lparr>channels := ?chs, mem := m\<rparr>"
  define k1 where "k1 = ?k\<lparr>frames := (frames k)(frame \<mapsto> ?f)\<rparr>"
  have same: "sched_same k k1" by (simp add: sched_same_def k1_def)
  note st = sched_same_table [OF same] and inv = sched_same_inv [OF same]
  have k1: "channels k1 = ?chs" "mem k1 = m" "frames k1 = (frames k)(frame \<mapsto> ?f)" "clint k1 = clint k"
    "current_task_idx k1 = current_task_idx k" "task_count k1 = task_count k"
    by (simp_all add: k1_def)
  have ki: "sched_inv k" "pmp_tracks pf k" "chan_inv (channels k)" "frames_inv pf k"
    "single_owner (statics k)" "wait_inv k"
    using k by (simp_all add: kernel_inv_def)
  have len: "length (channels k) = MAX_CHANNELS" using ki(3) by (simp add: chan_inv_def)
  have chs: "chan_inv ?chs"
    using ki(3) ch' set_update_subset_insert [of "channels k" "unat c" ch'] by (auto simp: chan_inv_def)
  have fr: "frames_inv pf k1"
    using ki(4) f by (auto simp: frames_inv_def st k1)
  have own: "wait_owner (statics k) i r" "must_wait (channels k) r"
    if "i < MAX_TASKS" "waits k ! i = Some (r, w)" for i r w
    using ki(6) that by (auto simp: wait_inv_def)
  have "\<exists>k'. bind_res (wake_blocked_on reason k1) (\<lambda>(_, k2). preempt_if_outranked pf frame k2) =
                Inr (frame_of (current_task_idx k') k', k') \<and>
           kernel_inv pf k' \<and> kept k1 k' \<and> clint k' = clint k1 \<and>
           (\<forall>i < MAX_TASKS. waits k' ! i = (if waits_for reason k1 i then None else waits k1 ! i))"
  proof (rule wake_preempt [where c = c])
    fix i r w assume a: "i < MAX_TASKS" "waits k1 ! i = Some (r, w)" "r \<noteq> reason"
    then have "must_wait (channels k) r" using own(2) st by simp
    from must_wait_update [OF c len this a(3) reason] show "must_wait (channels k1) r" by (simp add: k1)
  qed (use ki fr chs frame own reason in \<open>auto simp: st inv k1\<close>)
  then obtain k' where k': "bind_res (wake_blocked_on reason k1) (\<lambda>(_, k2). preempt_if_outranked pf frame k2) =
      Inr (frame_of (current_task_idx k') k', k')" "kernel_inv pf k'" "kept k1 k'" "clint k' = clint k1"
    "\<forall>i < MAX_TASKS. waits k' ! i = (if waits_for reason k i then None else waits k ! i)"
    by (auto simp: waits_for_def st)
  have "local_change k k1" using same frame by (simp add: local_change_def k1)
  moreover have "\<not> waits_for reason k n" if "undisturbed (waits k ! n)" for n
    using that reason by (auto simp: undisturbed_def waits_for_def)
  ultimately have "served pf k k'" using k' by (intro served_intro [of k k1]) (auto simp: st)
  moreover have "ret frame v ?k = Inr (frame, k1)" using f by (simp add: ret_value k1_def)
  ultimately show ?thesis using k' f by (auto simp: kept_def k1)
qed

section \<open>Array bounds and index ranges\<close>

text \<open>
  What the types of the kernel's statics and the comments beside them promise: every array has its declared
  length, every index and length the kernel keeps is in range, and every registered task has a frame of
  32 registers.
\<close>

definition kernel_typed :: "platform \<Rightarrow> kernel \<Rightarrow> bool" where
  "kernel_typed pf k \<longleftrightarrow>
     length (registry k) = MAX_TASKS \<and> task_count k \<le> MAX_TASKS \<and>
     (\<forall>i < MAX_TASKS. registry k ! i \<noteq> None \<longleftrightarrow> i < task_count k) \<and>
     unat (current_task_idx k) < task_count k \<and>
     length (pq_heap (ready_queue k)) = MAX_TASKS \<and> pq_len (ready_queue k) < MAX_TASKS \<and>
     (\<forall>i < MAX_TASKS. (case pq_heap (ready_queue k) ! i of
        None \<Rightarrow> pq_len (ready_queue k) \<le> i
      | Some e \<Rightarrow> i < pq_len (ready_queue k) \<and> unat (he_task_id e) < task_count k)) \<and>
     length (channels k) = MAX_CHANNELS \<and>
     list_all (\<lambda>c. length (ch_buffer c) = CHANNEL_CAPACITY \<and> ch_head c < CHANNEL_CAPACITY \<and> ch_len c \<le> CHANNEL_CAPACITY)
       (channels k) \<and>
     (\<forall>i < task_count k. \<exists>f. frames k (frame_slot (kernel_stacks pf) i) = Some f \<and> length (regs f) = 32)"

lemma queued_slot:
  assumes "core_inv k" and "pq_heap (ready_queue k) ! i = Some e" and "i < length (pq_heap (ready_queue k))"
  shows "i < pq_len (ready_queue k) \<and> unat (he_task_id e) < task_count k"
proof -
  have wf: "pq_wf (ready_queue k)" "table_wf k" "pq_bag (ready_queue k) = ready_bag (registry k)"
    using assms(1) by (simp_all add: core_inv_def)
  obtain es n ns where q: "ready_queue k = pq_rep es n ns" by (rule pq_wf_obtain [OF wf(1)]) 
  have i: "i < length es" "es ! i = e" using assms(2,3) by (auto simp: q pq_rep_def nth_append split: if_splits)
  then have "(he_task_id e, he_effective_priority e) \<in># ready_bag (registry k)"
    unfolding wf(3) [symmetric] by (auto simp: q pq_bag_rep entry_item_def intro!: image_eqI [of _ _ e])
  then have "unat (he_task_id e) < MAX_TASKS \<and> registry k ! unat (he_task_id e) \<noteq> None"
    using wf(2) in_ready_bag [of _ _ "registry k"] by (auto simp: table_wf_def unat_of_nat)
  then show ?thesis using i wf(2) by (auto simp: q table_wf_def)
qed

lemma kernel_inv_typed:
  assumes "kernel_inv pf k"
  shows "kernel_typed pf k"
proof -
  have s: "sched_inv k" "chan_inv (channels k)" "frames_inv pf k" using assms by (simp_all add: kernel_inv_def)
  have core: "core_inv k" "table_wf k" using s(1) by (simp_all add: sched_inv_def core_inv_def)
  obtain d where d: "unat (current_task_idx k) < MAX_TASKS" "registry k ! unat (current_task_idx k) = Some d"
    "td_state d = Running" "unat (current_task_idx k) < task_count k"
    using s(1) current_slot [OF s(1)] by (auto simp: sched_inv_def running_def)
  have q: "pq_wf (ready_queue k)" "length (pq_heap (ready_queue k)) = MAX_TASKS"
    "pq_bag (ready_queue k) = ready_bag (registry k)"
    using core(1) by (simp_all add: core_inv_def pq_capacity_def)
  have "size (ready_bag (registry k)) < MAX_TASKS"
    by (rule size_ready_bag [OF d(1)]) (simp add: d slot_bag_def)
  moreover have "size (pq_bag (ready_queue k)) = pq_len (ready_queue k)"
    using q(1) by (simp add: pq_bag_def pq_entries_def pq_wf_def)
  ultimately have room: "pq_len (ready_queue k) < MAX_TASKS" using q(3) by simp
  have "case pq_heap (ready_queue k) ! i of None \<Rightarrow> pq_len (ready_queue k) \<le> i
      | Some e \<Rightarrow> i < pq_len (ready_queue k) \<and> unat (he_task_id e) < task_count k" if "i < MAX_TASKS" for i
  proof (cases "pq_heap (ready_queue k) ! i")
    case None
    obtain es n ns where "ready_queue k = pq_rep es n ns" by (rule pq_wf_obtain [OF q(1)])
    then show ?thesis using None by (auto simp: pq_rep_def nth_append not_less [symmetric])
  qed (use queued_slot [OF core(1)] q(2) that in auto)
  moreover have "list_all (\<lambda>c. length (ch_buffer c) = CHANNEL_CAPACITY \<and> ch_head c < CHANNEL_CAPACITY \<and>
      ch_len c \<le> CHANNEL_CAPACITY) (channels k)"
    using s(2) by (auto simp: chan_inv_def ch_wf_def ch_capacity_def list_all_iff)
  ultimately show ?thesis
    using room core(2) d(4) q(2) s(2,3)
    by (simp add: kernel_typed_def table_wf_def chan_inv_def frames_inv_def)
qed

end
