(* ===== verification/Syscall_Safety.thy ===== *)
theory Syscall_Safety
  imports Kernel_Invariant
begin

text \<open>
  Every system call and every trap keeps the kernel invariant: from a state that satisfies it, the
  dispatcher returns (it neither panics nor halts), resumes the task the new state calls current,
  and changes nothing of the other tasks' frames.
\<close>

section \<open>Buffers\<close>

definition in_range :: "usize \<times> usize \<Rightarrow> nat \<Rightarrow> bool" where
  "in_range r x \<longleftrightarrow> unat (fst r) \<le> x \<and> x < unat (snd r)"

lemma checked_add_Some:
  "checked_add a b = Some c \<longleftrightarrow> unat a + unat b < 2 ^ 32 \<and> unat c = unat a + unat b"
  by (auto simp: checked_add_def unat_add_u32 word_unat_eq_iff)

lemma byte_address:
  assumes "unat ptr + unat (len :: usize) < 2 ^ 32" and "i < unat len"
  shows "unat (ptr + of_nat i :: usize) = unat ptr + i"
  using assms by (simp add: unat_add_u32 unat_of_nat)

lemma range_contains:
  assumes "0 < n"
  shows "(\<forall>i < n. in_range r (p + i)) \<longleftrightarrow> unat (fst r) \<le> p \<and> p + n \<le> unat (snd r)"
proof
  assume all: "\<forall>i < n. in_range r (p + i)"
  have "in_range r (p + 0)" and "in_range r (p + (n - 1))"
    using all [rule_format, of 0] all [rule_format, of "n - 1"] assms by auto
  then show "unat (fst r) \<le> p \<and> p + n \<le> unat (snd r)" using assms by (auto simp: in_range_def)
qed (auto simp: in_range_def)

lemma buffer_readable_iff:
  "buffer_readable ptr len ranges \<longleftrightarrow>
   len = 0 \<or> unat ptr + unat len < 2 ^ 32 \<and>
   (\<exists>r \<in> set ranges. \<forall>i < unat len. in_range r (unat ptr + i))"
proof (cases "len = 0")
  case False
  then have n: "0 < unat len" by (simp add: unat_gt_0)
  show ?thesis
  proof (cases "checked_add ptr len")
    case None
    then show ?thesis using False by (auto simp: buffer_readable_def checked_add_def split: if_splits)
  next
    case (Some stop)
    then have "unat ptr + unat len < 2 ^ 32" "unat stop = unat ptr + unat len"
      unfolding checked_add_Some by auto
    with Some False show ?thesis
      unfolding range_contains [OF n]
      by (simp add: buffer_readable_def list_ex_iff word_le_nat_alt case_prod_beta)
  qed
qed (simp add: buffer_readable_def)

text \<open>
  C30: \<open>buffer_readable\<close> accepts a non-empty buffer exactly when its end does not wrap past the
  end of the address space and one single range contains all its bytes.
\<close>

theorem buffer_readable_exact:
  "buffer_readable ptr len ranges \<longleftrightarrow>
   len = 0 \<or> unat ptr + unat len < 2 ^ 32 \<and>
   (\<exists>r \<in> set ranges. \<forall>i < unat len. in_range r (unat ptr + i))"
  by (rule buffer_readable_iff)

theorem buffer_readable_exact_witness:
  "buffer_readable 0x1FF0 16 [(0x1000, 0x2000)] \<and> \<not> buffer_readable 0x1FF8 16 [(0x1000, 0x2000), (0x2000, 0x3000)]"
proof -
  have "buffer_readable 0x1FF0 16 [(0x1000, 0x2000)]"
    by (subst buffer_readable_exact) (simp add: in_range_def)
  moreover have "\<not> buffer_readable 0x1FF8 16 [(0x1000, 0x2000), (0x2000, 0x3000)]"
    by (simp add: buffer_readable_def checked_add_def)
  ultimately show ?thesis by blast
qed

lemma readable_bytes:
  assumes "buffer_readable ptr len ranges" and "i < unat len"
  shows "\<exists>r \<in> set ranges. in_range r (unat (ptr + of_nat i))"
proof -
  have "len \<noteq> 0" using assms(2) by auto
  with assms obtain r where "unat ptr + unat len < 2 ^ 32" "r \<in> set ranges" "in_range r (unat ptr + i)"
    by (auto simp: buffer_readable_iff)
  with byte_address [OF this(1) assms(2)] show ?thesis by auto
qed

section \<open>Channel system calls\<close>

lemma channel_lookup:
  assumes "chan_inv (channels k)" and "channel_at (channels k) (unat (ch :: usize)) = Some chan"
  shows "unat (ucast ch :: u8) = unat ch" "unat ch < MAX_CHANNELS" "channels k ! unat ch = chan"
    "ch_wf chan" "ch_capacity chan = CHANNEL_CAPACITY" "\<forall>m \<in> set (ch_contents chan). msg_wf m"
proof -
  show c: "unat ch < MAX_CHANNELS" "channels k ! unat ch = chan"
    using assms by (auto simp: channel_at_def chan_inv_def split: if_splits)
  show "unat (ucast ch :: u8) = unat ch"
    using c(1) by (simp add: unsigned_ucast_eq take_bit_nat_eq_self)
  have "chan \<in> set (channels k)" using assms c by (auto simp: chan_inv_def)
  then show "ch_wf chan" "ch_capacity chan = CHANNEL_CAPACITY" "\<forall>m \<in> set (ch_contents chan). msg_wf m"
    using assms(1) by (auto simp: chan_inv_def)
qed

lemma current_owner:
  assumes "sched_inv k" and "current_task k = Some task"
  shows "sends_on (statics k) (unat (current_task_idx k)) c \<longleftrightarrow> mask_has (td_sends_mask task) c"
    and "receives_on (statics k) (unat (current_task_idx k)) c \<longleftrightarrow> mask_has (td_receives_mask task) c"
  using current_slot [OF assms(1)] assms(2)
  by (auto simp: sends_on_def receives_on_def current_task_def td_static_sel)

lemma message_of_bytes:
  assumes "length bs \<le> MSG_MAX"
  shows "\<exists>m. message_from_bytes bs = Some m \<and> msg_wf m \<and> message_bytes m = Inr bs"
  using assms by (simp add: message_from_bytes_def msg_wf_def message_bytes_def unat_of_nat)

lemma message_bytes_ok: "msg_wf m \<Longrightarrow> \<exists>bs. message_bytes m = Inr bs"
  by (simp add: msg_wf_def message_bytes_def)

lemma mem_id: "k\<lparr>channels := chs, mem := mem k\<rparr> = (k\<lparr>channels := chs\<rparr> :: kernel)"
  by (cases k) simp

text \<open>The result of a system call: it returns, to the task that is now current, and serves.\<close>

definition returns :: "platform \<Rightarrow> kernel \<Rightarrow> (usize \<times> kernel) res \<Rightarrow> (kernel \<Rightarrow> bool) \<Rightarrow> bool" where
  "returns pf k r Q \<longleftrightarrow>
     (\<exists>k'. r = Inr (frame_of (current_task_idx k') k', k') \<and> served pf k k' \<and> Q k')"

text \<open>A call that touches neither user memory nor channels, and the effects any call may have on them.\<close>

definition quiet :: "kernel \<Rightarrow> kernel \<Rightarrow> bool" where
  "quiet k k' \<longleftrightarrow> mem k' = mem k \<and> channels k' = channels k"

definition writes_within :: "task_descriptor \<Rightarrow> memory \<Rightarrow> memory \<Rightarrow> bool" where
  "writes_within task m m' \<longleftrightarrow>
     (\<forall>a. m' a \<noteq> m a \<longrightarrow> (\<exists>r \<in> set (writable_ranges task). in_range r (unat a)))"

definition channel_moves :: "task_descriptor \<Rightarrow> message channel list \<Rightarrow> message channel list \<Rightarrow> bool" where
  "channel_moves task chs chs' \<longleftrightarrow>
     chs' = chs \<or>
     (\<exists>c < MAX_CHANNELS. \<exists>ch' m. chs' = chs[c := ch'] \<and>
        (mask_has (td_sends_mask task) c \<and> ch_contents ch' = ch_contents (chs ! c) @ [m] \<or>
         mask_has (td_receives_mask task) c \<and> ch_contents (chs ! c) = m # ch_contents ch'))"

definition effects :: "task_descriptor \<Rightarrow> kernel \<Rightarrow> kernel \<Rightarrow> bool" where
  "effects task k k' \<longleftrightarrow>
     writes_within task (mem k) (mem k') \<and> channel_moves task (channels k) (channels k')"

text \<open>The value the call leaves in \<open>a0\<close> of the frame.\<close>

definition answered :: "usize \<Rightarrow> usize \<Rightarrow> kernel \<Rightarrow> kernel \<Rightarrow> bool" where
  "answered frame v k k' \<longleftrightarrow>
     (\<exists>f. frames k frame = Some f \<and> frames k' frame = Some (f\<lparr>regs := (regs f)[REG_A0 := v]\<rparr>))"

lemma quiet_effects: "quiet k k' \<Longrightarrow> effects task k k'"
  by (simp add: quiet_def effects_def writes_within_def channel_moves_def)

lemma ret_returns:
  assumes "kernel_inv pf k" and "frame = frame_of (current_task_idx k) k"
  shows "returns pf k (ret frame v k) (\<lambda>k'. quiet k k' \<and> answered frame v k k')"
proof -
  obtain f where f: "frames k frame = Some f" using current_frame(2) [OF assms(1)] assms(2) by auto
  from ret_served [OF assms, of k v] local_served ret_value [OF f, of v] f show ?thesis
    by (auto simp: returns_def quiet_def answered_def)
qed

lemma returns_mono: "returns pf k r Q \<Longrightarrow> (\<And>k'. Q k' \<Longrightarrow> Q' k') \<Longrightarrow> returns pf k r Q'"
  by (auto simp: returns_def)

lemma block_returns:
  assumes "kernel_inv pf k" and "frame = frame_of (current_task_idx k) k"
    and "wait_owner (statics k) (unat (current_task_idx k)) reason" and "must_wait (channels k) reason"
    and "available n k" and "n \<noteq> unat (current_task_idx k)"
  shows "returns pf k (block_and_restart pf frame reason k) (quiet k)"
proof -
  have "pq_bag (ready_queue k) \<noteq> {#}"
    using queue_nonempty [OF _ assms(5,6)] assms(1) by (simp add: kernel_inv_def)
  from block_and_restart_served [OF assms(1-4) this] show ?thesis by (auto simp: returns_def quiet_def)
qed

text \<open>Sending when nothing stands in the way: the message joins the channel, the receiver is woken.\<close>

lemma sys_send_room:
  assumes k: "kernel_inv pf k" and frame: "frame = frame_of (current_task_idx k) k"
    and task: "current_task k = Some task" and chan: "channel_at (channels k) (unat ch) = Some chan"
    and guards: "holds_endpoint (td_sends_mask task) ch" "unat len \<le> MSG_MAX"
      "buffer_readable ptr len (readable_ranges pf task)" "\<not> ch_is_full chan"
  shows "returns pf k (sys_send pf frame ch ptr len flags k) (\<lambda>k'. mem k' = mem k \<and>
           (\<exists>chan' m. channels k' = (channels k)[unat ch := chan'] \<and> ch_wf chan' \<and>
              ch_contents chan' = ch_contents chan @ [m] \<and>
              message_bytes m = Inr (read_bytes (mem k) ptr (unat len))) \<and>
           (\<exists>f. frames k frame = Some f \<and> frames k' frame = Some (f\<lparr>regs := (regs f)[REG_A0 := 0]\<rparr>)) \<and>
           (\<forall>i < MAX_TASKS. waits k' ! i =
              (if waits_for (Receive (ucast ch)) k i then None else waits k ! i)))"
proof -
  have ki: "sched_inv k" "chan_inv (channels k)" using k by (simp_all add: kernel_inv_def)
  note c = channel_lookup [OF ki(2) chan]
  have "length (read_bytes (mem k) ptr (unat len)) \<le> MSG_MAX" using guards(2) by (simp add: read_bytes_def)
  from message_of_bytes [OF this] obtain m where
    m: "message_from_bytes (read_bytes (mem k) ptr (unat len)) = Some m" "msg_wf m"
      "message_bytes m = Inr (read_bytes (mem k) ptr (unat len))" by blast
  have "length (ch_contents chan) \<noteq> ch_capacity chan" using guards(4) by (simp add: ch_is_full_def)
  with ring.send_room [OF c(4), of m] obtain chan' where
    s: "try_send chan m = Inr (Sent, chan')" "ch_wf chan'" "ch_contents chan' = ch_contents chan @ [m]"
      "ch_capacity chan' = ch_capacity chan" by blast
  have reason: "Receive (ucast ch) = Receive (ucast ch :: u8) \<and> \<not> ch_is_full (channels k ! unat (ucast ch :: u8)) \<or>
      Receive (ucast ch) = Send (ucast ch :: u8) \<and> \<not> ch_is_empty (channels k ! unat (ucast ch :: u8))"
    using c guards(4) by simp
  have "\<forall>x \<in> set (ch_contents chan'). msg_wf x" using s(3) m(2) c(6) by auto
  from channel_op_served [OF k frame _ s(2) _ this reason, of 0 "mem k"] c s(4) obtain k' f where
    k': "bind_res (ret frame 0 (k\<lparr>channels := (channels k)[unat ch := chan']\<rparr>)) (\<lambda>(_, k1).
           bind_res (wake_blocked_on (Receive (ucast ch)) k1) (\<lambda>(_, k2). preempt_if_outranked pf frame k2)) =
         Inr (frame_of (current_task_idx k') k', k')" "served pf k k'" "mem k' = mem k"
      "channels k' = (channels k)[unat ch := chan']"
      "\<forall>i < MAX_TASKS. waits k' ! i = (if waits_for (Receive (ucast ch)) k i then None else waits k ! i)"
      "frames k frame = Some f" "frames k' frame = Some (f\<lparr>regs := (regs f)[REG_A0 := 0]\<rparr>)"
    by (auto simp: mem_id)
  have "sys_send pf frame ch ptr len flags k = Inr (frame_of (current_task_idx k') k', k')"
    using task chan guards m(1) s(1) k'(1) by (simp add: sys_send_def)
  with k'(2-7) s(2,3) m(3) show ?thesis unfolding returns_def by blast
qed

lemma channel_moves_send:
  assumes "c < MAX_CHANNELS \<and> mask_has (td_sends_mask task) c" and "chs' = chs[c := ch']" and "chs ! c = chan"
    and "ch_contents ch' = ch_contents chan @ [m]"
  shows "channel_moves task chs chs'"
  using assms unfolding channel_moves_def by blast

lemma channel_moves_receive:
  assumes "c < MAX_CHANNELS \<and> mask_has (td_receives_mask task) c" and "chs' = chs[c := ch']" and "chs ! c = chan"
    and "ch_contents chan = m # ch_contents ch'"
  shows "channel_moves task chs chs'"
  using assms unfolding channel_moves_def by blast

lemma sys_send_returns:
  assumes k: "kernel_inv pf k" and frame: "frame = frame_of (current_task_idx k) k"
    and idle: "available n k" "n \<noteq> unat (current_task_idx k)" and task: "current_task k = Some task"
  shows "returns pf k (sys_send pf frame ch ptr len flags k) (effects task k)"
proof -
  have ki: "sched_inv k" "chan_inv (channels k)" using k by (simp_all add: kernel_inv_def)
  have ret: "returns pf k (ret frame v k) (effects task k)" for v
    by (rule returns_mono [OF ret_returns [OF k frame]]) (blast intro: quiet_effects)
  show ?thesis
  proof (cases "channel_at (channels k) (unat ch)")
    case None
    with task ret show ?thesis by (simp add: sys_send_def)
  next
    case (Some chan)
    note c = channel_lookup [OF ki(2) Some]
    show ?thesis
    proof (cases "holds_endpoint (td_sends_mask task) ch \<and> unat len \<le> MSG_MAX \<and>
        buffer_readable ptr len (readable_ranges pf task)")
      case False
      with task Some ret show ?thesis by (auto simp: sys_send_def)
    next
      case True
      show ?thesis
      proof (cases "ch_is_full chan")
        case False
        have own: "unat ch < MAX_CHANNELS \<and> mask_has (td_sends_mask task) (unat ch)"
          using True c(2) by (simp add: holds_endpoint_def)
        from False True sys_send_room [OF k frame task Some, of len ptr flags] show ?thesis
          by (auto elim!: returns_mono simp: effects_def writes_within_def intro!: channel_moves_send [OF own] c(3))
      next
        case full: True
        have "wait_owner (statics k) (unat (current_task_idx k)) (Send (ucast ch))"
          using current_owner(1) [OF ki(1) task] c True by (simp add: holds_endpoint_def)
        then have "returns pf k (block_and_restart pf frame (Send (ucast ch)) k) (effects task k)"
          using full c by (intro returns_mono [OF block_returns [OF k frame _ _ idle] quiet_effects]) simp_all
        with task Some True full ret show ?thesis by (simp add: sys_send_def)
      qed
    qed
  qed
qed

text \<open>Memory changes only inside the caller's own writable ranges.\<close>

lemma write_bytes_outside:
  assumes "\<And>i. i < length bs \<Longrightarrow> a \<noteq> ptr + of_nat i"
  shows "write_bytes ptr bs m a = m a"
  using assms
proof (induction bs arbitrary: ptr m)
  case (Cons b bs)
  have ne: "a \<noteq> ptr" using Cons.prems [of 0] by simp
  have "a \<noteq> ptr + 1 + of_nat i" if "i < length bs" for i
    using Cons.prems [of "Suc i"] that by (simp add: add.assoc)
  then have "write_bytes (ptr + 1) bs (m(ptr := b)) a = (m(ptr := b)) a" by (rule Cons.IH)
  also have "\<dots> = m a" using ne by simp
  finally show ?case by simp
qed simp

lemma receive_writes_within:
  assumes "buffer_readable ptr cap (writable_ranges task)" and "n \<le> unat cap"
  shows "writes_within task m (write_bytes ptr (take n bs) m)"
  unfolding writes_within_def
proof (intro allI impI)
  fix a assume "write_bytes ptr (take n bs) m a \<noteq> m a"
  then obtain i where "i < length (take n bs)" "a = ptr + of_nat i"
    using write_bytes_outside [of "take n bs" a ptr m] by blast
  with readable_bytes [OF assms(1), of i] assms(2)
  show "\<exists>r \<in> set (writable_ranges task). in_range r (unat a)" by simp
qed

lemma writes_within_refl [simp]: "writes_within task m m" by (simp add: writes_within_def)

text \<open>Receiving from a channel that holds a message.\<close>

lemma sys_receive_some:
  assumes k: "kernel_inv pf k" and frame: "frame = frame_of (current_task_idx k) k"
    and task: "current_task k = Some task" and chan: "channel_at (channels k) (unat ch) = Some chan"
    and guards: "holds_endpoint (td_receives_mask task) ch" "buffer_readable ptr cap (writable_ranges task)"
    and msg: "ch_contents chan = msg # rest" and bytes: "message_bytes msg = Inr bytes"
  shows "returns pf k (sys_receive pf frame ch ptr cap flags k) (\<lambda>k'.
           mem k' = write_bytes ptr (take (min (length bytes) (unat cap)) bytes) (mem k) \<and>
           (\<exists>chan'. channels k' = (channels k)[unat ch := chan'] \<and> ch_wf chan' \<and> ch_contents chan' = rest) \<and>
           (\<exists>f. frames k frame = Some f \<and>
              frames k' frame = Some (f\<lparr>regs := (regs f)[REG_A0 := of_nat (length bytes)]\<rparr>)) \<and>
           (\<forall>i < MAX_TASKS. waits k' ! i =
              (if waits_for (Send (ucast ch)) k i then None else waits k ! i)))"
proof -
  have ki: "sched_inv k" "chan_inv (channels k)" using k by (simp_all add: kernel_inv_def)
  note c = channel_lookup [OF ki(2) chan]
  from ring.receive_some [OF c(4) msg] obtain chan' where
    s: "try_receive chan = Inr (Some msg, chan')" "ch_wf chan'" "ch_contents chan' = rest"
      "ch_capacity chan' = ch_capacity chan" by blast
  have "ch_len chan \<noteq> 0" using msg by (metis ch_contents_length length_0_conv list.discI)
  then have ne: "\<not> ch_is_empty chan" by (simp add: ch_is_empty_def)
  have reason: "Send (ucast ch) = Receive (ucast ch :: u8) \<and> \<not> ch_is_full (channels k ! unat (ucast ch :: u8)) \<or>
      Send (ucast ch) = Send (ucast ch :: u8) \<and> \<not> ch_is_empty (channels k ! unat (ucast ch :: u8))"
    using c ne by simp
  let ?m = "write_bytes ptr (take (min (length bytes) (unat cap)) bytes) (mem k)"
  have "\<forall>x \<in> set (ch_contents chan'). msg_wf x" using s(3) msg c(6) by auto
  from channel_op_served [OF k frame _ s(2) _ this reason, of "of_nat (length bytes)" ?m] c s(4) obtain k' f where
    k': "bind_res (ret frame (of_nat (length bytes)) (k\<lparr>channels := (channels k)[unat ch := chan'], mem := ?m\<rparr>))
           (\<lambda>(_, k1). bind_res (wake_blocked_on (Send (ucast ch)) k1) (\<lambda>(_, k2). preempt_if_outranked pf frame k2)) =
         Inr (frame_of (current_task_idx k') k', k')" "served pf k k'" "mem k' = ?m"
      "channels k' = (channels k)[unat ch := chan']" "frames k frame = Some f"
      "frames k' frame = Some (f\<lparr>regs := (regs f)[REG_A0 := of_nat (length bytes)]\<rparr>)"
      "\<forall>i < MAX_TASKS. waits k' ! i = (if waits_for (Send (ucast ch)) k i then None else waits k ! i)"
    by auto
  have "sys_receive pf frame ch ptr cap flags k = Inr (frame_of (current_task_idx k') k', k')"
    using task chan guards s(1) bytes k'(1) by (simp add: sys_receive_def Let_def)
  with k'(2-7) s(2,3) show ?thesis unfolding returns_def by blast
qed

lemma sys_receive_returns:
  assumes k: "kernel_inv pf k" and frame: "frame = frame_of (current_task_idx k) k"
    and idle: "available n k" "n \<noteq> unat (current_task_idx k)" and task: "current_task k = Some task"
  shows "returns pf k (sys_receive pf frame ch ptr cap flags k) (effects task k)"
proof -
  have ki: "sched_inv k" "chan_inv (channels k)" using k by (simp_all add: kernel_inv_def)
  have ret: "returns pf k (ret frame v k) (effects task k)" for v
    by (rule returns_mono [OF ret_returns [OF k frame]]) (blast intro: quiet_effects)
  show ?thesis
  proof (cases "channel_at (channels k) (unat ch)")
    case None
    with task ret show ?thesis by (simp add: sys_receive_def)
  next
    case (Some chan)
    note c = channel_lookup [OF ki(2) Some]
    show ?thesis
    proof (cases "holds_endpoint (td_receives_mask task) ch \<and> buffer_readable ptr cap (writable_ranges task)")
      case False
      with task Some ret show ?thesis by (auto simp: sys_receive_def)
    next
      case True
      show ?thesis
      proof (cases "ch_contents chan")
        case (Cons msg rest)
        then obtain bytes where "message_bytes msg = Inr bytes" using c(6) message_bytes_ok by auto
        moreover have own: "unat ch < MAX_CHANNELS \<and> mask_has (td_receives_mask task) (unat ch)"
          using True c(2) by (simp add: holds_endpoint_def)
        ultimately show ?thesis
          using sys_receive_some [OF k frame task Some _ _ Cons, of ptr cap bytes flags] True Cons
            receive_writes_within [of ptr cap task "min (length bytes) (unat cap)" "mem k" bytes]
          by (auto elim!: returns_mono simp: effects_def intro!: channel_moves_receive [OF own] c(3))
      next
        case Nil
        have r: "try_receive chan = Inr (None, chan)" by (rule ring.receive_empty [OF c(4) Nil])
        have same: "k\<lparr>channels := (channels k)[unat ch := chan]\<rparr> = k" using c(3) by (cases k) auto
        have "ch_len chan = 0" using Nil by (metis ch_contents_length list.size(3))
        then have "must_wait (channels k) (Receive (ucast ch))" using c by (simp add: ch_is_empty_def)
        moreover have "wait_owner (statics k) (unat (current_task_idx k)) (Receive (ucast ch))"
          using current_owner(2) [OF ki(1) task] c True by (simp add: holds_endpoint_def)
        ultimately have "returns pf k (block_and_restart pf frame (Receive (ucast ch)) k) (effects task k)"
          by (intro returns_mono [OF block_returns [OF k frame _ _ idle] quiet_effects])
        with task Some True r ret same show ?thesis by (simp add: sys_receive_def Let_def)
      qed
    qed
  qed
qed

section \<open>The dispatcher\<close>

lemma sched_returns:
  assumes k: "kernel_inv pf k" and frame: "frame = frame_of (current_task_idx k) k"
    and op: "\<And>k1. kernel_inv pf k1 \<Longrightarrow> frame = frame_of (current_task_idx k1) k1 \<Longrightarrow> sched_same k k1 \<Longrightarrow>
       \<exists>k'. f k1 = Inr (frame_of (current_task_idx k') k', k') \<and> switched pf k1 k' \<and>
            (waits k' = waits k1 \<or> (\<exists>w. waits k' = (waits k1)[unat (current_task_idx k) := Some (Sleep, w)]))"
  shows "returns pf k (bind_res (ret frame v k) (\<lambda>(_, k1). f k1)) (\<lambda>k'. quiet k k' \<and> answered frame v k k')"
proof -
  obtain f0 where f0: "frames k frame = Some f0" using current_frame(2) [OF k] frame by auto
  obtain k1 where k1: "ret frame v k = Inr (frame, k1)" "local_change k k1" "kernel_inv pf k1" "mem k1 = mem k"
    "frame_of (current_task_idx k1) k1 = frame" "channels k1 = channels k" "answered frame v k k1"
    using ret_served [OF k frame, of k v] ret_value [OF f0, of v] f0 by (auto simp: answered_def)
  have "sched_same k k1" using k1(2) by (simp add: local_change_def)
  with op [OF k1(3)] k1(5) obtain k' where
    k': "f k1 = Inr (frame_of (current_task_idx k') k', k')" "switched pf k1 k'"
      "waits k' = waits k1 \<or> (\<exists>w. waits k' = (waits k1)[unat (current_task_idx k) := Some (Sleep, w)])"
    by auto
  have len: "length (waits k1) = MAX_TASKS"
    using k1(3) length_waits by (simp add: kernel_inv_def sched_inv_def)
  have "waits k1 ! i = Some (r, w) \<or> r = Sleep" if "i < MAX_TASKS" "waits k' ! i = Some (r, w)" for i r w
    using k'(3) that len by (cases "i = unat (current_task_idx k)") auto
  then have inv: "kernel_inv pf k'"
    by (intro kernel_inv_resumed [OF k1(3) switched_resumed [OF k'(2)]]) fastforce
  have kc: "kept k1 k'" "clint k' = clint k1" using k'(2) by (auto simp: switched_def)
  have "waits k' ! n = waits k1 ! n" if "n \<noteq> unat (current_task_idx k)" for n
    using k'(3) that by auto
  then have "served pf k k'" by (intro served_intro [OF k1(2) inv kc])
  with k1 k' kc show ?thesis by (auto simp: returns_def kept_def quiet_def answered_def)
qed

lemma sys_log_state:
  "\<exists>v out. sys_log pf ptr len k = (v, k\<lparr>uart := out\<rparr>)"
proof -
  have "\<exists>out. k = k\<lparr>uart := out\<rparr>" by (intro exI [of _ "uart k"]) simp
  then show ?thesis by (auto simp: sys_log_def split: option.splits)
qed

lemma log_returns:
  assumes k: "kernel_inv pf k" and frame: "frame = frame_of (current_task_idx k) k"
  shows "returns pf k (let (v, k1) = sys_log pf ptr len k in ret frame v k1)
           (\<lambda>k'. quiet k k' \<and> answered frame (fst (sys_log pf ptr len k)) k k')"
proof -
  obtain f where f: "frames k frame = Some f" using current_frame(2) [OF k] frame by auto
  obtain v out where log: "sys_log pf ptr len k = (v, k\<lparr>uart := out\<rparr>)" using sys_log_state by blast
  have "sched_same k (k\<lparr>uart := out\<rparr>)" by (simp add: sched_same_def)
  with ret_served [OF k frame this, of v] local_served log ret_value [of "k\<lparr>uart := out\<rparr>" frame f v] f show ?thesis
    by (auto simp: returns_def quiet_def answered_def)
qed

lemma yield_returns:
  assumes k: "kernel_inv pf k" and frame: "frame = frame_of (current_task_idx k) k"
  shows "returns pf k (bind_res (ret frame v k) (\<lambda>(_, k1). yield_current pf frame k1))
           (\<lambda>k'. quiet k k' \<and> answered frame v k k')"
proof (rule sched_returns [OF k frame])
  fix k1 assume "kernel_inv pf k1" "frame = frame_of (current_task_idx k1) k1" "sched_same k k1"
  then show "\<exists>k'. yield_current pf frame k1 = Inr (frame_of (current_task_idx k') k', k') \<and> switched pf k1 k' \<and>
          (waits k' = waits k1 \<or> (\<exists>w. waits k' = (waits k1)[unat (current_task_idx k) := Some (Sleep, w)]))"
    using yield_current_inv [of k1 frame pf] by (auto simp: kernel_inv_def)
qed

lemma sleep_returns:
  assumes k: "kernel_inv pf k" and frame: "frame = frame_of (current_task_idx k) k"
    and idle: "available n k" "n \<noteq> unat (current_task_idx k)"
  shows "returns pf k (bind_res (ret frame v k) (\<lambda>(_, k1). sleep_current pf frame t k1))
           (\<lambda>k'. quiet k k' \<and> answered frame v k k')"
proof (rule sched_returns [OF k frame])
  fix k1 assume k1: "kernel_inv pf k1" "frame = frame_of (current_task_idx k1) k1" "sched_same k k1"
  have cur: "current_task_idx k1 = current_task_idx k" "available n k1" "sched_inv k1"
    using k1 idle sched_same_table(5) [OF k1(3)]
    by (auto simp: sched_same_def available_def kernel_inv_def)
  have "pq_bag (ready_queue k1) \<noteq> {#}" using queue_nonempty [OF cur(3,2)] cur(1) idle(2) by simp
  from sleep_current_inv [OF cur(3) k1(2) this, of pf t]
  show "\<exists>k'. sleep_current pf frame t k1 = Inr (frame_of (current_task_idx k') k', k') \<and> switched pf k1 k' \<and>
          (waits k' = waits k1 \<or> (\<exists>w. waits k' = (waits k1)[unat (current_task_idx k) := Some (Sleep, w)]))"
    unfolding cur(1) by blast
qed

lemma dispatch_returns:
  assumes k: "kernel_inv pf k" and frame: "frame = frame_of (current_task_idx k) k"
    and idle: "available n k" "n \<noteq> unat (current_task_idx k)" and task: "current_task k = Some task"
  shows "returns pf k (dispatch pf frame k) (effects task k)"
proof -
  obtain f where f: "frames k frame = Some f" "length (regs f) = 32"
    using current_frame(2) [OF k] frame by auto
  have weaken: "returns pf k r (\<lambda>k'. quiet k k' \<and> P k') \<Longrightarrow> returns pf k r (effects task k)" for r P
    by (erule returns_mono) (blast intro: quiet_effects)
  show ?thesis
    using f frame weaken [OF ret_returns [OF k frame]] weaken [OF yield_returns [OF k frame]]
      weaken [OF sleep_returns [OF k frame idle]] weaken [OF log_returns [OF k frame]]
      sys_send_returns [OF k frame idle task] sys_receive_returns [OF k frame idle task]
    by (simp add: dispatch_def frame_at_def)
qed

end
