(* ===== verification/Kernel_Safety.thy ===== *)
theory Kernel_Safety
  imports Syscall_Safety
begin

text \<open>
  The kernel as a transition system. A step is a trap taken by the running task, handled by
  \<open>trap_handler\<close> on the frame the entry stub saved, or a change of memory by the running task where
  the machine lets it store, outside the memory of the kernel. The invariant is kept by every step; isolation of
  memory and frames, and the scheduling guarantees, follow for every reachable state.
\<close>

section \<open>Traps\<close>

lemma note_syscall_mode_state:
  "\<exists>m out. note_syscall_mode u k = Inr (k\<lparr>syscall_seen := m, uart := out\<rparr>)"
proof -
  have "\<exists>m out. k = k\<lparr>syscall_seen := m, uart := out\<rparr>"
    by (intro exI [of _ "syscall_seen k"] exI [of _ "uart k"]) simp
  then show ?thesis
    by (auto simp: note_syscall_mode_def Let_def uart_print_usize_eq)
qed

lemma served_from_local:
  assumes "local_change k k1" and "served pf k1 k2"
  shows "served pf k k2"
proof -
  have same: "sched_same k k1" using assms(1) by (simp add: local_change_def)
  have cur: "current_task_idx k1 = current_task_idx k" "task_count k1 = task_count k"
    using same by (simp_all add: sched_same_def)
  note st = sched_same_table [OF same]
  from assms show ?thesis by (simp add: served_def local_change_def st cur)
qed

definition is_ecall :: "trap_frame \<Rightarrow> bool" where
  "is_ecall f \<longleftrightarrow> mcause f = 8 \<or> mcause f = 11"

definition is_timer :: "trap_frame \<Rightarrow> bool" where
  "is_timer f \<longleftrightarrow> mcause f = 0x80000007"

text \<open>The state as the entry stub leaves it: the interrupted registers are in the running task's frame.\<close>

definition saved :: "trap_frame \<Rightarrow> kernel \<Rightarrow> kernel" where
  "saved f k = k\<lparr>frames := (frames k)(frame_of (current_task_idx k) k \<mapsto> f)\<rparr>"

lemma saved_inv:
  assumes "kernel_inv pf k" and "length (regs f) = 32"
  shows "kernel_inv pf (saved f k)" "sched_same k (saved f k)" "local_change k (saved f k)"
proof -
  show same: "sched_same k (saved f k)" by (simp add: saved_def sched_same_def)
  then show "local_change k (saved f k)" by (simp add: local_change_def saved_def)
  show "kernel_inv pf (saved f k)"
    by (rule kernel_inv_local [OF assms(1) same]) (use assms(2) in \<open>simp_all add: saved_def\<close>)
qed

lemma ecall_returns:
  assumes k: "kernel_inv pf k" and f: "length (regs f) = 32" "is_ecall f"
    and idle: "available n k" "n \<noteq> unat (current_task_idx k)" and task: "current_task k = Some task"
  shows "returns pf k (trap_handler pf hw (frame_of (current_task_idx k) k) (saved f k))
           (effects task k)"
proof -
  let ?frame = "frame_of (current_task_idx k) k"
  define k1 where "k1 = saved (f\<lparr>mepc := mepc f + 4\<rparr>) k"
  obtain m out where note_eq: "note_syscall_mode (mcause f = 8) k1 = Inr (k1\<lparr>syscall_seen := m, uart := out\<rparr>)"
    using note_syscall_mode_state by blast
  define k2 where "k2 = k1\<lparr>syscall_seen := m, uart := out\<rparr>"
  have k1: "kernel_inv pf k1" "local_change k k1" "sched_same k k1"
    using saved_inv [OF k, of "f\<lparr>mepc := mepc f + 4\<rparr>"] f(1) by (simp_all add: k1_def)
  have v: "same_view k1 k2" by (simp add: k2_def)
  have same: "sched_same k k2" using k1(3) by (simp add: sched_same_def k2_def)
  note st = sched_same_table [OF same]
  have k2: "kernel_inv pf k2" "local_change k k2"
    using k1 same_view_table [OF v] same_view_inv [OF v]
    by (simp_all add: kernel_inv_def frames_inv_def wait_inv_def local_change_def k2_def sched_same_def)
  have cur: "current_task_idx k2 = current_task_idx k" "task_count k2 = task_count k"
    using same by (simp_all add: sched_same_def)
  have "available n k2" "n \<noteq> unat (current_task_idx k2)" "current_task k2 = Some task"
    "?frame = frame_of (current_task_idx k2) k2"
    using idle task by (simp_all add: available_def current_task_def st cur)
  from dispatch_returns [OF k2(1) this(4,1,2,3)]
  have "returns pf k2 (dispatch pf ?frame k2) (effects task k2)" .
  then have "returns pf k (dispatch pf ?frame k2) (effects task k2)"
    using served_from_local [OF k2(2)] by (auto simp: returns_def)
  moreover have "effects task k2 = effects task k"
    by (simp add: effects_def fun_eq_iff k2_def k1_def saved_def)
  moreover have "trap_handler pf hw ?frame (saved f k) = dispatch pf ?frame k2"
    using f(2) note_eq
    by (auto simp: trap_handler_def frame_at_def upd_frame_def saved_def k1_def k2_def is_ecall_def Let_def)
  ultimately show ?thesis by simp
qed

text \<open>The timer wakes exactly the sleepers whose tick has come and leaves everyone's frame and memory alone.\<close>

definition timed :: "platform \<Rightarrow> u64 \<Rightarrow> trap_frame \<Rightarrow> kernel \<Rightarrow> kernel \<Rightarrow> bool" where
  "timed pf mtime f k k' \<longleftrightarrow>
     kernel_inv pf k' \<and> statics k' = statics k \<and> task_count k' = task_count k \<and> mem k' = mem k \<and>
     channels k' = channels k \<and> frames k' = frames (saved f k) \<and>
     clint k' = snd (timer_isr mtime (clint k)) \<and>
     waits k' = map (\<lambda>w. if expired (tick_count (clint k')) w then None else w) (waits k)"

lemma stack_overflow_saved: "stack_overflow (saved f k) = stack_overflow k"
  by (simp add: stack_overflow_def fun_eq_iff saved_def task_ptr_def cong: option.case_cong)

lemma timer_returns:
  assumes k: "kernel_inv pf k" and f: "length (regs f) = 32" "is_timer f"
    and ok: "\<forall>i < task_count k. \<not> stack_overflow k i"
  shows "\<exists>k'. trap_handler pf hw (frame_of (current_task_idx k) k) (saved f k) =
                Inr (frame_of (current_task_idx k') k', k') \<and> timed pf (hw_mtime hw) f k k'"
proof -
  let ?frame = "frame_of (current_task_idx k) k"
  note sv = saved_inv [OF k f(1)] and st = sched_same_table [OF saved_inv(2) [OF k f(1)]]
  have cur: "current_task_idx (saved f k) = current_task_idx k" "task_count (saved f k) = task_count k"
    "mem (saved f k) = mem k" "channels (saved f k) = channels k" "clint (saved f k) = clint k"
    by (simp_all add: saved_def)
  have inv: "sched_inv (saved f k)" using sv(1) by (simp add: kernel_inv_def)
  have frame: "?frame = frame_of (current_task_idx (saved f k)) (saved f k)" by (simp add: st cur)
  have intact: "\<forall>i < task_count (saved f k). \<not> stack_overflow (saved f k) i"
    using ok by (simp add: stack_overflow_saved cur)
  obtain k' where
    k': "on_timer_interrupt pf (hw_entry hw) (hw_mtime hw) (hw_exit hw) ?frame (saved f k) =
          Inr (frame_of (current_task_idx k') k', k')" "resumed pf (saved f k) k'"
      "clint k' = snd (timer_isr (hw_mtime hw) (clint k))"
      "waits k' = map (\<lambda>w. if expired (tick_count (clint k')) w then None else w) (waits k)"
    using on_timer_interrupt_inv [OF inv frame intact, of pf "hw_entry hw" "hw_mtime hw" "hw_exit hw"]
    unfolding st(5) cur(5) by blast
  have len: "length (waits k) = MAX_TASKS"
    using k length_waits by (simp add: kernel_inv_def sched_inv_def)
  have "kernel_inv pf k'"
    using k'(4) len by (intro kernel_inv_resumed [OF sv(1) k'(2)]) (auto simp: st split: if_splits)
  then have "timed pf (hw_mtime hw) f k k'"
    using k'(2-4) st cur by (simp add: timed_def resumed_def kept_def)
  moreover have "trap_handler pf hw ?frame (saved f k) =
      on_timer_interrupt pf (hw_entry hw) (hw_mtime hw) (hw_exit hw) ?frame (saved f k)"
    using f(2) by (simp add: trap_handler_def frame_at_def saved_def is_timer_def Let_def)
  ultimately show ?thesis using k'(1) by auto
qed

lemma timer_stops:
  assumes k: "kernel_inv pf k" and f: "length (regs f) = 32" "is_timer f"
    and bad: "i < task_count k" "stack_overflow k i"
  shows "\<exists>j. trap_handler pf hw (frame_of (current_task_idx k) k) (saved f k) = Inl (StackCanaryOverwritten j) \<and>
             j < task_count k \<and> stack_overflow k j"
proof -
  let ?frame = "frame_of (current_task_idx k) k"
  note st = sched_same_table [OF saved_inv(2) [OF k f(1)]]
  have cur: "current_task_idx (saved f k) = current_task_idx k" "task_count (saved f k) = task_count k"
    "mem (saved f k) = mem k" by (simp_all add: saved_def)
  have "i \<in> set (filter (stack_overflow k) [0..<task_count k])" using bad by simp
  then obtain j js where js: "filter (stack_overflow k) [0..<task_count k] = j # js"
    by (cases "filter (stack_overflow k) [0..<task_count k]") auto
  then have "j \<in> set (filter (stack_overflow k) [0..<task_count k])" by simp
  moreover have "trap_handler pf hw ?frame (saved f k) =
      on_timer_interrupt pf (hw_entry hw) (hw_mtime hw) (hw_exit hw) ?frame (saved f k)"
    using f(2) by (simp add: trap_handler_def frame_at_def saved_def is_timer_def Let_def)
  moreover have "\<dots> = Inl (StackCanaryOverwritten j)"
    using on_timer_interrupt_overflow [of ?frame "saved f k" j js] js by (simp add: stack_overflow_saved st cur)
  ultimately show ?thesis by auto
qed

lemma fault_and_halt_stops: "fault_and_halt f k = Inl (HardwareFault (mcause f) (mepc f) (mtval f))"
proof -
  have "\<forall>v out. \<exists>out'. uart_print_hex v out = Inr out'" using uart_print_hex_ok by blast
  then obtain hex where "\<And>v out. uart_print_hex v out = Inr (hex v out)" by metis
  then show ?thesis by (simp add: fault_and_halt_def fault_report_def Let_def uart_print_usize_eq)
qed

lemma code_without_top_bit:
  assumes "drop_bit 31 w = 0"
  shows "w AND NOT (push_bit 31 1) = (w :: u32)"
proof (rule bit_word_eqI)
  fix i assume "i < LENGTH(32)"
  moreover have "\<not> bit w 31" by (simp only: bit_iff_odd_drop_bit assms) simp
  then have "\<not> (bit w i \<and> 31 \<le> i \<and> i - 31 = 0)" by (cases "i = 31") auto
  ultimately show "bit (w AND NOT (push_bit 31 1)) i \<longleftrightarrow> bit w i"
    by (auto simp only: bit_and_iff bit_not_iff bit_push_bit_iff bit_1_iff possible_bit_word)
qed

lemma exception_halts:
  assumes "mcause f < 8"
  shows "trap_handler pf hw (frame_of (current_task_idx k) k) (saved f k) =
         Inl (HardwareFault (mcause f) (mepc f) (mtval f))"
proof -
  have "unat (mcause f) < 8" using assms by (simp add: word_less_nat_alt)
  then have d: "drop_bit 31 (mcause f) = 0"
    by (simp only: unat_eq_zero [symmetric] unat_drop_bit_eq) (simp add: drop_bit_nat_def)
  note d code_without_top_bit [OF d]
  moreover have "mcause f \<noteq> 8" "mcause f \<noteq> 11" using assms by auto
  ultimately show ?thesis
    by (simp add: trap_handler_def frame_at_def saved_def Let_def fault_and_halt_stops)
qed

section \<open>The transition system\<close>

definition may_store :: "kernel \<Rightarrow> usize \<Rightarrow> bool" where
  "may_store k a \<longleftrightarrow>
     (case current_task k of
        None \<Rightarrow> False
      | Some t \<Rightarrow> td_mode t = User \<longrightarrow> user_perms (pmp k) (unat a) AND PMP_W \<noteq> 0)"

text \<open>
  The machine lets the running task store at an address: a task in machine mode anywhere, since no
  protection entry is locked, a task in user mode where the protection registers grant it.

  A step of the system is a store of the running task outside the memory of the kernel, a system call or
  a timer interrupt. \<open>idle\<close> is the slot of the idle task, whose body is a \<open>wfi\<close> loop: it makes no system call
  and stores nothing. What a store into the memory of the kernel does is the relation \<open>mstep\<close> below.
\<close>

inductive kstep :: "platform \<Rightarrow> nat \<Rightarrow> kernel \<Rightarrow> kernel \<Rightarrow> bool" for pf idle where
  store: "unat (current_task_idx k) \<noteq> idle \<Longrightarrow>
    (\<And>a. m a \<noteq> mem k a \<Longrightarrow> may_store k a \<and> \<not> kernel_data pf a) \<Longrightarrow> kstep pf idle k (k\<lparr>mem := m\<rparr>)"
| ecall: "is_ecall f \<Longrightarrow> length (regs f) = 32 \<Longrightarrow> unat (current_task_idx k) \<noteq> idle \<Longrightarrow>
    trap_handler pf hw (frame_of (current_task_idx k) k) (saved f k) = Inr (frame, k') \<Longrightarrow>
    kstep pf idle k k'"
| timer: "is_timer f \<Longrightarrow> length (regs f) = 32 \<Longrightarrow>
    trap_handler pf hw (frame_of (current_task_idx k) k) (saved f k) = Inr (frame, k') \<Longrightarrow>
    kstep pf idle k k'"

definition live :: "platform \<Rightarrow> nat \<Rightarrow> kernel \<Rightarrow> bool" where
  "live pf idle k \<longleftrightarrow> kernel_inv pf k \<and> available idle k"

declare live_def [kernel_invs]

lemma live_task: "live pf idle k \<Longrightarrow> \<exists>t. current_task k = Some t"
  using current_slot by (fastforce simp: kernel_invs current_task_def)

lemma live_idle_bound: "live pf idle k \<Longrightarrow> idle < MAX_TASKS"
  by (auto simp: live_def available_def kernel_inv_def dest!: sched_inv_wf(1)) (simp add: table_wf_def)

lemma timer_inr_ok:
  assumes "kernel_inv pf k" and "length (regs f) = 32" and "is_timer f"
    and "trap_handler pf hw (frame_of (current_task_idx k) k) (saved f k) = Inr (frame, k')"
  shows "frame = frame_of (current_task_idx k') k' \<and> timed pf (hw_mtime hw) f k k'"
proof -
  have "\<forall>i < task_count k. \<not> stack_overflow k i"
    using timer_stops [OF assms(1-3), of _ hw] assms(4) by auto
  from timer_returns [OF assms(1-3) this, of hw] assms(4) show ?thesis by auto
qed

lemma ecall_inr_ok:
  assumes "live pf idle k" and "length (regs f) = 32" and "is_ecall f" and "unat (current_task_idx k) \<noteq> idle"
    and "trap_handler pf hw (frame_of (current_task_idx k) k) (saved f k) = Inr (frame, k')"
    and "current_task k = Some task"
  shows "frame = frame_of (current_task_idx k') k' \<and> served pf k k' \<and> effects task k k'"
  using ecall_returns [of pf k f idle task hw] assms by (auto simp: live_def returns_def)

lemma kstep_live:
  assumes "kstep pf idle k k'" and live: "live pf idle k"
  shows "live pf idle k' \<and> statics k' = statics k \<and> task_count k' = task_count k"
  using assms(1)
proof (cases rule: kstep.cases)
  case (store m)
  have "sched_same k k'" by (simp add: store sched_same_def)
  from sched_same_table [OF this] sched_same_inv [OF this] live show ?thesis
    by (simp add: kernel_invs available_def frames_inv_def wait_inv_def store)
next
  case (ecall f hw frame)
  obtain task where "current_task k = Some task" using live_task [OF live] by blast
  from ecall_inr_ok [OF live ecall(2,1,3,4) this] have "served pf k k'" by blast
  with live live_idle_bound [OF live] ecall(3) show ?thesis
    by (auto simp: live_def served_def available_def undisturbed_def)
next
  case (timer f hw frame)
  have inv: "kernel_inv pf k" and len: "length (waits k) = MAX_TASKS"
    using live length_waits by (auto simp: kernel_invs sched_inv_def)
  from timer_inr_ok [OF inv timer(2,1,3)] have "timed pf (hw_mtime hw) f k k'" by blast
  with live live_idle_bound [OF live] len show ?thesis
    by (auto simp: live_def timed_def available_def)
qed

lemma reachable_live:
  assumes "(kstep pf idle)\<^sup>*\<^sup>* k k'" and "live pf idle k"
  shows "live pf idle k' \<and> statics k' = statics k \<and> task_count k' = task_count k"
  using assms(1)
proof (induction rule: rtranclp_induct)
  case (step k1 k2)
  with kstep_live [OF step.hyps(2)] show ?case by simp
qed (simp add: assms(2))

section \<open>Isolation\<close>

text \<open>A step changes memory only inside the writable ranges of the task that runs, and only that task's frame.\<close>

lemma store_in_region:
  assumes "pmp_feature pf" and "kernel_inv pf k" and t: "current_task k = Some t"
    and u: "td_mode t = User" and "expressible (td_memory_start t) (td_memory_end t)"
  shows "may_store k a \<longleftrightarrow>
           in_range (td_memory_start t, td_memory_end t) (unat a) \<and> \<not> in_range (0x80000000, 0x80080000) (unat a)"
proof -
  have "pmp_holds t (pmp k)"
    using assms(1,2) t by (auto simp: kernel_inv_def pmp_tracks_def current_task_def)
  from user_perms_holds [OF this u assms(5)]
  have "may_store k a \<longleftrightarrow> task_view t (unat a) AND PMP_W \<noteq> 0" using t u by (simp add: may_store_def)
  also have "\<dots> \<longleftrightarrow>
      in_range (td_memory_start t, td_memory_end t) (unat a) \<and> \<not> in_range (0x80000000, 0x80080000) (unat a)"
    by (auto simp: task_view_def in_range_def pmp_consts)
  finally show ?thesis .
qed

lemma kstep_memory:
  assumes step: "kstep pf idle k k'" and live: "live pf idle k" and pmp: "pmp_feature pf"
    and t: "current_task k = Some t"
    and reg: "unat (current_task_idx k) \<noteq> idle \<Longrightarrow>
      td_mode t = User \<and> expressible (td_memory_start t) (td_memory_end t)"
    and a: "mem k' a \<noteq> mem k a"
  shows "\<exists>r \<in> set (writable_ranges t). in_range r (unat a)"
  using step
proof (cases rule: kstep.cases)
  case (store m)
  then have "may_store k a" using a by auto
  with store_in_region [OF pmp _ t] reg [OF store(2)] live show ?thesis by (simp add: live_def writable_ranges_def)
next
  case (ecall f hw frame)
  with ecall_inr_ok [OF live ecall(2,1,3,4) t] a show ?thesis by (auto simp: effects_def writes_within_def)
next
  case (timer f hw frame)
  with timer_inr_ok [of pf k f hw frame k'] live a show ?thesis by (auto simp: live_def timed_def)
qed

lemma kstep_frames:
  assumes step: "kstep pf idle k k'" and live: "live pf idle k" and p: "p \<noteq> frame_of (current_task_idx k) k"
  shows "frames k' p = frames k p"
  using step
proof (cases rule: kstep.cases)
  case (ecall f hw frame)
  obtain t where "current_task k = Some t" using live_task [OF live] by blast
  with ecall_inr_ok [OF live ecall(2,1,3,4)] p show ?thesis by (auto simp: served_def)
next
  case (timer f hw frame)
  with timer_inr_ok [of pf k f hw frame k'] live p show ?thesis by (auto simp: live_def timed_def saved_def)
qed simp

section \<open>Sleeping\<close>

lemma kstep_sleepers:
  assumes step: "kstep pf idle k k'" and live: "live pf idle k" and i: "i < MAX_TASKS"
    and w: "waits k ! i = Some (Sleep, d)"
  shows "clint k' = clint k \<and> waits k' ! i = Some (Sleep, d) \<or>
         tick_count (clint k') = tick_count (clint k) + 1 \<and>
         waits k' ! i = (if tick_reached (tick_count (clint k')) d then None else Some (Sleep, d))"
  using step
proof (cases rule: kstep.cases)
  case (store m)
  then show ?thesis using w by (simp add: waits_def)
next
  case (ecall f hw frame)
  obtain t where t: "current_task k = Some t" using live_task [OF live] by blast
  have "i \<noteq> unat (current_task_idx k)"
  proof
    assume "i = unat (current_task_idx k)"
    with w live current_slot [of k] waits_nth [of k i] i show False
      by (auto simp: kernel_invs sched_inv_def running_def wait_of_def)
  qed
  with ecall_inr_ok [OF live ecall(2,1,3,4) t] w i show ?thesis
    by (auto simp: served_def undisturbed_def)
next
  case (timer f hw frame)
  have inv: "kernel_inv pf k" and len: "length (waits k) = MAX_TASKS"
    using live length_waits by (auto simp: kernel_invs sched_inv_def)
  from timer_inr_ok [OF inv timer(2,1,3)] have "timed pf (hw_mtime hw) f k k'" by blast
  then show ?thesis
    using w i len by (auto simp: timed_def timer_isr_def expired_def Let_def)
qed

text \<open>Runs with a count of the timer interrupts in them.\<close>

inductive ksteps :: "platform \<Rightarrow> nat \<Rightarrow> nat \<Rightarrow> kernel \<Rightarrow> kernel \<Rightarrow> bool" for pf idle where
  start: "ksteps pf idle 0 k k"
| task: "ksteps pf idle n k k1 \<Longrightarrow> kstep pf idle k1 k2 \<Longrightarrow> clint k2 = clint k1 \<Longrightarrow> ksteps pf idle n k k2"
| tick: "ksteps pf idle n k k1 \<Longrightarrow> kstep pf idle k1 k2 \<Longrightarrow>
    tick_count (clint k2) = tick_count (clint k1) + 1 \<Longrightarrow> ksteps pf idle (Suc n) k k2"

lemma ksteps_live: "ksteps pf idle n k k' \<Longrightarrow> live pf idle k \<Longrightarrow> live pf idle k'"
  by (induction rule: ksteps.induct) (use kstep_live in blast)+

text \<open>A deadline up to \<open>2^31\<close> ticks away is reached when, and not before, that many ticks have passed.\<close>

lemma tick_reached_iff:
  assumes "0 < n" and "n \<le> 2 ^ 31" and "j \<le> n"
  shows "tick_reached (t + of_nat j) (t + of_nat n) \<longleftrightarrow> j = n"
proof -
  have b: "n < 2 ^ 32" "j < 2 ^ 32" using assms by auto
  have "(t + of_nat j) - (t + of_nat n) = (of_nat j - of_nat n :: u32)" by simp
  then have "tick_reached (t + of_nat j) (t + of_nat n) \<longleftrightarrow> unat (of_nat j - of_nat n :: u32) < 2 ^ 31"
    unfolding tick_reached_def by (simp only: sint_u32_nonneg)
  also have "\<dots> \<longleftrightarrow> j = n"
    using b assms by (auto simp: unat_sub_u32 unat_of_nat)
  finally show ?thesis .
qed

lemma sleep_run:
  assumes "ksteps pf idle e k k'" and "live pf idle k" and "i < MAX_TASKS"
    and "waits k ! i = Some (Sleep, tick_count (clint k) + of_nat n)" and "0 < n" and "n \<le> 2 ^ 31" and "e < n"
  shows "waits k' ! i = Some (Sleep, tick_count (clint k) + of_nat n) \<and>
         tick_count (clint k') = tick_count (clint k) + of_nat e"
  using assms
proof (induction rule: ksteps.induct)
  case (task e k k1 k2)
  then have "waits k1 ! i = Some (Sleep, tick_count (clint k) + of_nat n) \<and>
      tick_count (clint k1) = tick_count (clint k) + of_nat e" by blast
  with kstep_sleepers [OF task.hyps(2) ksteps_live [OF task.hyps(1)], of i] task.prems task.hyps(3)
  show ?case by auto
next
  case (tick e k k1 k2)
  then have k1: "waits k1 ! i = Some (Sleep, tick_count (clint k) + of_nat n)"
    "tick_count (clint k1) = tick_count (clint k) + of_nat e" by simp_all
  have now: "tick_count (clint k2) = tick_count (clint k) + of_nat (Suc e)"
    using tick.hyps(3) k1(2) by (simp add: ac_simps)
  have "\<not> tick_reached (tick_count (clint k2)) (tick_count (clint k) + of_nat n)"
    unfolding now using tick_reached_iff [OF tick.prems(4,5), of "Suc e" "tick_count (clint k)"] tick.prems(6)
    by simp
  moreover from kstep_sleepers [OF tick.hyps(2) ksteps_live [OF tick.hyps(1) tick.prems(1)] tick.prems(2) k1(1)]
  have "clint k2 = clint k1 \<or> waits k2 ! i = (if tick_reached (tick_count (clint k2))
      (tick_count (clint k) + of_nat n) then None else Some (Sleep, tick_count (clint k) + of_nat n))" by blast
  moreover have "clint k2 \<noteq> clint k1" using tick.hyps(3) by auto
  ultimately show ?case using now by simp
qed simp

lemma sleep_until_tick:
  assumes "ksteps pf idle e k k'" and "e = 0" and "live pf idle k" and "i < MAX_TASKS" and "waits k ! i = Some (Sleep, d)"
  shows "waits k' ! i = Some (Sleep, d) \<and> clint k' = clint k"
  using assms
proof (induction rule: ksteps.induct)
  case (task e k k1 k2)
  then have "waits k1 ! i = Some (Sleep, d)" "clint k1 = clint k" by blast+
  with kstep_sleepers [OF task.hyps(2) ksteps_live [OF task.hyps(1)], of i] task.prems task.hyps(3)
  show ?case by auto
qed simp_all

text \<open>A deadline more than \<open>2^31 + 1\<close> ticks away counts as reached one tick from now: the difference is signed.\<close>

lemma far_deadline_reached:
  assumes "2 ^ 31 + 1 < unat n"
  shows "tick_reached (t + 1) (t + max n 1)"
proof -
  have "1 \<le> n" using assms by (simp add: word_le_nat_alt)
  then have m: "max n 1 = n" by simp
  have "(t + 1) - (t + n) = 1 - n" by simp
  moreover have "unat (1 - n) < 2 ^ 31"
    using assms unat_u32_less [of n] by (simp add: unat_sub_u32)
  ultimately show ?thesis unfolding tick_reached_def m by (simp only: sint_u32_nonneg)
qed

lemma sleep_wakes:
  assumes run: "ksteps pf idle e k k'" and live: "live pf idle k" and i: "i < MAX_TASKS"
    and w: "waits k ! i = Some (Sleep, tick_count (clint k) + of_nat n)" and n: "n \<le> 2 ^ 31" "Suc e = n"
    and step: "kstep pf idle k' k''" "tick_count (clint k'') = tick_count (clint k') + 1"
  shows "waits k'' ! i = None"
proof -
  have k': "waits k' ! i = Some (Sleep, tick_count (clint k) + of_nat n)"
    "tick_count (clint k') = tick_count (clint k) + of_nat e"
    using sleep_run [OF run live i w _ n(1)] n(2) by auto
  then have "tick_count (clint k'') = tick_count (clint k) + of_nat n"
    using step(2) n(2) by (auto simp: ac_simps)
  then have "tick_reached (tick_count (clint k'')) (tick_count (clint k) + of_nat n)"
    using tick_reached_iff [OF _ n(1), of n "tick_count (clint k)"] n(2) by simp
  moreover have "clint k'' \<noteq> clint k'" using step(2) by auto
  ultimately show ?thesis using kstep_sleepers [OF step(1) ksteps_live [OF run live] i k'(1)] by auto
qed

lemma sleep_current_live:
  assumes live: "live pf idle k" and frame: "frame = frame_of (current_task_idx k) k"
    and cur: "unat (current_task_idx k) \<noteq> idle"
  shows "\<exists>k'. sleep_current pf frame n k = Inr (frame_of (current_task_idx k') k', k') \<and> live pf idle k' \<and>
           kept k k' \<and> clint k' = clint k \<and>
           waits k' ! unat (current_task_idx k) = Some (Sleep, tick_count (clint k) + max n 1)"
proof -
  have k: "kernel_inv pf k" "available idle k" "sched_inv k" using live by (auto simp: kernel_invs)
  have "pq_bag (ready_queue k) \<noteq> {#}" using queue_nonempty [OF k(3,2)] cur by simp
  from sleep_current_inv [OF k(3) frame this, of pf n] obtain k' where
    k': "sleep_current pf frame n k = Inr (frame_of (current_task_idx k') k', k')" "switched pf k k'"
      "waits k' = (waits k)[unat (current_task_idx k) := Some (Sleep, ticks (clint k) + max n 1)]" by blast
  have len: "length (waits k) = MAX_TASKS" "unat (current_task_idx k) < MAX_TASKS"
    using k(3) length_waits current_slot by (auto simp: sched_inv_def)
  have "waits k ! i = Some (r, w) \<or> r = Sleep" if "i < MAX_TASKS" "waits k' ! i = Some (r, w)" for i r w
    using k'(3) that len by (cases "i = unat (current_task_idx k)") auto
  then have "kernel_inv pf k'"
    by (intro kernel_inv_resumed [OF k(1) switched_resumed [OF k'(2)]]) fastforce
  moreover have "available idle k'"
    using k(2) k'(2,3) cur by (auto simp: available_def switched_def kept_def)
  ultimately show ?thesis
    using k' len by (auto simp: live_def switched_def ticks_def)
qed

end
