(* ===== verification/Boot.thy ===== *)
theory Boot
  imports Scheduler_Boot Kernel_Safety
begin

text \<open>
  The boot sequence (\<^verbatim>\<open>kernel/src/boot.rs\<close>), the generated task sets it registers
  (\<^verbatim>\<open>kernel/src/generated\<close>, \<^verbatim>\<open>kernel/src/demo\<close>) and the proof that every system that passes the boot
  checks starts in a state that satisfies the kernel invariant. Addresses the linker chooses, the
  version string and the hardware's reset state are parameters. The writes to \<open>mscratch\<close>, \<open>mtvec\<close>
  and \<open>mie\<close> have no counterpart in the state.
\<close>

section \<open>Generated task sets\<close>

record oml_config =
  oc_priority :: u8
  oc_stack_size :: u32
  oc_memory_start :: u32
  oc_memory_end :: u32
  oc_exclusive_cap_mask :: u32
  oc_shared_cap_mask :: u32
  oc_required_cap_mask :: u32
  oc_sends_mask :: u32
  oc_receives_mask :: u32

definition TASK_L :: oml_config where
  "TASK_L = \<lparr>oc_priority = 1, oc_stack_size = 4096, oc_memory_start = 0x800B8000, oc_memory_end = 0x800B9000,
     oc_exclusive_cap_mask = 0x00000001, oc_shared_cap_mask = 0x80000000, oc_required_cap_mask = 0,
     oc_sends_mask = 0, oc_receives_mask = 0\<rparr>"

definition TASK_M :: oml_config where
  "TASK_M = \<lparr>oc_priority = 2, oc_stack_size = 4096, oc_memory_start = 0x800B9000, oc_memory_end = 0x800BA000,
     oc_exclusive_cap_mask = 0, oc_shared_cap_mask = 0x80000000, oc_required_cap_mask = 0,
     oc_sends_mask = 0, oc_receives_mask = 0\<rparr>"

definition TASK_H :: oml_config where
  "TASK_H = \<lparr>oc_priority = 3, oc_stack_size = 4096, oc_memory_start = 0x800BA000, oc_memory_end = 0x800BB000,
     oc_exclusive_cap_mask = 0, oc_shared_cap_mask = 0x80000000, oc_required_cap_mask = 0x00000001,
     oc_sends_mask = 0, oc_receives_mask = 0\<rparr>"

definition SENSOR_READER :: oml_config where
  "SENSOR_READER = \<lparr>oc_priority = 3, oc_stack_size = 4096, oc_memory_start = 0x800B8000, oc_memory_end = 0x800B9000,
     oc_exclusive_cap_mask = 0x00000002, oc_shared_cap_mask = 0x80000000, oc_required_cap_mask = 0,
     oc_sends_mask = 0x1, oc_receives_mask = 0\<rparr>"

definition FILTER :: oml_config where
  "FILTER = \<lparr>oc_priority = 2, oc_stack_size = 4096, oc_memory_start = 0x800B9000, oc_memory_end = 0x800BA000,
     oc_exclusive_cap_mask = 0, oc_shared_cap_mask = 0x80000000, oc_required_cap_mask = 0,
     oc_sends_mask = 0x2, oc_receives_mask = 0x1\<rparr>"

definition UART_LOGGER :: oml_config where
  "UART_LOGGER = \<lparr>oc_priority = 1, oc_stack_size = 4096, oc_memory_start = 0x800BA000, oc_memory_end = 0x800BB000,
     oc_exclusive_cap_mask = 0x00000001, oc_shared_cap_mask = 0x80000000, oc_required_cap_mask = 0,
     oc_sends_mask = 0, oc_receives_mask = 0x2\<rparr>"

definition HML_MAX_INHERITED_PRIORITIES :: "u8 list" where
  "HML_MAX_INHERITED_PRIORITIES = [3, 2, 3, 0, 0, 0, 0, 0, 0, 0, 0, 0, 0, 0, 0, 0]"

definition PIPELINE_MAX_INHERITED_PRIORITIES :: "u8 list" where
  "PIPELINE_MAX_INHERITED_PRIORITIES = [3, 2, 1, 0, 0, 0, 0, 0, 0, 0, 0, 0, 0, 0, 0, 0]"

definition into_descriptor :: "oml_config \<Rightarrow> u8 \<Rightarrow> usize \<Rightarrow> usize \<Rightarrow> task_descriptor" where
  "into_descriptor c i stack_base entry =
     with_entry entry
       (with_channels (oc_sends_mask c) (oc_receives_mask c)
         (with_capabilities i (oc_priority c) stack_base (oc_stack_size c) (oc_memory_start c) (oc_memory_end c)
            (oc_exclusive_cap_mask c) (oc_shared_cap_mask c) (oc_required_cap_mask c)))"

section \<open>Boot environment\<close>

text \<open>The cargo features, the linker's addresses and the values read from the hardware during boot.\<close>

record boot_env =
  demo_hml :: bool
  fault_demo :: bool
  version :: string
  task_stack :: "nat \<Rightarrow> usize"
  task_entry :: "nat \<Rightarrow> usize"
  stack_rogue :: usize
  entry_rogue :: usize
  stack_idle :: usize
  entry_idle :: usize
  task_returned :: usize
  global_pointer :: usize
  stext :: usize
  sdata :: usize
  edata :: usize
  sbss :: usize
  ebss :: usize
  stack_start :: usize
  boot_mtime :: u64

text \<open>The statics before \<open>kernel_main\<close> runs, over the memory and registers as the reset left them.\<close>

definition initial_kernel :: "memory \<Rightarrow> pmp_regs \<Rightarrow> timer \<Rightarrow> frame_store \<Rightarrow> kernel" where
  "initial_kernel m r t fs =
     \<lparr>registry = replicate MAX_TASKS None, task_count = 0, ready_queue = pq_new MAX_TASKS,
      current_task_idx = NO_TASK, ticks_since_switch = 0, switch_statistics = switch_stats_new,
      syscall_seen = 0, clint = t, channels = channel_table, frames = fs, mem = m, uart = [], pmp = r\<rparr>"

definition IDLE_PRIORITY :: u8 where "IDLE_PRIORITY = 0"

text \<open>A run of \<open>uart_puts\<close>, \<open>uart_print_hex\<close> and \<open>uart_print_usize\<close> calls.\<close>

datatype print = Puts string | Hex usize | Usize usize

fun emit :: "print list \<Rightarrow> kernel \<Rightarrow> kernel res" where
  "emit [] k = Inr k"
| "emit (Puts s # ps) k = emit ps (k\<lparr>uart := uart_puts s (uart k)\<rparr>)"
| "emit (Hex v # ps) k = bind_res (uart_print_hex v (uart k)) (\<lambda>out. emit ps (k\<lparr>uart := out\<rparr>))"
| "emit (Usize v # ps) k = bind_res (uart_print_usize v (uart k)) (\<lambda>out. emit ps (k\<lparr>uart := out\<rparr>))"

abbreviation (input) nl :: string where "nl \<equiv> [CHR 0x0A]"

text \<open>The loop body and the loop.\<close>

definition check_placement :: "task_descriptor \<Rightarrow> kernel \<Rightarrow> kernel res" where
  "check_placement task k =
     (if td_mode task \<noteq> User then Inr k
      else
        let inside = td_stack_base task \<ge> td_memory_start task \<and>
                     td_stack_base task + td_stack_size task \<le> td_memory_end task
        in if \<not> inside then
             bind_res (emit
               [Puts ''MEMORY LAYOUT ERROR: task '', Usize (ucast (td_id task)), Puts '' stack at '',
                Hex (td_stack_base task), Puts '' is outside its OML region ['', Hex (td_memory_start task),
                Puts '', '', Hex (td_memory_end task),
                Puts ('')'' @ nl @ ''System halted. Fix tasks/demo_tasks.oml or kernel/memory.x.'' @ nl)] k)
             (\<lambda>_. Inl (MemoryLayoutError (td_id task)))
           else Inr k)"

definition check_region_placement :: "kernel \<Rightarrow> kernel res" where
  "check_region_placement k = fold_res check_placement (occupied (registry k)) k"

definition print_memory_map :: "boot_env \<Rightarrow> kernel \<Rightarrow> kernel res" where
  "print_memory_map env k =
     emit [Puts (''Memory map:'' @ nl),
           Puts ''  .text start : '', Hex (stext env), Puts nl,
           Puts ''  .data       : '', Hex (sdata env), Puts '' .. '',
           Hex (edata env), Puts '' ('', Usize (edata env - sdata env), Puts ('' bytes)'' @ nl),
           Puts ''  .bss        : '', Hex (sbss env), Puts '' .. '',
           Hex (ebss env), Puts '' ('', Usize (ebss env - sbss env), Puts ('' bytes)'' @ nl),
           Puts ''  stack top   : '', Hex (stack_start env), Puts nl] k"

definition print_task_registry :: "kernel \<Rightarrow> kernel res" where
  "print_task_registry k =
     bind_res (emit [Puts (''Task registry:'' @ nl)] k) (\<lambda>k1.
     fold_res (\<lambda>task.
       emit [Puts ''  task '', Usize (ucast (td_id task)), Puts ''  base_pri='', Usize (ucast (td_priority task)),
             Puts ''  mip='', Usize (ucast (td_max_inherited_priority task)),
             Puts ''  eff_pri='', Usize (ucast (effective_priority task)),
             Puts ''  excl_caps='', Hex (td_exclusive_cap_mask task),
             Puts ''  req_caps='', Hex (td_required_cap_mask task),
             Puts ''  mem=['', Hex (td_memory_start task), Puts '', '', Hex (td_memory_end task),
             Puts ('')'' @ nl)]) (occupied (registry k1)) k1)"

text \<open>\<open>claim_stack\<close> writes the canary; its result is the base address it was given.\<close>

definition claim_stack :: "usize \<Rightarrow> kernel \<Rightarrow> kernel" where
  "claim_stack base k = k\<lparr>mem := write_canary base (mem k)\<rparr>"

definition register_claimed :: "oml_config \<Rightarrow> u8 \<Rightarrow> usize \<Rightarrow> usize \<Rightarrow> kernel \<Rightarrow> kernel res" where
  "register_claimed c i stack_base entry k =
     register_task (into_descriptor c i stack_base entry) (claim_stack stack_base k)"

definition hml_register :: "boot_env \<Rightarrow> kernel \<Rightarrow> (u8 list \<times> kernel) res" where
  "hml_register env k =
     bind_res (register_claimed TASK_L 0 (task_stack env 0) (task_entry env 0) k) (\<lambda>k1.
     bind_res (register_claimed TASK_M 1 (task_stack env 1) (task_entry env 1) k1) (\<lambda>k2.
     bind_res (register_claimed TASK_H 2 (task_stack env 2) (task_entry env 2) k2) (\<lambda>k3.
       Inr (HML_MAX_INHERITED_PRIORITIES, k3))))"

definition pipeline_register :: "boot_env \<Rightarrow> kernel \<Rightarrow> (u8 list \<times> kernel) res" where
  "pipeline_register env k =
     bind_res (register_claimed SENSOR_READER 0 (task_stack env 0) (task_entry env 0) k) (\<lambda>k1.
     bind_res (register_claimed FILTER 1 (task_stack env 1) (task_entry env 1) k1) (\<lambda>k2.
     bind_res (register_claimed UART_LOGGER 2 (task_stack env 2) (task_entry env 2) k2) (\<lambda>k3.
       Inr (PIPELINE_MAX_INHERITED_PRIORITIES, k3))))"

definition register_tasks :: "boot_env \<Rightarrow> kernel \<Rightarrow> (u8 list \<times> kernel) res" where
  "register_tasks env k =
     bind_res (if demo_hml env then hml_register env k else pipeline_register env k) (\<lambda>(mip_table, k1).
     bind_res (if fault_demo env then
                 register_task
                   (with_entry (entry_rogue env)
                     (with_capabilities (of_nat (task_count k1)) 1 (stack_rogue env) 4096
                        0x800BB000 0x800BC000 0 CONSOLE_CAP_BIT 0))
                   (claim_stack (stack_rogue env) k1)
               else Inr k1) (\<lambda>k2.
     bind_res (register_task
                 (with_mode Machine
                   (with_entry (entry_idle env)
                     (task_new (of_nat (task_count k2)) IDLE_PRIORITY (stack_idle env) 1024 0 0))) k2) (\<lambda>k3.
       Inr (mip_table, k3))))"

text \<open>The middle of \<open>kernel_main\<close>, from the placement check to the channel check.\<close>

definition boot_validate :: "kernel \<Rightarrow> kernel res" where
  "boot_validate k3 =
     bind_res (check_region_placement k3) (\<lambda>k4.
     bind_res (emit [Puts ''Tasks registered: '', Usize (of_nat (task_count k4)), Puts nl] k4) (\<lambda>k5.
     bind_res (check_capability_conflicts (registry k5)) (\<lambda>_.
     bind_res (emit [Puts (''Capability check passed.'' @ nl)] k5) (\<lambda>k6.
     bind_res (check_channel_conflicts (registry k6)) (\<lambda>_.
       emit [Puts (''Channel check passed.'' @ nl)] k6)))))"

text \<open>The rest of it: protection, scheduler, frames and the timer; the result is what \<open>start_first_task\<close> gets.\<close>

definition boot_start :: "platform \<Rightarrow> boot_env \<Rightarrow> u8 list \<Rightarrow> kernel \<Rightarrow> (usize \<times> kernel) res" where
  "boot_start pf env mip_table k7 =
     bind_res (emit (if pmp_feature pf
                     then [Puts (''PMP: per-task isolation enabled (flash R+X, running task R+W).'' @ nl)] else [])
                 (k7\<lparr>pmp := configure_pmp (pmp_feature pf) (pmp k7)\<rparr>)) (\<lambda>kp.
     bind_res (scheduler_init pf mip_table kp) (\<lambda>k8.
     bind_res (prepare_frames pf (task_returned env) (global_pointer env) k8) (\<lambda>k9.
     bind_res (emit [Puts (''Scheduler initialised.'' @ nl)] k9) (\<lambda>k10.
     bind_res (print_task_registry k10) (\<lambda>k11.
     bind_res (emit [Puts (''===================================='' @ nl),
                     Puts (''Interrupts enabled. Starting tasks.'' @ nl),
                     Puts (''===================================='' @ nl)]
                 (k11\<lparr>clint := start_ticks (boot_mtime env) (clint k11)\<rparr>)) (\<lambda>k12.
       Inr (first_frame k12, k12)))))))"

definition kernel_main :: "platform \<Rightarrow> boot_env \<Rightarrow> kernel \<Rightarrow> (usize \<times> kernel) res" where
  "kernel_main pf env k =
     bind_res (emit [Puts (''===================================='' @ nl), Puts (''  Ferret booting...'' @ nl),
                     Puts (''===================================='' @ nl), Puts ''FerretOS'', Puts '' v'',
                     Puts (version env), Puts nl, Puts (''Target : riscv32imac-unknown-none-elf'' @ nl),
                     Puts (''Machine: QEMU virt'' @ nl)] k) (\<lambda>k1.
     bind_res (print_memory_map env k1) (\<lambda>k2.
     bind_res (register_tasks env k2) (\<lambda>(mip_table, k3).
     bind_res (boot_validate k3) (\<lambda>k7. boot_start pf env mip_table k7))))"

section \<open>Console output never stops the boot\<close>

lemma emit_total: "\<exists>out. emit ps k = Inr (k\<lparr>uart := out\<rparr>)"
proof (induction ps arbitrary: k)
  case Nil
  show ?case by (intro exI [of _ "uart k"]) simp
next
  case (Cons p ps)
  have h: "\<exists>out. uart_print_hex v o1 = Inr out" for v o1 using uart_print_hex_ok by blast
  have "\<exists>out. emit ps (k\<lparr>uart := o1\<rparr>) = Inr (k\<lparr>uart := out\<rparr>)" for o1
    using Cons.IH [of "k\<lparr>uart := o1\<rparr>"] by simp
  with h show ?case
    by (cases p) (auto simp: uart_print_usize_eq bind_res_def split: sum.splits, metis Inr_not_Inl)
qed

lemma emit_fold_total: "\<exists>out. fold_res (\<lambda>t. emit (f t)) ts k = Inr (k\<lparr>uart := out\<rparr>)"
proof (induction ts arbitrary: k)
  case Nil
  show ?case by (intro exI [of _ "uart k"]) simp
next
  case (Cons t ts)
  obtain o1 where "emit (f t) k = Inr (k\<lparr>uart := o1\<rparr>)" using emit_total by blast
  with Cons.IH [of "k\<lparr>uart := o1\<rparr>"] show ?case by simp
qed

lemma print_task_registry_total: "\<exists>out. print_task_registry k = Inr (k\<lparr>uart := out\<rparr>)"
proof -
  obtain o1 where "emit [Puts (''Task registry:'' @ nl)] k = Inr (k\<lparr>uart := o1\<rparr>)" using emit_total by blast
  with emit_fold_total [of _ "occupied (registry k)" "k\<lparr>uart := o1\<rparr>"] show ?thesis
    by (simp add: print_task_registry_def)
qed

lemma emit_Inr: "emit ps k = Inr k' \<Longrightarrow> \<exists>out. k' = k\<lparr>uart := out\<rparr>"
  using emit_total [of ps k] by auto

section \<open>Placement\<close>

definition placed :: "task_descriptor \<Rightarrow> bool" where
  "placed t \<longleftrightarrow>
     (td_mode t = User \<longrightarrow> td_memory_start t \<le> td_stack_base t \<and>
        td_stack_base t + td_stack_size t \<le> td_memory_end t)"

lemma occupied_slots_set: "set (occupied reg) = {d. Some d \<in> set reg}"
  by (simp add: set_eq_iff occupied_set)

lemma check_placement_eq:
  "check_placement t k = (if placed t then Inr k else Inl (MemoryLayoutError (td_id t)))"
proof -
  have "bind_res (emit ps k) (\<lambda>_. Inl e) = (Inl e :: kernel res)" for ps and e :: fault
    using emit_total [of ps k] by auto
  then show ?thesis by (simp only: check_placement_def placed_def Let_def) auto
qed

lemma check_region_placement_cases:
  "if \<forall>d. Some d \<in> set (registry k) \<longrightarrow> placed d then check_region_placement k = Inr k
   else \<exists>d. Some d \<in> set (registry k) \<and> \<not> placed d \<and> check_region_placement k = Inl (MemoryLayoutError (td_id d))"
proof -
  have "if \<forall>d \<in> set ts. placed d then fold_res check_placement ts k1 = Inr k1
    else \<exists>d \<in> set ts. \<not> placed d \<and> fold_res check_placement ts k1 = Inl (MemoryLayoutError (td_id d))" for ts k1
    by (induction ts) (auto simp: check_placement_eq [abs_def] split: if_splits)
  from this [of "occupied (registry k)" k] show ?thesis
    unfolding check_region_placement_def occupied_slots_set by (auto split: if_splits)
qed

lemma check_region_placement_Inr:
  assumes "check_region_placement k = Inr k'"
  shows "k' = k \<and> (\<forall>d. Some d \<in> set (registry k) \<longrightarrow> placed d)"
  using check_region_placement_cases [of k] assms by (auto split: if_splits)

section \<open>From a checked registry to the invariant\<close>

text \<open>Two task tables that differ only in the saved frame pointers.\<close>

definition reframed :: "kernel \<Rightarrow> kernel \<Rightarrow> bool" where
  "reframed k k' \<longleftrightarrow>
     length (registry k') = length (registry k) \<and>
     (\<forall>i < length (registry k). \<exists>p. registry k' ! i = map_option (\<lambda>d. d\<lparr>td_stack_ptr := p\<rparr>) (registry k ! i))"

lemma reframed_slots:
  assumes "reframed k k'" and "i < length (registry k)"
  shows "wait_of (registry k' ! i) = wait_of (registry k ! i)"
    "slot_bag i (registry k' ! i) = slot_bag i (registry k ! i)"
    "map_option td_static (registry k' ! i) = map_option td_static (registry k ! i)"
    "map_option td_state (registry k' ! i) = map_option td_state (registry k ! i)"
    "(registry k' ! i = None) = (registry k ! i = None)"
proof -
  obtain p where "registry k' ! i = map_option (\<lambda>d. d\<lparr>td_stack_ptr := p\<rparr>) (registry k ! i)"
    using assms by (auto simp: reframed_def)
  then show "wait_of (registry k' ! i) = wait_of (registry k ! i)"
    "slot_bag i (registry k' ! i) = slot_bag i (registry k ! i)"
    "map_option td_static (registry k' ! i) = map_option td_static (registry k ! i)"
    "map_option td_state (registry k' ! i) = map_option td_state (registry k ! i)"
    "(registry k' ! i = None) = (registry k ! i = None)"
    by (cases "registry k ! i"; simp add: wait_of_def slot_bag_def effective_priority_def td_static_def)+
qed

lemma reframed_tables:
  assumes "reframed k k'"
  shows "waits k' = waits k" "statics k' = statics k"
  using assms reframed_slots [OF assms]
  by (auto simp: waits_def statics_def reframed_def intro!: nth_equalityI)

lemma reframed_bag:
  assumes "reframed k k'" and "length (registry k) = MAX_TASKS"
  shows "ready_bag (registry k') = ready_bag (registry k)"
  unfolding ready_bag_def using reframed_slots(2) [OF assms(1)] assms(2) by (intro sum.cong) auto

lemma reframed_core:
  assumes r: "reframed k k'" and same: "task_count k' = task_count k" "ready_queue k' = ready_queue k"
    "current_task_idx k' = current_task_idx k" and core: "core_inv k"
  shows "core_inv k'"
proof -
  have len: "length (registry k) = MAX_TASKS" using core by (simp add: core_inv_def table_wf_def)
  have len': "length (registry k') = MAX_TASKS" using r len by (simp add: reframed_def)
  have st: "td_state d' = td_state d" if "i < MAX_TASKS" "registry k' ! i = Some d'" "registry k ! i = Some d" for i d d'
    using reframed_slots(4) [OF r, of i] that len by simp
  have ex: "\<exists>d. registry k ! i = Some d" if "i < MAX_TASKS" "registry k' ! i = Some d'" for i d'
    using reframed_slots(5) [OF r, of i] that len by auto
  have "table_wf k'"
    using core len len' reframed_slots(5) [OF r] same(1) by (simp add: core_inv_def table_wf_def)
  moreover have "none_suspended (registry k')"
    using core st ex len len' by (fastforce simp: core_inv_def none_suspended_def in_set_conv_nth)
  moreover have "current_task_idx k' = of_nat i"
    if "i < MAX_TASKS" "registry k' ! i = Some d'" "td_state d' = Running" for i d'
    using core st ex that same(3) by (fastforce simp: core_inv_def)
  ultimately show ?thesis
    using core reframed_bag [OF r len] same by (auto simp: core_inv_def)
qed

lemma reframed_sched:
  assumes r: "reframed k k'" and same: "task_count k' = task_count k" "ready_queue k' = ready_queue k"
    "current_task_idx k' = current_task_idx k" "pmp k' = pmp k" and inv: "sched_inv k" "pmp_tracks pf k"
  shows "sched_inv k' \<and> pmp_tracks pf k'"
proof -
  have core: "core_inv k" using inv by (simp add: sched_inv_def)
  then have len: "length (registry k) = MAX_TASKS" by (simp add: core_inv_def table_wf_def)
  obtain d where d: "task_ptr (current_task_idx k) k = Some d" "td_state d = Running"
    using inv(1) by (auto simp: sched_inv_def running_def)
  obtain p where "registry k' ! unat (current_task_idx k) =
      map_option (\<lambda>d. d\<lparr>td_stack_ptr := p\<rparr>) (registry k ! unat (current_task_idx k))"
    using r task_ptr_Some [OF d(1)] len by (auto simp: reframed_def)
  then have d': "task_ptr (current_task_idx k') k' = Some (d\<lparr>td_stack_ptr := p\<rparr>)"
    using task_ptr_Some [OF d(1)] same(3) by (simp add: task_ptr_def)
  have "task_entries (d\<lparr>td_stack_ptr := p\<rparr>) = task_entries d"
    by (rule task_entries_static) (simp add: td_static_def)
  then have tracks: "pmp_tracks pf k'"
    using inv(2) d(1) d' same(4) by (simp add: pmp_tracks_def pmp_holds_def)
  have "current_effective k' = current_effective k"
    using d(1) d' by (simp add: current_effective_def effective_priority_def)
  then have "sched_inv k'"
    using reframed_core [OF r same(1-3) core] inv(1) d d' same
    by (simp add: sched_inv_def running_def running_best_def)
  with tracks show ?thesis by simp
qed

lemma single_owner_unique:
  assumes "endpoints_unique reg" and "length reg = MAX_TASKS"
    and st: "\<And>i e. i < MAX_TASKS \<Longrightarrow> st ! i = Some e \<Longrightarrow> \<exists>d. reg ! i = Some d \<and>
      td_sends_mask e = td_sends_mask d \<and> td_receives_mask e = td_receives_mask d"
  shows "single_owner st"
proof -
  have "i = j" if ij: "i < MAX_TASKS" "j < MAX_TASKS"
    and on: "sends_on st i c \<and> sends_on st j c \<or> receives_on st i c \<and> receives_on st j c" for i j c
  proof (rule ccontr)
    assume "i \<noteq> j"
    from st [OF ij(1)] st [OF ij(2)] on obtain a b where
      ab: "reg ! i = Some a" "reg ! j = Some b"
        "mask_has (td_sends_mask a) c \<and> mask_has (td_sends_mask b) c \<or>
         mask_has (td_receives_mask a) c \<and> mask_has (td_receives_mask b) c"
      unfolding sends_on_def receives_on_def by metis
    then have "td_sends_mask a AND td_sends_mask b \<noteq> 0 \<or> td_receives_mask a AND td_receives_mask b \<noteq> 0"
      by (auto simp: masks_overlap_iff)
    with assms(1,2) ij ab(1,2) \<open>i \<noteq> j\<close> show False by (auto simp: endpoints_unique_def)
  qed
  then show ?thesis by (auto simp: single_owner_def)
qed

lemma chan_inv_table: "chan_inv channel_table"
  using ch_wf_new [of CHANNEL_CAPACITY, where 'a = message]
  by (simp add: chan_inv_def channel_table_def ch_contents_def channel_new_def ch_capacity_def)

text \<open>The descriptors a boot with table \<open>tbl\<close> leaves in the registry, up to the scheduler's own fields.\<close>

definition booted_from :: "u8 list \<Rightarrow> kernel \<Rightarrow> kernel \<Rightarrow> bool" where
  "booted_from tbl k k' \<longleftrightarrow>
     task_count k' = task_count k \<and>
     (\<forall>i < task_count k. \<exists>d. registry k ! i = Some d \<and>
        statics k' ! i = Some (td_static (d\<lparr>td_max_inherited_priority := tbl ! i\<rparr>)))"

text \<open>Every registered task has its initial frame on its kernel stack.\<close>

definition framed :: "platform \<Rightarrow> usize \<Rightarrow> usize \<Rightarrow> kernel \<Rightarrow> kernel \<Rightarrow> bool" where
  "framed pf exit_trap gp k k' \<longleftrightarrow>
     (\<forall>i < task_count k. \<forall>d. registry k ! i = Some d \<longrightarrow>
        frames k' (frame_slot (kernel_stacks pf) i) = Some (initial_frame exit_trap gp d))"

lemma scheduler_start:
  assumes k: "unscheduled k" "0 < task_count k" and tbl: "length tbl = MAX_TASKS"
    and chk: "endpoints_unique (registry k)" "channels k = channel_table"
      "pmp_feature pf \<longrightarrow> pmp_isolating (pmp k)"
  shows "\<exists>k8 k9. scheduler_init pf tbl k = Inr k8 \<and> prepare_frames pf exit_trap gp k8 = Inr k9 \<and>
           kernel_inv pf k9 \<and> booted_from tbl k k9 \<and> mem k9 = mem k \<and> clint k9 = clint k \<and> channels k9 = channel_table \<and>
           (\<forall>i < task_count k. available i k9) \<and> framed pf exit_trap gp k k9"
proof -
  have wf: "table_wf k" using k(1) by (simp add: unscheduled_def)
  obtain k0 k8 where k8: "scheduler_init pf tbl k = Inr k8" "write_precomputed_mip tbl k = k0"
    "switched pf k0 k8" "waits k8 = waits k" "task_count k8 = task_count k"
    "\<forall>i < task_count k. registry k0 ! i =
        map_option (\<lambda>d. d\<lparr>td_max_inherited_priority := tbl ! i\<rparr>) (registry k ! i)"
    using scheduler_init_inv [OF k tbl] by blast
  have k0: "channels k0 = channels k" "mem k0 = mem k" "clint k0 = clint k" "pmp k0 = pmp k"
    "task_count k0 = task_count k" "length (registry k0) = MAX_TASKS"
    "\<And>i. i < MAX_TASKS \<Longrightarrow> \<not> i < task_count k \<Longrightarrow> registry k0 ! i = registry k ! i"
    using write_precomputed_mip_registry [OF tbl, of k] wf k8(2) by (auto simp: table_wf_def)
  have sw: "sched_inv k8" "kept k0 k8" "clint k8 = clint k" using k8(3) k0 by (auto simp: switched_def)
  have tracks: "pmp_tracks pf k8"
    using k8(3) chk(3) k0(4) activate_holds by (auto simp: switched_def pmp_tracks_def)
  obtain k9 where k9: "prepare_frames pf exit_trap gp k8 = Inr k9" "frames_ready pf exit_trap gp (task_count k) k8 k9"
    using prepare_frames_ready [OF sched_inv_wf(1) [OF sw(1)], of pf exit_trap gp] k8(5) by auto
  obtain reg fs where r: "k9 = k8\<lparr>registry := reg, frames := fs\<rparr>" "length reg = MAX_TASKS"
    "\<forall>i < MAX_TASKS. reg ! i =
       (if i < task_count k then map_option (\<lambda>t. t\<lparr>td_stack_ptr := frame_slot (kernel_stacks pf) i\<rparr>) (registry k8 ! i)
        else registry k8 ! i)"
    "\<forall>i < task_count k. \<forall>t. registry k8 ! i = Some t \<longrightarrow>
       fs (frame_slot (kernel_stacks pf) i) = Some (initial_frame exit_trap gp t)"
    using k9(2) unfolding frames_ready_def by blast
  have wf8: "table_wf k8" by (rule sched_inv_wf(1) [OF sw(1)])
  have n: "task_count k \<le> MAX_TASKS" using wf by (simp add: table_wf_def)
  have some8: "\<exists>t. registry k8 ! i = Some t" if "i < task_count k" for i
    using wf8 k8(5) that n by (auto simp: table_wf_def)
  have ref: "reframed k8 k9"
    unfolding reframed_def using r wf8 k8(5) by (auto simp: table_wf_def)
  have framed: "framed pf exit_trap gp k k9"
    unfolding framed_def
  proof (intro allI impI)
    fix i d assume i: "i < task_count k" "registry k ! i = Some d"
    obtain t where t: "registry k8 ! i = Some t" using some8 [OF i(1)] by blast
    have "statics k8 ! i = Some (td_static t)" using t wf8 i(1) n by (simp add: statics_def table_wf_def)
    moreover have "statics k0 ! i = Some (td_static (d\<lparr>td_max_inherited_priority := tbl ! i\<rparr>))"
      using i k8(6) k0(6) n by (simp add: statics_def)
    ultimately have "td_static t = td_static (d\<lparr>td_max_inherited_priority := tbl ! i\<rparr>)"
      using sw(2) by (simp add: kept_def)
    from initial_frame_static [OF this] have "initial_frame exit_trap gp t = initial_frame exit_trap gp d"
      by (simp add: initial_frame_def)
    with r(1,4) i(1) t show "frames k9 (frame_slot (kernel_stacks pf) i) = Some (initial_frame exit_trap gp d)" by simp
  qed
  have inv9: "sched_inv k9 \<and> pmp_tracks pf k9"
    by (rule reframed_sched [OF ref _ _ _ _ sw(1) tracks]) (simp_all add: r)
  have st9: "statics k9 = statics k0" using reframed_tables(2) [OF ref] sw(2) by (simp add: kept_def)
  have w9: "waits k9 = waits k" using reframed_tables(1) [OF ref] k8(4) by simp
  have none: "waits k ! i = None" if "i < MAX_TASKS" for i
    using k(1) wf that by (cases "i < task_count k") (auto simp: unscheduled_def table_wf_def waits_def wait_of_def)
  have "\<exists>d. registry k ! i = Some d \<and>
      statics k0 ! i = Some (td_static (d\<lparr>td_max_inherited_priority := tbl ! i\<rparr>))" if i: "i < task_count k" for i
  proof -
    have "registry k ! i \<noteq> None" using wf i n by (simp add: table_wf_def)
    then show ?thesis using i k8(6) k0(6) n by (auto simp: statics_def)
  qed
  moreover have tc9: "task_count k9 = task_count k" using k8(5) by (simp add: r(1))
  ultimately have boot: "booted_from tbl k k9" by (simp add: booted_from_def st9)
  have "frames_inv pf k9"
    using r(2-4) some8 k8(5) n
    by (fastforce simp: frames_inv_def r(1) stack_ptrs_def initial_frame_def)
  moreover have "single_owner (statics k9)"
  proof (rule single_owner_unique [OF chk(1)])
    show "length (registry k) = MAX_TASKS" using wf by (simp add: table_wf_def)
    fix i e assume i: "i < MAX_TASKS" "statics k9 ! i = Some e"
    then have "map_option td_static (registry k0 ! i) = Some e"
      using k0(6) unfolding st9 by (simp add: statics_def)
    then show "\<exists>d. registry k ! i = Some d \<and>
        td_sends_mask e = td_sends_mask d \<and> td_receives_mask e = td_receives_mask d"
      using i(1) k0(7) k8(6) by (cases "i < task_count k") (auto simp: td_static_sel)
  qed
  moreover have "wait_inv k9" using none by (simp add: wait_inv_def w9)
  moreover have ch9: "channels k9 = channel_table" using chk(2) sw(2) k0(1) by (simp add: r(1) kept_def)
  ultimately have "kernel_inv pf k9" using inv9 chan_inv_table by (simp add: kernel_inv_def)
  moreover have "\<forall>i < task_count k. available i k9"
    using none n by (simp add: available_def w9 tc9)
  moreover have "mem k9 = mem k" "clint k9 = clint k" using sw k0 by (simp_all add: r(1) kept_def)
  ultimately show ?thesis using k8(1) k9(1) boot ch9 framed by blast
qed

section \<open>Registration\<close>

text \<open>The registry with exactly the tasks \<open>ds\<close>, in slot order.\<close>

definition slots :: "task_descriptor list \<Rightarrow> task_descriptor option list" where
  "slots ds = map Some ds @ replicate (MAX_TASKS - length ds) None"

definition with_tasks :: "task_descriptor list \<Rightarrow> memory \<Rightarrow> kernel \<Rightarrow> kernel" where
  "with_tasks ds m k = k\<lparr>registry := slots ds, task_count := length ds, mem := m\<rparr>"

lemma with_tasks_sel [simp]:
  "registry (with_tasks ds m k) = slots ds" "task_count (with_tasks ds m k) = length ds"
  "mem (with_tasks ds m k) = m" "ready_queue (with_tasks ds m k) = ready_queue k"
  "channels (with_tasks ds m k) = channels k" "pmp (with_tasks ds m k) = pmp k"
  "clint (with_tasks ds m k) = clint k"
  by (simp_all add: with_tasks_def)

lemma slots_snoc: "length ds < MAX_TASKS \<Longrightarrow> (slots ds)[length ds := Some d] = slots (ds @ [d])"
proof -
  assume "length ds < MAX_TASKS"
  then have "replicate (MAX_TASKS - length ds) (None :: task_descriptor option) =
      None # replicate (MAX_TASKS - length (ds @ [d])) None"
    by (cases "MAX_TASKS - length ds") (auto dest: Suc_diff_Suc)
  then show ?thesis by (simp add: slots_def list_update_append)
qed

lemma length_slots: "length ds \<le> MAX_TASKS \<Longrightarrow> length (slots ds) = MAX_TASKS"
  by (simp add: slots_def)

lemma nth_slots:
  "length ds \<le> MAX_TASKS \<Longrightarrow> i < MAX_TASKS \<Longrightarrow> slots ds ! i = (if i < length ds then Some (ds ! i) else None)"
  by (auto simp: slots_def nth_append)

lemma occupied_slots: "occupied (slots ds) = ds"
  by (simp add: slots_def occupied_def comp_def)

lemma register_with_tasks:
  assumes "length ds < MAX_TASKS"
  shows "register_task d (with_tasks ds m k) = Inr (with_tasks (ds @ [d]) m k)"
  using assms slots_snoc [OF assms] length_slots [of ds]
  by (simp add: register_task_def) (simp add: with_tasks_def)

lemma claim_with_tasks: "claim_stack b (with_tasks ds m k) = with_tasks ds (write_canary b m) k"
  by (simp add: claim_stack_def with_tasks_def)

lemma with_tasks_fresh:
  assumes "length ds \<le> MAX_TASKS" and "\<forall>d \<in> set ds. td_state d = Ready" and "ready_queue k = pq_new MAX_TASKS"
  shows "unscheduled (with_tasks ds m k)"
  using assms by (auto simp: unscheduled_def table_wf_def length_slots nth_slots split: if_splits)

text \<open>The task set a configuration registers, the table that belongs to it and the canaries it writes.\<close>

definition demo_tasks :: "boot_env \<Rightarrow> task_descriptor list" where
  "demo_tasks env =
     (let cs = (if demo_hml env then [TASK_L, TASK_M, TASK_H] else [SENSOR_READER, FILTER, UART_LOGGER])
      in [into_descriptor (cs ! 0) 0 (task_stack env 0) (task_entry env 0),
          into_descriptor (cs ! 1) 1 (task_stack env 1) (task_entry env 1),
          into_descriptor (cs ! 2) 2 (task_stack env 2) (task_entry env 2)])"

definition rogue_tasks :: "boot_env \<Rightarrow> task_descriptor list" where
  "rogue_tasks env =
     (if fault_demo env
      then [with_entry (entry_rogue env)
              (with_capabilities 3 1 (stack_rogue env) 4096 0x800BB000 0x800BC000 0 CONSOLE_CAP_BIT 0)]
      else [])"

definition idle_task :: "boot_env \<Rightarrow> nat \<Rightarrow> task_descriptor" where
  "idle_task env n =
     with_mode Machine (with_entry (entry_idle env) (task_new (of_nat n) IDLE_PRIORITY (stack_idle env) 1024 0 0))"

definition boot_tasks :: "boot_env \<Rightarrow> task_descriptor list" where
  "boot_tasks env =
     demo_tasks env @ rogue_tasks env @ [idle_task env (length (demo_tasks env @ rogue_tasks env))]"

definition boot_table :: "boot_env \<Rightarrow> u8 list" where
  "boot_table env = (if demo_hml env then HML_MAX_INHERITED_PRIORITIES else PIPELINE_MAX_INHERITED_PRIORITIES)"

definition boot_memory :: "boot_env \<Rightarrow> memory \<Rightarrow> memory" where
  "boot_memory env m =
     fold write_canary ([task_stack env 0, task_stack env 1, task_stack env 2] @
       (if fault_demo env then [stack_rogue env] else [])) m"

lemma register_tasks_value:
  "register_tasks env (with_tasks [] m k) = Inr (boot_table env, with_tasks (boot_tasks env) (boot_memory env m) k)"
proof -
  let ?m = "write_canary (task_stack env 2) (write_canary (task_stack env 1) (write_canary (task_stack env 0) m))"
  have demo: "(if demo_hml env then hml_register env (with_tasks [] m k) else pipeline_register env (with_tasks [] m k)) =
      Inr (boot_table env, with_tasks (demo_tasks env) ?m k)"
    by (simp add: hml_register_def pipeline_register_def register_claimed_def claim_with_tasks
        register_with_tasks demo_tasks_def boot_table_def)
  have len: "length (demo_tasks env) = 3" by (simp add: demo_tasks_def)
  show ?thesis
    by (simp add: register_tasks_def demo claim_with_tasks register_with_tasks len rogue_tasks_def
        boot_tasks_def idle_task_def boot_memory_def)
qed

lemma boot_tasks_ready: "\<forall>d \<in> set (boot_tasks env). td_state d = Ready"
  by (simp add: boot_tasks_def demo_tasks_def rogue_tasks_def idle_task_def Let_def into_descriptor_def
      with_entry_def with_channels_def with_capabilities_def with_mode_def task_new_def)

lemma boot_tasks_length: "length (boot_tasks env) = (if fault_demo env then 5 else 4)"
  by (simp add: boot_tasks_def demo_tasks_def rogue_tasks_def Let_def)

lemma boot_table_length: "length (boot_table env) = MAX_TASKS"
  by (simp add: boot_table_def HML_MAX_INHERITED_PRIORITIES_def PIPELINE_MAX_INHERITED_PRIORITIES_def)

section \<open>The boot sequence\<close>

lemma boot_validate_value:
  "boot_validate k = Inr k' \<Longrightarrow>
     (\<forall>d. Some d \<in> set (registry k) \<longrightarrow> placed d) \<and> check_capability_conflicts (registry k) = Inr () \<and>
     check_channel_conflicts (registry k) = Inr () \<and> (\<exists>out. k' = k\<lparr>uart := out\<rparr>)"
  by (auto simp: boot_validate_def bind_res_eq_Inr_iff simp del: emit.simps
      dest!: check_region_placement_Inr emit_Inr)

lemma boot_validate_ok:
  assumes "\<forall>d. Some d \<in> set (registry k) \<longrightarrow> placed d" and "check_capability_conflicts (registry k) = Inr ()"
    and "check_channel_conflicts (registry k) = Inr ()"
  shows "\<exists>k'. boot_validate k = Inr k'"
proof -
  have "check_region_placement k = Inr k" using check_region_placement_cases [of k] assms(1) by simp
  moreover obtain o1 where
    "emit [Puts ''Tasks registered: '', Usize (of_nat (task_count k)), Puts nl] k = Inr (k\<lparr>uart := o1\<rparr>)"
    using emit_total by blast
  moreover obtain o2 where
    "emit [Puts (''Capability check passed.'' @ nl)] (k\<lparr>uart := o1\<rparr>) = Inr (k\<lparr>uart := o1\<rparr>\<lparr>uart := o2\<rparr>)"
    using emit_total by blast
  moreover obtain o3 where
    "emit [Puts (''Channel check passed.'' @ nl)] (k\<lparr>uart := o1\<rparr>\<lparr>uart := o2\<rparr>) =
      Inr (k\<lparr>uart := o1\<rparr>\<lparr>uart := o2\<rparr>\<lparr>uart := o3\<rparr>)"
    using emit_total by blast
  ultimately show ?thesis using assms(2,3) by (simp add: boot_validate_def del: emit.simps)
qed

text \<open>A platform whose reset leaves no stale protection entry behind.\<close>

definition clean_reset :: "platform \<Rightarrow> pmp_regs \<Rightarrow> bool" where
  "clean_reset pf r \<longleftrightarrow> (pmp_feature pf \<longrightarrow> pmpcfg3 r = 0)"

lemma live_view:
  assumes "sched_same k k'" and "channels k' = channels k" and "frames k' = frames k"
  shows "kernel_inv pf k' \<longleftrightarrow> kernel_inv pf k" and "available n k' \<longleftrightarrow> available n k"
proof -
  have "task_count k' = task_count k" using assms(1) by (simp add: sched_same_def)
  with sched_same_table [OF assms(1)] sched_same_inv [OF assms(1)] assms(2,3)
  show "kernel_inv pf k' \<longleftrightarrow> kernel_inv pf k" and "available n k' \<longleftrightarrow> available n k"
    by (simp_all add: kernel_inv_def frames_inv_def wait_inv_def available_def)
qed

lemma boot_start_value:
  assumes k: "unscheduled k" "0 < task_count k" and tbl: "length tbl = MAX_TASKS"
    and chk: "endpoints_unique (registry k)" "channels k = channel_table" "clean_reset pf (pmp k)"
  shows "\<exists>k'. boot_start pf env tbl k = Inr (frame_of (current_task_idx k') k', k') \<and>
           (\<forall>i < task_count k. live pf i k') \<and> booted_from tbl k k' \<and> mem k' = mem k \<and> channels k' = channel_table \<and>
           framed pf (task_returned env) (global_pointer env) k k'"
proof -
  obtain o0 where o0: "emit (if pmp_feature pf
      then [Puts (''PMP: per-task isolation enabled (flash R+X, running task R+W).'' @ nl)] else [])
      (k\<lparr>pmp := configure_pmp (pmp_feature pf) (pmp k)\<rparr>) =
      Inr (k\<lparr>pmp := configure_pmp (pmp_feature pf) (pmp k)\<rparr>\<lparr>uart := o0\<rparr>)"
    using emit_total by blast
  let ?k = "k\<lparr>pmp := configure_pmp (pmp_feature pf) (pmp k)\<rparr>\<lparr>uart := o0\<rparr>"
  have f: "unscheduled ?k" "0 < task_count ?k" "endpoints_unique (registry ?k)" "channels ?k = channel_table"
    using k chk by (simp_all add: unscheduled_def table_wf_def)
  have iso: "pmp_feature pf \<longrightarrow> pmp_isolating (pmp ?k)"
    using chk(3) configure_isolating by (auto simp: clean_reset_def)
  obtain k8 k9 where k9: "scheduler_init pf tbl ?k = Inr k8"
    "prepare_frames pf (task_returned env) (global_pointer env) k8 = Inr k9" "kernel_inv pf k9"
    "booted_from tbl ?k k9" "mem k9 = mem k" "\<forall>i < task_count k. available i k9" "channels k9 = channel_table"
    "framed pf (task_returned env) (global_pointer env) ?k k9"
    using scheduler_start [OF f(1,2) tbl f(3,4) iso, of "task_returned env" "global_pointer env"] by auto
  obtain o1 where o1: "emit [Puts (''Scheduler initialised.'' @ nl)] k9 = Inr (k9\<lparr>uart := o1\<rparr>)"
    using emit_total by blast
  obtain o2 where o2: "print_task_registry (k9\<lparr>uart := o1\<rparr>) = Inr (k9\<lparr>uart := o1\<rparr>\<lparr>uart := o2\<rparr>)"
    using print_task_registry_total by blast
  define k11 where "k11 = k9\<lparr>uart := o1\<rparr>\<lparr>uart := o2\<rparr>"
  define k12 where "k12 = k11\<lparr>clint := start_ticks (boot_mtime env) (clint k11)\<rparr>"
  obtain o3 where o3: "emit [Puts (''===================================='' @ nl),
                     Puts (''Interrupts enabled. Starting tasks.'' @ nl),
                     Puts (''===================================='' @ nl)] k12 = Inr (k12\<lparr>uart := o3\<rparr>)"
    using emit_total by blast
  let ?k' = "k12\<lparr>uart := o3\<rparr>"
  have same: "sched_same k9 ?k'" "channels ?k' = channels k9" "frames ?k' = frames k9" "mem ?k' = mem k9"
    "task_count ?k' = task_count k9"
    by (simp_all add: sched_same_def k12_def k11_def)
  have "boot_start pf env tbl k = Inr (first_frame ?k', ?k')"
    by (simp only: boot_start_def o0 k9(1,2) o1 o2 o3 bind_res_simps k11_def [symmetric] k12_def [symmetric])
  moreover have "\<forall>i < task_count k. live pf i ?k'"
    using k9(3,6) live_view [OF same(1-3)] by (simp add: live_def)
  moreover have "booted_from tbl k ?k'"
    using k9(4) sched_same_table(6) [OF same(1)] same(5) by (simp add: booted_from_def)
  moreover have "framed pf (task_returned env) (global_pointer env) k ?k'"
    using k9(8) by (simp add: framed_def same(3))
  ultimately show ?thesis using k9(5,7) same(2,4) by (auto simp: first_frame_def)
qed

text \<open>
  What a successful boot leaves behind: a live system in which every task, the idle task last, can
  run, the registered descriptors with their inherited priorities, and a canary under every task stack.
\<close>

definition boot_done :: "platform \<Rightarrow> boot_env \<Rightarrow> memory \<Rightarrow> usize \<Rightarrow> kernel \<Rightarrow> bool" where
  "boot_done pf env m frame k \<longleftrightarrow>
     (\<forall>i < length (boot_tasks env). live pf i k) \<and> frame = frame_of (current_task_idx k) k \<and>
     task_count k = length (boot_tasks env) \<and> mem k = boot_memory env m \<and>
     channels k = channel_table \<and>
     (\<forall>i < task_count k. statics k ! i =
        Some (td_static ((boot_tasks env ! i)\<lparr>td_max_inherited_priority := boot_table env ! i\<rparr>)))"

lemma boot_done_live:
  assumes "boot_done pf env m frame k"
  shows "live pf (length (boot_tasks env) - 1) k" "table_wf k" "task_count k = length (boot_tasks env)"
proof -
  have "0 < length (boot_tasks env)" by (simp add: boot_tasks_length)
  then show l: "live pf (length (boot_tasks env) - 1) k" using assms by (simp add: boot_done_def)
  then show "table_wf k" by (auto simp: kernel_invs intro: sched_inv_wf)
  show "task_count k = length (boot_tasks env)" using assms by (simp add: boot_done_def)
qed

definition boot_admissible :: "boot_env \<Rightarrow> bool" where
  "boot_admissible env \<longleftrightarrow>
     (\<forall>d \<in> set (boot_tasks env). placed d) \<and>
     check_capability_conflicts (slots (boot_tasks env)) = Inr () \<and>
     check_channel_conflicts (slots (boot_tasks env)) = Inr ()"

text \<open>Up to registration the boot depends on nothing but its configuration.\<close>

lemma kernel_main_registers:
  "\<exists>k3. kernel_main pf env (initial_kernel m r t fs) =
           bind_res (boot_validate k3) (\<lambda>k7. boot_start pf env (boot_table env) k7) \<and>
         unscheduled k3 \<and> registry k3 = slots (boot_tasks env) \<and> task_count k3 = length (boot_tasks env) \<and>
         channels k3 = channel_table \<and> pmp k3 = r \<and> mem k3 = boot_memory env m \<and> ticks_since_switch k3 = 0"
proof -
  let ?init = "initial_kernel m r t fs" and ?ds = "boot_tasks env"
  obtain o1 where o1: "emit [Puts (''===================================='' @ nl),
        Puts (''  Ferret booting...'' @ nl), Puts (''===================================='' @ nl), Puts ''FerretOS'', Puts '' v'',
        Puts (version env), Puts nl, Puts (''Target : riscv32imac-unknown-none-elf'' @ nl),
        Puts (''Machine: QEMU virt'' @ nl)] ?init = Inr (?init\<lparr>uart := o1\<rparr>)"
    using emit_total by blast
  obtain o2 where o2: "print_memory_map env (?init\<lparr>uart := o1\<rparr>) = Inr (?init\<lparr>uart := o1\<rparr>\<lparr>uart := o2\<rparr>)"
    unfolding print_memory_map_def using emit_total by blast
  let ?k = "?init\<lparr>uart := o1\<rparr>\<lparr>uart := o2\<rparr>"
  have k: "?k = with_tasks [] m ?k" by (simp add: with_tasks_def initial_kernel_def slots_def)
  define k3 where "k3 = with_tasks ?ds (boot_memory env m) ?k"
  have reg: "register_tasks env ?k = Inr (boot_table env, k3)"
    by (subst k) (simp only: register_tasks_value k3_def)
  have len: "length ?ds \<le> MAX_TASKS" by (simp add: boot_tasks_length)
  have "unscheduled k3" "registry k3 = slots ?ds" "task_count k3 = length ?ds" "channels k3 = channel_table"
    "pmp k3 = r" "mem k3 = boot_memory env m" "ticks_since_switch k3 = 0"
    unfolding k3_def using with_tasks_fresh [OF len boot_tasks_ready, of ?k]
    by (simp_all add: initial_kernel_def) (simp add: with_tasks_def)
  moreover have "kernel_main pf env ?init =
      bind_res (boot_validate k3) (\<lambda>k7. boot_start pf env (boot_table env) k7)"
    by (simp only: kernel_main_def o1 o2 reg bind_res_simps prod.case)
  ultimately show ?thesis by blast
qed

lemma boot_start_done:
  assumes k3: "unscheduled k3" "registry k3 = slots (boot_tasks env)" "task_count k3 = length (boot_tasks env)"
      "channels k3 = channel_table" "clean_reset pf (pmp k3)" "mem k3 = boot_memory env m"
    and v: "boot_validate k3 = Inr k7"
  shows "\<exists>k'. boot_start pf env (boot_table env) k7 = Inr (frame_of (current_task_idx k') k', k') \<and>
      boot_done pf env m (frame_of (current_task_idx k') k') k' \<and>
      (\<forall>i < length (boot_tasks env). frames k' (frame_slot (kernel_stacks pf) i) =
         Some (initial_frame (task_returned env) (global_pointer env) (boot_tasks env ! i)))"
proof -
  let ?ds = "boot_tasks env"
  have len: "length ?ds \<le> MAX_TASKS" "0 < length ?ds" by (simp_all add: boot_tasks_length)
  obtain out where k7: "k7 = k3\<lparr>uart := out\<rparr>" and ch: "check_channel_conflicts (registry k3) = Inr ()"
    using boot_validate_value [OF v] by blast
  have f: "unscheduled k7" "0 < task_count k7" "endpoints_unique (registry k7)" "channels k7 = channel_table"
    "clean_reset pf (pmp k7)"
    using k3 len channel_check_passes [OF ch] by (simp_all add: k7 unscheduled_def table_wf_def)
  obtain k' where k': "boot_start pf env (boot_table env) k7 = Inr (frame_of (current_task_idx k') k', k')"
    "\<forall>i < task_count k7. live pf i k'" "booted_from (boot_table env) k7 k'" "mem k' = mem k7"
    "channels k' = channel_table" "framed pf (task_returned env) (global_pointer env) k7 k'"
    using boot_start_value [OF f(1,2) boot_table_length f(3-5), of env] by blast
  have r7: "task_count k7 = length ?ds" "registry k7 = slots ?ds" "mem k7 = boot_memory env m"
    by (simp_all add: k7 k3)
  have tc: "task_count k' = length ?ds" using k'(3) r7(1) by (simp add: booted_from_def)
  have slot: "slots ?ds ! i = Some (?ds ! i)" if "i < length ?ds" for i
    using nth_slots [OF len(1), of i] that len(1) by simp
  have "statics k' ! i = Some (td_static ((?ds ! i)\<lparr>td_max_inherited_priority := boot_table env ! i\<rparr>))"
    if i: "i < length ?ds" for i
    using k'(3) slot [OF i] i unfolding booted_from_def r7 by auto
  then have "boot_done pf env m (frame_of (current_task_idx k') k') k'"
    using k'(2,4,5) r7 len(2) tc by (simp add: boot_done_def)
  with k'(1,6) slot show ?thesis unfolding framed_def r7 by blast
qed

lemma kernel_main_boots:
  assumes clean: "clean_reset pf r"
  shows "if boot_admissible env
         then \<exists>frame k. kernel_main pf env (initial_kernel m r t fs) = Inr (frame, k) \<and> boot_done pf env m frame k
         else \<exists>e. kernel_main pf env (initial_kernel m r t fs) = Inl e"
proof -
  obtain k3 where main: "kernel_main pf env (initial_kernel m r t fs) =
        bind_res (boot_validate k3) (\<lambda>k7. boot_start pf env (boot_table env) k7)"
    and k3: "unscheduled k3" "registry k3 = slots (boot_tasks env)" "task_count k3 = length (boot_tasks env)"
      "channels k3 = channel_table" "pmp k3 = r" "mem k3 = boot_memory env m"
    using kernel_main_registers by blast
  have adm: "(\<forall>d. Some d \<in> set (registry k3) \<longrightarrow> placed d) \<longleftrightarrow> (\<forall>d \<in> set (boot_tasks env). placed d)"
    by (auto simp: k3(2) slots_def)
  show ?thesis
  proof (cases "boot_admissible env")
    case True
    then obtain k7 where v: "boot_validate k3 = Inr k7"
      using boot_validate_ok [of k3] adm by (auto simp: boot_admissible_def k3(2))
    have "clean_reset pf (pmp k3)" using clean k3(5) by simp
    from boot_start_done [OF k3(1-4) this k3(6) v] v True show ?thesis by (auto simp: main)
  next
    case False
    then have "boot_validate k3 \<noteq> Inr k7" for k7
      using boot_validate_value [of k3 k7] adm by (auto simp: boot_admissible_def k3(2))
    then obtain e where "boot_validate k3 = Inl e" by (cases "boot_validate k3") auto
    with False show ?thesis by (simp add: main)
  qed
qed

lemma kernel_main_frames:
  assumes "clean_reset pf r" and main: "kernel_main pf env (initial_kernel m r t fs) = Inr (frame, k)"
    and "i < length (boot_tasks env)"
  shows "frames k (frame_slot (kernel_stacks pf) i) =
           Some (initial_frame (task_returned env) (global_pointer env) (boot_tasks env ! i))"
proof -
  obtain k3 where k3: "kernel_main pf env (initial_kernel m r t fs) =
        bind_res (boot_validate k3) (\<lambda>k7. boot_start pf env (boot_table env) k7)"
      "unscheduled k3" "registry k3 = slots (boot_tasks env)" "task_count k3 = length (boot_tasks env)"
      "channels k3 = channel_table" "pmp k3 = r" "mem k3 = boot_memory env m"
    using kernel_main_registers by blast
  obtain k7 where v: "boot_validate k3 = Inr k7" using main k3(1) by (cases "boot_validate k3") auto
  have "clean_reset pf (pmp k3)" using assms(1) k3(6) by simp
  from boot_start_done [OF k3(2-5) this k3(7) v] main k3(1) v assms(3) show ?thesis by auto
qed

section \<open>The shipped configurations\<close>

text \<open>The linker script places the task stacks at the regions the configurations name.\<close>

definition linked :: "boot_env \<Rightarrow> bool" where
  "linked env \<longleftrightarrow>
     task_stack env 0 = 0x800B8000 \<and> task_stack env 1 = 0x800B9000 \<and> task_stack env 2 = 0x800BA000 \<and>
     stack_rogue env = 0x800BB000"

lemmas task_set_defs =
  boot_tasks_def demo_tasks_def rogue_tasks_def idle_task_def into_descriptor_def with_entry_def
  with_channels_def with_capabilities_def with_mode_def task_new_def TASK_L_def TASK_M_def TASK_H_def
  SENSOR_READER_def FILTER_def UART_LOGGER_def

lemma mask_has_small:
  assumes "m < 256" and "mask_has m i" shows "i < MAX_CHANNELS"
proof -
  have "take_bit 8 m = m" using assms(1) by (simp add: take_bit_eq_mod mod_word_less)
  then show ?thesis using assms(2) by (metis bit_take_bit_iff mask_has_bit)
qed

lemma linked_admissible:
  assumes "linked env" shows "boot_admissible env"
proof -
  have "\<forall>d \<in> set (boot_tasks env). placed d"
    using assms by (simp add: linked_def placed_def task_set_defs Let_def)
  moreover have "check_capability_conflicts (slots (boot_tasks env)) = Inr ()"
    by (simp add: capability_check_ok_iff occupied_slots task_set_defs Let_def)
  moreover have "\<forall>t \<in> set (boot_tasks env). td_sends_mask t < 256 \<and> td_receives_mask t < 256"
    by (simp add: task_set_defs Let_def)
  moreover have "sorted_wrt (\<lambda>a b. td_sends_mask a AND td_sends_mask b = 0) (boot_tasks env) \<and>
      sorted_wrt (\<lambda>a b. td_receives_mask a AND td_receives_mask b = 0) (boot_tasks env)"
    by (simp add: task_set_defs Let_def)
  ultimately show ?thesis
    using mask_has_small by (auto simp: boot_admissible_def channel_check_ok_iff occupied_slots)
qed

text \<open>
  A concrete machine: protection on, kernel stacks at \<open>0x80081000\<close>, the kernel and the devices below the
  task regions, a clean reset, and the canary of
  the idle stack already in place as the image loader leaves it.
\<close>

definition demo_platform :: platform where
  "demo_platform = \<lparr>pmp_feature = True, kernel_stacks = 0x80081000, flash_image = (0x80000000, 0x80010000),
      kernel_data = (\<lambda>a. a < 0x800B8000)\<rparr>"

definition demo_env :: boot_env where
  "demo_env =
     \<lparr>demo_hml = False, fault_demo = False, version = ''0.1.0'',
      task_stack = (\<lambda>i. 0x800B8000 + of_nat i * 0x1000), task_entry = (\<lambda>i. 0x80001000 + of_nat i * 0x100),
      stack_rogue = 0x800BB000, entry_rogue = 0x80002000, stack_idle = 0x80085000, entry_idle = 0x80002100,
      task_returned = 0x80002200, global_pointer = 0x80080800, stext = 0x80000000, sdata = 0x80080000,
      edata = 0x80080100, sbss = 0x80080100, ebss = 0x80086000, stack_start = 0x800B8000, boot_mtime = 0\<rparr>"

definition demo_memory :: memory where
  "demo_memory = write_canary (stack_idle demo_env) (\<lambda>_. 0)"

definition demo_reset :: kernel where
  "demo_reset = initial_kernel demo_memory \<lparr>pmpaddr = (\<lambda>_. 0), pmpcfg0 = 0, pmpcfg3 = 0\<rparr>
     \<lparr>tick_count = 0, next_deadline = 0, mtimecmp = 0\<rparr> Map.empty"

definition booted :: kernel where
  "booted = (case kernel_main demo_platform demo_env demo_reset of Inr (frame, k) \<Rightarrow> k | Inl e \<Rightarrow> demo_reset)"

lemma demo_linked: "linked demo_env" by (simp add: linked_def demo_env_def)

lemma demo_clean: "clean_reset demo_platform \<lparr>pmpaddr = (\<lambda>_. 0), pmpcfg0 = 0, pmpcfg3 = 0\<rparr>"
  by (simp add: clean_reset_def)

lemma demo_boots:
  "kernel_main demo_platform demo_env demo_reset = Inr (frame_of (current_task_idx booted) booted, booted)"
  "boot_done demo_platform demo_env demo_memory (frame_of (current_task_idx booted) booted) booted"
proof -
  obtain frame k where k: "kernel_main demo_platform demo_env demo_reset = Inr (frame, k)"
    "boot_done demo_platform demo_env demo_memory frame k"
    using kernel_main_boots [OF demo_clean, of demo_env demo_memory
        "\<lparr>tick_count = 0, next_deadline = 0, mtimecmp = 0\<rparr>" Map.empty] linked_admissible [OF demo_linked]
    unfolding demo_reset_def by auto
  then have "booted = k" "frame = frame_of (current_task_idx k) k"
    by (simp_all add: booted_def boot_done_def)
  with k show "kernel_main demo_platform demo_env demo_reset = Inr (frame_of (current_task_idx booted) booted, booted)"
    "boot_done demo_platform demo_env demo_memory (frame_of (current_task_idx booted) booted) booted"
    by simp_all
qed

lemma booted_live: "live demo_platform 3 booted"
  using demo_boots(2) by (simp add: boot_done_def boot_tasks_length demo_env_def)

text \<open>The sensor reader, alone at the highest effective priority, is the first task to run.\<close>

lemma booted_slot:
  assumes "i < 4"
  shows "statics booted ! i = Some (td_static ((boot_tasks demo_env ! i)
           \<lparr>td_max_inherited_priority := PIPELINE_MAX_INHERITED_PRIORITIES ! i\<rparr>))"
  using demo_boots(2) assms
  by (simp add: boot_done_def boot_tasks_length boot_table_def) (simp add: demo_env_def)

lemma booted_priority:
  assumes "statics k = statics booted" and "i < 4" and "registry k ! i = Some d" and "length (registry k) = MAX_TASKS"
  shows "effective_priority d = [3, 2, 1, 0] ! i"
proof -
  have "statics k ! i = Some (td_static d)" using assms(2-4) by (simp add: statics_def)
  then have "td_static d = td_static ((boot_tasks demo_env ! i)
      \<lparr>td_max_inherited_priority := PIPELINE_MAX_INHERITED_PRIORITIES ! i\<rparr>)"
    using booted_slot [OF assms(2)] assms(1) by simp
  from effective_priority_static [OF this] have "effective_priority d =
      max (td_priority (boot_tasks demo_env ! i)) (PIPELINE_MAX_INHERITED_PRIORITIES ! i)"
    by (simp add: effective_priority_def)
  moreover have "i = 0 \<or> i = 1 \<or> i = 2 \<or> i = 3" using assms(2) by linarith
  ultimately show ?thesis
    by (auto simp: task_set_defs PIPELINE_MAX_INHERITED_PRIORITIES_def IDLE_PRIORITY_def demo_env_def Let_def)
qed

text \<open>The slots of the pipeline are in the order of their priorities: the first one able to run does.\<close>

lemma first_available_runs:
  assumes "live demo_platform 3 k" and st: "statics k = statics booted" and tc: "task_count k = 4"
    and n: "available n k" "\<forall>i < n. \<not> available i k"
  shows "unat (current_task_idx k) = n"
proof (rule ccontr)
  assume ne: "unat (current_task_idx k) \<noteq> n"
  let ?c = "unat (current_task_idx k)"
  have s: "sched_inv k" and core: "core_inv k"
    using assms(1) by (auto simp: kernel_invs sched_inv_def)
  have len: "length (registry k) = MAX_TASKS" using sched_inv_wf(1) [OF s] by (simp add: table_wf_def)
  obtain d where d: "task_ptr (current_task_idx k) k = Some d" "?c < 4" "registry k ! ?c = Some d" "?c < MAX_TASKS"
    using current_slot [OF s] tc by auto
  have "td_state d = Running" using s d(1) by (auto simp: sched_inv_def running_def)
  then have "available ?c k" using waits_nth [OF core d(4)] d tc by (simp add: available_def wait_of_def)
  with n(2) ne have lt: "n < ?c" by (metis linorder_neqE_nat)
  obtain e where e: "registry k ! n = Some e" "(of_nat n, effective_priority e) \<in># pq_bag (ready_queue k)"
    using available_ready [OF s n(1)] ne by auto
  then have le: "effective_priority e \<le> effective_priority d"
    using s d(1) by (fastforce simp: sched_inv_def running_best_def current_effective_def)
  have "effective_priority e = [3, 2, 1, 0] ! n" "effective_priority d = [3, 2, 1, 0] ! ?c"
    using booted_priority [OF st _ _ len] e(1) d(2,3) lt by auto
  moreover have "n = 0 \<and> (?c = 1 \<or> ?c = 2 \<or> ?c = 3) \<or> n = 1 \<and> (?c = 2 \<or> ?c = 3) \<or> n = 2 \<and> ?c = 3"
    using d(2) lt by linarith
  ultimately show False using le by (auto simp: word_le_nat_alt)
qed

lemma booted_count: "task_count booted = 4"
  using demo_boots(2) by (simp add: boot_done_def boot_tasks_length demo_env_def)

lemma booted_available: "i < 4 \<Longrightarrow> available i booted"
  using demo_boots(2) by (simp add: boot_done_def boot_tasks_length demo_env_def live_def)

lemma booted_channels: "channels booted = channel_table"
  using demo_boots(2) by (simp add: boot_done_def)

lemma booted_current: "current_task_idx booted = 0"
  using first_available_runs [OF booted_live refl booted_count booted_available, of 0]
  by (simp add: unat_eq_zero)

lemma booted_task:
  "\<exists>t. current_task booted = Some t \<and>
       td_static t = td_static ((boot_tasks demo_env ! 0)\<lparr>td_max_inherited_priority := 3\<rparr>)"
proof -
  have "sched_inv booted" using booted_live by (simp add: kernel_invs)
  from current_slot [OF this] booted_slot [of 0] show ?thesis
    by (auto simp: current_task_def booted_current PIPELINE_MAX_INHERITED_PRIORITIES_def)
qed

lemma booted_canaries:
  assumes st: "statics k = statics booted" and m: "mem k = mem booted" and reg: "length (registry k) = MAX_TASKS"
    and i: "i < 4"
  shows "\<not> stack_overflow k i"
proof -
  have bm: "mem booted = boot_memory demo_env demo_memory" using demo_boots(2) by (simp add: boot_done_def)
  have cases: "i = 0 \<or> i = 1 \<or> i = 2 \<or> i = 3" using i by linarith
  have base: "td_stack_base (boot_tasks demo_env ! i) = [0x800B8000, 0x800B9000, 0x800BA000, 0x80085000] ! i"
    using cases by (auto simp: task_set_defs demo_env_def Let_def)
  have "canary_intact ([0x800B8000, 0x800B9000, 0x800BA000, 0x80085000] ! i) (mem k)"
    using cases unfolding m bm
    by (elim disjE) (simp_all add: boot_memory_def demo_memory_def demo_env_def canary_write canary_write_other)
  moreover have "td_stack_base d = td_stack_base (boot_tasks demo_env ! i)" if "registry k ! i = Some d" for d
  proof -
    have "statics k ! i = Some (td_static d)" using that reg i by (simp add: statics_def)
    then have "td_static d = td_static ((boot_tasks demo_env ! i)
        \<lparr>td_max_inherited_priority := PIPELINE_MAX_INHERITED_PRIORITIES ! i\<rparr>)"
      using booted_slot [OF i] st by simp
    from td_static_fields(3) [OF this] show ?thesis by simp
  qed
  ultimately show ?thesis
    using i base by (auto simp: stack_overflow_def task_ptr_of_nat split: option.splits)
qed

lemma booted_no_overflow: "\<forall>i < task_count booted. \<not> stack_overflow booted i"
proof -
  have "table_wf booted" using booted_live by (auto simp: kernel_invs intro: sched_inv_wf)
  then show ?thesis using booted_canaries [OF refl refl] booted_count by (simp add: table_wf_def)
qed

text \<open>As long as the canaries stand, the machine takes a timer interrupt.\<close>

lemma demo_timer:
  assumes live: "live demo_platform 3 k" and k: "kept booted k"
  shows "\<exists>f hw frame k'. is_timer f \<and> length (regs f) = 32 \<and>
           trap_handler demo_platform hw (frame_of (current_task_idx k) k) (saved f k) = Inr (frame, k') \<and>
           tick_count (clint k') = tick_count (clint k) + 1"
proof -
  let ?f = "\<lparr>regs = replicate 32 0, mepc = 0x80001000, mstatus = 0, mcause = 0x80000007, mtval = 0\<rparr>"
  let ?hw = "\<lparr>hw_entry = 0, hw_mtime = 0, hw_exit = 0\<rparr>"
  have inv: "kernel_inv demo_platform k" and "table_wf k"
    using live by (auto simp: kernel_invs intro: sched_inv_wf)
  then have reg: "length (registry k) = MAX_TASKS" by (simp add: table_wf_def)
  have f: "length (regs ?f) = 32" "is_timer ?f" by (simp_all add: is_timer_def)
  have "\<forall>i < task_count k. \<not> stack_overflow k i"
    using booted_canaries [OF _ _ reg] k booted_count by (simp add: kept_def)
  from timer_returns [OF inv f this, of ?hw] obtain k' where
    k': "trap_handler demo_platform ?hw (frame_of (current_task_idx k) k) (saved ?f k) =
      Inr (frame_of (current_task_idx k') k', k')" "timed demo_platform (hw_mtime ?hw) ?f k k'" by blast
  have "tick_count (clint k') = tick_count (clint k) + 1" using k'(2) by (simp add: timed_def timer_isr_def Let_def)
  with f k'(1) show ?thesis by blast
qed

lemma demo_tick:
  assumes "live demo_platform 3 k" and "kept booted k"
  shows "\<exists>k'. kstep demo_platform 3 k k' \<and> tick_count (clint k') = tick_count (clint k) + 1"
  using demo_timer [OF assms] by (blast intro: kstep.timer)

lemma booted_slots:
  assumes "i < MAX_TASKS" and "statics booted ! i = Some d"
  shows "i < 4" and "d = td_static ((boot_tasks demo_env ! i)
           \<lparr>td_max_inherited_priority := PIPELINE_MAX_INHERITED_PRIORITIES ! i\<rparr>)"
proof -
  have wf: "table_wf booted" and n: "task_count booted = 4"
    using booted_live demo_boots(2) by (auto simp: kernel_invs boot_done_def boot_tasks_length
        demo_env_def intro: sched_inv_wf)
  have "registry booted ! i \<noteq> None" using assms wf by (auto simp: statics_def table_wf_def)
  then show "i < 4" using assms(1) wf n by (simp add: table_wf_def)
  with booted_slot assms(2) show "d = td_static ((boot_tasks demo_env ! i)
           \<lparr>td_max_inherited_priority := PIPELINE_MAX_INHERITED_PRIORITIES ! i\<rparr>)" by simp
qed

text \<open>The memory layout of the booted machine: every task but the idle
  task runs in user mode in an expressible region, the ranges do not overlap and hold nothing of the kernel.\<close>

lemma booted_ranges:
  assumes "i < MAX_TASKS" and "statics booted ! i = Some d"
  shows "i \<noteq> 3 \<Longrightarrow> td_mode d = User \<and> expressible (td_memory_start d) (td_memory_end d)"
    and "i \<noteq> 1 \<Longrightarrow> r \<in> set (writable_ranges d) \<Longrightarrow> \<not> in_range r (unat (0x800B9010 :: usize))"
    and "i \<noteq> 3 \<Longrightarrow> r \<in> set (writable_ranges d) \<Longrightarrow> in_range r (unat a) \<Longrightarrow> \<not> kernel_data demo_platform a"
proof -
  note d = booted_slots [OF assms]
  have i: "i = 0 \<or> i = 1 \<or> i = 2 \<or> i = 3" using d(1) by linarith
  have "expressible 0x800B8000 0x800B9000" "expressible 0x800B9000 0x800BA000" "expressible 0x800BA000 0x800BB000"
    by (simp_all add: expressible_def)
  with i show "td_mode d = User \<and> expressible (td_memory_start d) (td_memory_end d)" if "i \<noteq> 3"
    using that unfolding d(2) by (auto simp: td_static_sel task_set_defs demo_env_def Let_def)
  show "\<not> in_range r (unat (0x800B9010 :: usize))" if "i \<noteq> 1" "r \<in> set (writable_ranges d)"
    using i that unfolding d(2)
    by (auto simp: td_static_sel task_set_defs demo_env_def writable_ranges_def in_range_def Let_def)
  show "\<not> kernel_data demo_platform a" if "i \<noteq> 3" "r \<in> set (writable_ranges d)" "in_range r (unat a)"
    using i that unfolding d(2)
    by (auto simp: td_static_sel task_set_defs demo_env_def writable_ranges_def in_range_def demo_platform_def
        word_less_nat_alt Let_def)
qed

lemma booted_user: "\<exists>t. current_task booted = Some t \<and> td_mode t = User \<and>
    td_memory_start t = 0x800B8000 \<and> td_memory_end t = 0x800B9000 \<and> td_sends_mask t = 1 \<and>
    td_shared_cap_mask t = 0x80000000 \<and> td_stack_base t = 0x800B8000 \<and> td_stack_size t = 4096"
proof -
  obtain t where t: "current_task booted = Some t"
    "td_static t = td_static ((boot_tasks demo_env ! 0)\<lparr>td_max_inherited_priority := 3\<rparr>)"
    using booted_task by blast
  from td_static_fields [OF t(2)] t(1) show ?thesis by (simp add: task_set_defs demo_env_def Let_def)
qed

text \<open>The sensor reader may store in its region; a first step: it stores a byte there.\<close>

lemma booted_may_store:
  assumes "0x800B8000 \<le> a" and "a < 0x800B9000"
  shows "may_store booted a \<and> \<not> kernel_data demo_platform a"
proof -
  obtain t where t: "current_task booted = Some t" "td_mode t = User" "td_memory_start t = 0x800B8000"
    "td_memory_end t = 0x800B9000" using booted_user by blast
  have "kernel_inv demo_platform booted" using booted_live by (simp add: live_def)
  from store_in_region [OF _ this t(1,2), of a] show ?thesis
    using assms by (simp add: t expressible_def in_range_def demo_platform_def word_le_nat_alt word_less_nat_alt)
qed

lemma booted_store: "kstep demo_platform 3 booted (booted\<lparr>mem := (mem booted)(0x800B8010 := 7)\<rparr>)"
proof (rule kstep.store)
  show "unat (current_task_idx booted) \<noteq> 3" by (simp add: booted_current)
  fix a assume "((mem booted)(0x800B8010 := 7)) a \<noteq> mem booted a"
  then have "a = 0x800B8010" by (auto split: if_splits)
  then show "may_store booted a \<and> \<not> kernel_data demo_platform a" by (intro booted_may_store) simp_all
qed

end
