(* ===== verification/Communication.thy ===== *)
theory Communication
  imports Boot
begin

text \<open>
  What the kernel promises across whole runs: which steps may change a channel, the order in which
  messages travel, that a blocked call is restarted as it was issued, and that memory and saved
  registers of a task are its own.
\<close>

section \<open>Channels along a run\<close>

lemma kstep_channels:
  assumes step: "kstep pf idle k k'" and live: "live pf idle k" and t: "current_task k = Some t"
  shows "channel_moves t (channels k) (channels k')"
  using step
proof (cases rule: kstep.cases)
  case (ecall f hw frame)
  with ecall_inr_ok [OF live ecall(2,1,3,4) t] show ?thesis by (simp add: effects_def)
next
  case (timer f hw frame)
  with timer_inr_ok [of pf k f hw frame k'] live show ?thesis
    by (simp add: live_def timed_def channel_moves_def)
qed (simp add: channel_moves_def)

definition queued :: "nat \<Rightarrow> kernel \<Rightarrow> message list" where
  "queued c k = ch_contents (channels k ! c)"

text \<open>A run with the messages that enter channel \<open>c\<close> and the messages that leave it, in order.\<close>

inductive exchange :: "platform \<Rightarrow> nat \<Rightarrow> nat \<Rightarrow> kernel \<Rightarrow> message list \<Rightarrow> message list \<Rightarrow> kernel \<Rightarrow> bool"
  for pf idle c k where
  start: "exchange pf idle c k [] [] k"
| other: "exchange pf idle c k s r k1 \<Longrightarrow> kstep pf idle k1 k2 \<Longrightarrow> queued c k2 = queued c k1 \<Longrightarrow>
    exchange pf idle c k s r k2"
| send: "exchange pf idle c k s r k1 \<Longrightarrow> kstep pf idle k1 k2 \<Longrightarrow>
    sends_on (statics k1) (unat (current_task_idx k1)) c \<Longrightarrow> queued c k2 = queued c k1 @ [m] \<Longrightarrow>
    exchange pf idle c k (s @ [m]) r k2"
| receive: "exchange pf idle c k s r k1 \<Longrightarrow> kstep pf idle k1 k2 \<Longrightarrow>
    receives_on (statics k1) (unat (current_task_idx k1)) c \<Longrightarrow> queued c k1 = m # queued c k2 \<Longrightarrow>
    exchange pf idle c k s (r @ [m]) k2"

lemma exchange_order: "exchange pf idle c k s r k' \<Longrightarrow> queued c k @ s = r @ queued c k'"
  by (induction rule: exchange.induct) auto

lemma run_exchange:
  assumes "(kstep pf idle)\<^sup>*\<^sup>* k k'" and "live pf idle k" and c: "c < MAX_CHANNELS"
  shows "\<exists>s r. exchange pf idle c k s r k'"
  using assms(1)
proof (induction rule: rtranclp_induct)
  case base
  show ?case by (blast intro: exchange.start)
next
  case (step k1 k2)
  then obtain s r where run: "exchange pf idle c k s r k1" by blast
  have live1: "live pf idle k1" using reachable_live [OF step.hyps(1) assms(2)] by blast
  then have inv: "sched_inv k1" "length (channels k1) = MAX_CHANNELS"
    by (auto simp: kernel_invs chan_inv_def)
  obtain t where t: "current_task k1 = Some t" using live_task [OF live1] by blast
  note own = current_owner [OF inv(1) t]
  from kstep_channels [OF step.hyps(2) live1 t]
  have "queued c k2 = queued c k1 \<or>
      mask_has (td_sends_mask t) c \<and> (\<exists>m. queued c k2 = queued c k1 @ [m]) \<or>
      mask_has (td_receives_mask t) c \<and> (\<exists>m. queued c k1 = m # queued c k2)"
    using inv(2) c by (auto simp: channel_moves_def queued_def nth_list_update split: if_splits)
  then show ?case
    using exchange.intros(2-4) [OF run step.hyps(2)] own by blast
qed

section \<open>Runs in which a task does not run\<close>

definition away :: "platform \<Rightarrow> nat \<Rightarrow> nat \<Rightarrow> kernel \<Rightarrow> kernel \<Rightarrow> bool" where
  "away pf idle j k k' \<longleftrightarrow> kstep pf idle k k' \<and> unat (current_task_idx k) \<noteq> j"

lemma away_kstep: "(away pf idle j)\<^sup>*\<^sup>* k k' \<Longrightarrow> (kstep pf idle)\<^sup>*\<^sup>* k k'"
  by (erule rtranclp_mono [THEN predicate2D, rotated]) (auto simp: away_def)

text \<open>Byte \<open>a\<close> lies in no range that a task other than \<open>j\<close> may write.\<close>

definition private_to :: "nat \<Rightarrow> usize \<Rightarrow> kernel \<Rightarrow> bool" where
  "private_to j a k \<longleftrightarrow>
     (\<forall>i < MAX_TASKS. \<forall>d. i \<noteq> j \<longrightarrow> statics k ! i = Some d \<longrightarrow>
        (\<forall>r \<in> set (writable_ranges d). \<not> in_range r (unat a)))"

text \<open>
  Every registered task outside \<open>J\<close> runs in user mode, in a region the protection registers can express.
\<close>

definition confined :: "nat set \<Rightarrow> kernel \<Rightarrow> bool" where
  "confined J k \<longleftrightarrow>
     (\<forall>i < MAX_TASKS. \<forall>d. i \<notin> J \<longrightarrow> statics k ! i = Some d \<longrightarrow>
        td_mode d = User \<and> expressible (td_memory_start d) (td_memory_end d))"

lemma confined_mono: "confined J k \<Longrightarrow> J \<subseteq> J' \<Longrightarrow> confined J' k"
  unfolding confined_def by blast

lemma booted_confined: "confined {3} booted"
  using booted_ranges(1) by (simp add: confined_def)

lemma confined_task:
  assumes "confined J k" and "sched_inv k" and "current_task k = Some t" and "unat (current_task_idx k) \<notin> J"
  shows "td_mode t = User \<and> expressible (td_memory_start t) (td_memory_end t)"
proof -
  have "unat (current_task_idx k) < MAX_TASKS" "statics k ! unat (current_task_idx k) = Some (td_static t)"
    using current_slot [OF assms(2)] assms(3) by (auto simp: current_task_def)
  with assms(1,4) show ?thesis by (auto simp: confined_def td_static_sel)
qed

lemma writable_ranges_static: "writable_ranges (td_static d) = writable_ranges d"
  by (simp add: writable_ranges_def td_static_sel)

lemma away_memory:
  assumes "(away pf idle j)\<^sup>*\<^sup>* k k'" and live: "live pf idle k" and pmp: "pmp_feature pf"
    and reg: "confined {idle, j} k" and priv: "private_to j a k"
  shows "mem k' a = mem k a"
  using assms(1)
proof (induction rule: rtranclp_induct)
  case (step k1 k2)
  have k1: "live pf idle k1" "statics k1 = statics k"
    using reachable_live [OF away_kstep [OF step.hyps(1)] live] by auto
  then have "sched_inv k1" by (simp add: kernel_invs)
  from current_slot [OF this] obtain t where t: "current_task k1 = Some t"
    "unat (current_task_idx k1) < MAX_TASKS" "statics k ! unat (current_task_idx k1) = Some (td_static t)"
    using k1(2) by (auto simp: current_task_def)
  have ks: "kstep pf idle k1 k2" "unat (current_task_idx k1) \<noteq> j" using step.hyps(2) by (simp_all add: away_def)
  have "mem k2 a = mem k1 a"
  proof (rule ccontr)
    assume "mem k2 a \<noteq> mem k1 a"
    moreover have "confined {idle, j} k1" using reg k1(2) by (simp add: confined_def)
    then have "unat (current_task_idx k1) \<noteq> idle \<Longrightarrow>
        td_mode t = User \<and> expressible (td_memory_start t) (td_memory_end t)"
      using confined_task [OF _ \<open>sched_inv k1\<close> t(1)] ks(2) by simp
    ultimately have "\<exists>r \<in> set (writable_ranges t). in_range r (unat a)"
      using kstep_memory [OF ks(1) k1(1) pmp t(1)] by blast
    with priv t ks(2) show False by (auto simp: private_to_def writable_ranges_static)
  qed
  with step.IH show ?case by simp
qed simp

lemma away_frames:
  assumes "(away pf idle j)\<^sup>*\<^sup>* k k'" and live: "live pf idle k" and j: "j < task_count k"
  shows "frames k' (frame_slot (kernel_stacks pf) j) = frames k (frame_slot (kernel_stacks pf) j)"
  using assms(1)
proof (induction rule: rtranclp_induct)
  case (step k1 k2)
  have k1: "live pf idle k1" "task_count k1 = task_count k"
    using reachable_live [OF away_kstep [OF step.hyps(1)] live] by auto
  then have inv: "kernel_inv pf k1" "sched_inv k1" by (auto simp: kernel_invs)
  have "table_wf k1" by (rule sched_inv_wf(1) [OF inv(2)])
  then have "j < MAX_TASKS" using j k1(2) by (simp add: table_wf_def)
  moreover have "unat (current_task_idx k1) < MAX_TASKS" using current_slot [OF inv(2)] by blast
  moreover have ks: "kstep pf idle k1 k2" "unat (current_task_idx k1) \<noteq> j"
    using step.hyps(2) by (simp_all add: away_def)
  ultimately have "frame_slot (kernel_stacks pf) j \<noteq> frame_of (current_task_idx k1) k1"
    unfolding current_frame(1) [OF inv(1)] using frame_slot_inj by metis
  with kstep_frames [OF ks(1) k1(1)] step.IH show ?case by simp
qed simp

section \<open>Stores into the memory of the kernel\<close>

text \<open>
  The statics, the saved frames and the device registers are fields of the model's state beside \<open>mem\<close>, but
  they lie in the same address space. The machine therefore has more steps than \<open>kstep\<close>: where the
  running task can store at an address of the kernel, or have the kernel copy a message there, the
  state afterwards is arbitrary.
\<close>

inductive mstep :: "platform \<Rightarrow> nat \<Rightarrow> kernel \<Rightarrow> kernel \<Rightarrow> bool" for pf idle where
  regular: "kstep pf idle k k' \<Longrightarrow> mstep pf idle k k'"
| overwrite: "unat (current_task_idx k) \<noteq> idle \<Longrightarrow> may_store k a \<Longrightarrow> kernel_data pf a \<Longrightarrow> mstep pf idle k k'"
| copied: "kstep pf idle k k1 \<Longrightarrow> mem k1 a \<noteq> mem k a \<Longrightarrow> kernel_data pf a \<Longrightarrow> mstep pf idle k k'"

text \<open>No task outside \<open>J\<close> has an address of the kernel in its region or its stack.\<close>

definition kernel_apart :: "platform \<Rightarrow> nat set \<Rightarrow> kernel \<Rightarrow> bool" where
  "kernel_apart pf J k \<longleftrightarrow>
     (\<forall>i < MAX_TASKS. \<forall>d. i \<notin> J \<longrightarrow> statics k ! i = Some d \<longrightarrow>
        (\<forall>r \<in> set (writable_ranges d). \<forall>a. in_range r (unat a) \<longrightarrow> \<not> kernel_data pf a))"

lemma kernel_apart_mono: "kernel_apart pf J k \<Longrightarrow> J \<subseteq> J' \<Longrightarrow> kernel_apart pf J' k"
  unfolding kernel_apart_def by blast

lemma booted_apart: "kernel_apart demo_platform {3} booted"
  using booted_ranges(3) by (simp add: kernel_apart_def)

lemma kernel_apart_task:
  assumes "kernel_apart pf J k" and "sched_inv k" and "current_task k = Some t" and "unat (current_task_idx k) \<notin> J"
    and "r \<in> set (writable_ranges t)" and "in_range r (unat a)"
  shows "\<not> kernel_data pf a"
proof -
  have "unat (current_task_idx k) < MAX_TASKS" "statics k ! unat (current_task_idx k) = Some (td_static t)"
    using current_slot [OF assms(2)] assms(3) by (auto simp: current_task_def)
  with assms(1,4-6) show ?thesis by (metis kernel_apart_def writable_ranges_static)
qed

lemma idle_step_memory:
  assumes "kstep pf idle k k'" and "live pf idle k" and "unat (current_task_idx k) = idle"
  shows "mem k' = mem k"
  using assms(1)
proof (cases rule: kstep.cases)
  case (timer f hw frame)
  with timer_inr_ok [of pf k f hw frame k'] assms(2) show ?thesis by (auto simp: live_def timed_def)
qed (use assms(3) in simp_all)

text \<open>With protection, a machine whose running task is confined makes no step but those of \<open>kstep\<close>.\<close>

lemma mstep_kstep:
  assumes step: "mstep pf idle k k'" and live: "live pf idle k" and pmp: "pmp_feature pf"
    and conf: "confined J k" "kernel_apart pf J k" and cur: "unat (current_task_idx k) \<notin> J - {idle}"
  shows "kstep pf idle k k'"
proof -
  have inv: "kernel_inv pf k" "sched_inv k" using live by (auto simp: kernel_invs)
  obtain t where t: "current_task k = Some t" using live_task [OF live] by blast
  have user: "td_mode t = User \<and> expressible (td_memory_start t) (td_memory_end t)"
    and own: "\<And>r a. r \<in> set (writable_ranges t) \<Longrightarrow> in_range r (unat a) \<Longrightarrow> \<not> kernel_data pf a"
    if "unat (current_task_idx k) \<noteq> idle"
    using confined_task [OF conf(1) inv(2) t] kernel_apart_task [OF conf(2) inv(2) t] that cur by blast+
  show ?thesis
    using step
  proof (cases rule: mstep.cases)
    case (overwrite a)
    have "in_range (td_memory_start t, td_memory_end t) (unat a)"
      using store_in_region [OF pmp inv(1) t] user [OF overwrite(1)] overwrite(2) by blast
    with own [OF overwrite(1), of "(td_memory_start t, td_memory_end t)" a] overwrite(3) show ?thesis
      by (simp add: writable_ranges_def)
  next
    case (copied k1 a)
    show ?thesis
    proof (cases "unat (current_task_idx k) = idle")
      case True
      with idle_step_memory [OF copied(1) live] copied(2) show ?thesis by simp
    next
      case False
      from kstep_memory [OF copied(1) live pmp t user copied(2)] own [OF False] copied(3) show ?thesis by blast
    qed
  qed
qed

definition machine_away :: "platform \<Rightarrow> nat \<Rightarrow> nat \<Rightarrow> kernel \<Rightarrow> kernel \<Rightarrow> bool" where
  "machine_away pf idle j k k' \<longleftrightarrow> mstep pf idle k k' \<and> unat (current_task_idx k) \<noteq> j"

lemma machine_away_run:
  assumes "(machine_away pf idle j)\<^sup>*\<^sup>* k k'" and live: "live pf idle k" and pmp: "pmp_feature pf"
    and conf: "confined {idle, j} k" "kernel_apart pf {idle, j} k"
  shows "(away pf idle j)\<^sup>*\<^sup>* k k'"
  using assms(1)
proof (induction rule: rtranclp_induct)
  case (step k1 k2)
  have k1: "live pf idle k1" "statics k1 = statics k"
    using reachable_live [OF away_kstep [OF step.IH] live] by auto
  then have "confined {idle, j} k1" "kernel_apart pf {idle, j} k1"
    using conf by (simp_all add: confined_def kernel_apart_def)
  moreover have "mstep pf idle k1 k2" "unat (current_task_idx k1) \<noteq> j"
    using step.hyps(2) by (simp_all add: machine_away_def)
  ultimately have "away pf idle j k1 k2" using mstep_kstep [OF _ k1(1) pmp] by (simp add: away_def)
  with step.IH show ?case by simp
qed simp

section \<open>Reading for a task\<close>

text \<open>What the kernel reads on behalf of a task, the task could read itself.\<close>

lemma readable_by_user:
  assumes pmp: "pmp_feature pf" "kernel_inv pf k" and t: "current_task k = Some t" "td_mode t = User"
    "expressible (td_memory_start t) (td_memory_end t)" "placed t"
    and flash: "0x80000000 \<le> fst (flash_image pf)" "snd (flash_image pf) \<le> 0x80080000"
    and r: "r \<in> set (readable_ranges pf t)" "in_range r (unat a)"
  shows "user_perms (pmp k) (unat a) AND PMP_R \<noteq> 0"
proof -
  have "pmp_holds t (pmp k)"
    using pmp t(1) by (auto simp: kernel_inv_def pmp_tracks_def current_task_def)
  from user_perms_holds [OF this t(2,3)] have view: "user_perms (pmp k) (unat a) = task_view t (unat a)" .
  have "r = (td_memory_start t, td_memory_end t) \<or> r = (td_stack_base t, td_stack_base t + td_stack_size t) \<or>
      r = flash_image pf" using r(1) by (auto simp: readable_ranges_def)
  moreover have "in_range (td_memory_start t, td_memory_end t) (unat a)"
    if "in_range (td_stack_base t, td_stack_base t + td_stack_size t) (unat a)"
    using that t(2,4) by (auto simp: in_range_def placed_def word_le_nat_alt)
  moreover have "in_range (0x80000000, 0x80080000) (unat a)" if "in_range (flash_image pf) (unat a)"
    using that flash by (auto simp: in_range_def word_le_nat_alt split: prod.splits)
  ultimately have "in_range (td_memory_start t, td_memory_end t) (unat a) \<or>
      in_range (0x80000000, 0x80080000) (unat a)" using r(2) by blast
  then show ?thesis unfolding view by (auto simp: task_view_def in_range_def pmp_consts)
qed

section \<open>A store and its outcome\<close>

text \<open>
  The running task, its registers as in \<open>f\<close>, stores the byte \<open>v\<close> at \<open>a\<close>: either the machine lets it, and in
  the memory of the kernel anything may come of it, or it raises
  a store access fault (cause 7) with the address in \<open>mtval\<close>.
\<close>

inductive store_outcome ::
  "platform \<Rightarrow> hw_input \<Rightarrow> trap_frame \<Rightarrow> usize \<Rightarrow> u8 \<Rightarrow> kernel \<Rightarrow> kernel res \<Rightarrow> bool" for pf hw f a v k where
  stored: "may_store k a \<Longrightarrow> \<not> kernel_data pf a \<Longrightarrow> store_outcome pf hw f a v k (Inr (k\<lparr>mem := (mem k)(a := v)\<rparr>))"
| overwrote: "may_store k a \<Longrightarrow> kernel_data pf a \<Longrightarrow> store_outcome pf hw f a v k r"
| trapped: "\<not> may_store k a \<Longrightarrow>
    bind_res (trap_handler pf hw (frame_of (current_task_idx k) k) (saved (f\<lparr>mcause := 7, mtval := a\<rparr>) k))
      (\<lambda>(frame, k'). Inr k') = r \<Longrightarrow> store_outcome pf hw f a v k r"

inductive_simps store_outcome_iff: "store_outcome pf hw f a v k r"

lemma store_outcome_user:
  assumes "pmp_feature pf" and "kernel_inv pf k" and "current_task k = Some t"
    and "td_mode t = User" and "expressible (td_memory_start t) (td_memory_end t)"
    and "in_range (td_memory_start t, td_memory_end t) (unat a) \<Longrightarrow> \<not> kernel_data pf a"
  shows "store_outcome pf hw f a v k r \<longleftrightarrow>
           r = (if in_range (td_memory_start t, td_memory_end t) (unat a) \<and> \<not> in_range (0x80000000, 0x80080000) (unat a)
                then Inr (k\<lparr>mem := (mem k)(a := v)\<rparr>)
                else Inl (HardwareFault 7 (mepc f) a))"
  using store_in_region [OF assms(1-5), of a] exception_halts [of "f\<lparr>mcause := 7, mtval := a\<rparr>" pf hw k] assms(6)
  by (auto simp: store_outcome_iff)

section \<open>Blocking calls\<close>

text \<open>The reason for which the call in frame \<open>f\<close>, issued by \<open>task\<close>, has to wait.\<close>

definition blocks_on :: "platform \<Rightarrow> task_descriptor \<Rightarrow> kernel \<Rightarrow> trap_frame \<Rightarrow> block_reason option" where
  "blocks_on pf task k f =
     (let ch = regs f ! REG_A0; ptr = regs f ! REG_A1; n = regs f ! REG_A2; flags = regs f ! REG_A3 in
      if \<not> unat ch < MAX_CHANNELS \<or> flags AND FLAG_NONBLOCK \<noteq> 0 then None
      else if regs f ! REG_A7 = SYS_SEND \<and> holds_endpoint (td_sends_mask task) ch \<and> unat n \<le> MSG_MAX \<and>
              buffer_readable ptr n (readable_ranges pf task) \<and> ch_is_full (channels k ! unat ch)
      then Some (Send (ucast ch))
      else if regs f ! REG_A7 = SYS_RECEIVE \<and> holds_endpoint (td_receives_mask task) ch \<and>
              buffer_readable ptr n (writable_ranges task) \<and> ch_is_empty (channels k ! unat ch)
      then Some (Receive (ucast ch))
      else None)"

lemma dispatch_blocks:
  assumes k: "kernel_inv pf k" and frame: "frame = frame_of (current_task_idx k) k"
    and task: "current_task k = Some task"
    and f: "frames k frame = Some f" "length (regs f) = 32" and r: "blocks_on pf task k f = Some r"
  shows "dispatch pf frame k = block_and_restart pf frame r k"
    and "wait_owner (statics k) (unat (current_task_idx k)) r" and "must_wait (channels k) r"
proof -
  let ?ch = "regs f ! REG_A0"
  have ki: "sched_inv k" "chan_inv (channels k)" using k by (simp_all add: kernel_inv_def)
  have ch: "unat ?ch < MAX_CHANNELS" "regs f ! REG_A3 AND FLAG_NONBLOCK = 0"
    using r by (auto simp: blocks_on_def Let_def split: if_splits)
  have "channel_at (channels k) (unat ?ch) = Some (channels k ! unat ?ch)"
    using ch(1) ki(2) by (simp add: channel_at_def chan_inv_def)
  note at = this and c = channel_lookup [OF ki(2) this]
  have same: "k\<lparr>channels := (channels k)[unat ?ch := channels k ! unat ?ch]\<rparr> = k" by (cases k) simp
  have "try_receive (channels k ! unat ?ch) = Inr (None, channels k ! unat ?ch)"
    if "ch_is_empty (channels k ! unat ?ch)"
    using that by (simp add: try_receive_def ch_is_empty_def)
  then show "dispatch pf frame k = block_and_restart pf frame r k"
    using f r task at ch same
    by (auto simp: dispatch_def frame_at_def blocks_on_def sys_send_def sys_receive_def sys_numbers Let_def
        split: if_splits)
  show "wait_owner (statics k) (unat (current_task_idx k)) r" "must_wait (channels k) r"
    using r c current_owner [OF ki(1) task]
    by (auto simp: blocks_on_def holds_endpoint_def Let_def split: if_splits)
qed

text \<open>
  What \<open>trap_handler\<close> does before it dispatches a system call: the return address moves past the \<open>ecall\<close>
  and the first call of a task is reported.
\<close>

lemma ecall_dispatches:
  assumes inv: "kernel_inv pf k" and f: "is_ecall f" "length (regs f) = 32"
  shows "\<exists>k2. trap_handler pf hw (frame_of (current_task_idx k) k) (saved f k) =
                dispatch pf (frame_of (current_task_idx k) k) k2 \<and>
              kernel_inv pf k2 \<and> sched_same k k2 \<and> channels k2 = channels k \<and> mem k2 = mem k \<and> clint k2 = clint k \<and>
              frames k2 (frame_of (current_task_idx k) k) = Some (f\<lparr>mepc := mepc f + 4\<rparr>)"
proof -
  let ?frame = "frame_of (current_task_idx k) k" and ?f = "f\<lparr>mepc := mepc f + 4\<rparr>"
  obtain m out where note_eq: "note_syscall_mode (mcause f = 8) (saved ?f k) =
      Inr ((saved ?f k)\<lparr>syscall_seen := m, uart := out\<rparr>)"
    using note_syscall_mode_state by blast
  define k2 where "k2 = (saved ?f k)\<lparr>syscall_seen := m, uart := out\<rparr>"
  have same: "sched_same k k2" by (simp add: k2_def saved_def sched_same_def)
  have "kernel_inv pf k2"
    by (rule kernel_inv_local [OF inv same, of ?f]) (use f in \<open>simp_all add: k2_def saved_def\<close>)
  moreover have "trap_handler pf hw ?frame (saved f k) = dispatch pf ?frame k2"
    using f(1) note_eq
    by (auto simp: trap_handler_def frame_at_def upd_frame_def saved_def k2_def is_ecall_def Let_def)
  ultimately show ?thesis
    using same by (intro exI [of _ k2]) (simp add: k2_def saved_def)
qed

lemma ecall_blocks:
  assumes live: "live pf idle k" and f: "is_ecall f" "length (regs f) = 32" "unat (current_task_idx k) \<noteq> idle"
    and task: "current_task k = Some task" and r: "blocks_on pf task k f = Some r"
  shows "\<exists>k' w. trap_handler pf hw (frame_of (current_task_idx k) k) (saved f k) =
                  Inr (frame_of (current_task_idx k') k', k') \<and> quiet k k' \<and>
                frames k' (frame_of (current_task_idx k) k) = Some f \<and>
                waits k' = (waits k)[unat (current_task_idx k) := Some (r, w)]"
proof -
  let ?frame = "frame_of (current_task_idx k) k" and ?f = "f\<lparr>mepc := mepc f + 4\<rparr>"
  have k: "kernel_inv pf k" "available idle k" using live by (simp_all add: live_def)
  obtain k2 where trap: "trap_handler pf hw ?frame (saved f k) = dispatch pf ?frame k2"
    and inv2: "kernel_inv pf k2" and same: "sched_same k k2"
    and k2: "channels k2 = channels k" "mem k2 = mem k" "frames k2 ?frame = Some ?f"
    using ecall_dispatches [OF k(1) f(1,2), of hw] by blast
  note st = sched_same_table [OF same]
  have idx: "current_task_idx k2 = current_task_idx k" "task_count k2 = task_count k"
    using same by (simp_all add: sched_same_def)
  have "current_task k2 = Some task" using task by (simp add: current_task_def st idx)
  moreover have frame: "?frame = frame_of (current_task_idx k2) k2" by (simp add: st idx)
  moreover have "blocks_on pf task k2 ?f = Some r" using r by (simp add: blocks_on_def k2 Let_def cong: if_cong)
  ultimately have d: "dispatch pf ?frame k2 = block_and_restart pf ?frame r k2"
    "wait_owner (statics k2) (unat (current_task_idx k2)) r" "must_wait (channels k2) r"
    using dispatch_blocks [OF inv2 _ _ k2(3)] f(2) by auto
  have "available idle k2" using k(2) by (simp add: available_def st idx)
  then have "pq_bag (ready_queue k2) \<noteq> {#}"
    using queue_nonempty [of k2 idle] inv2 f(3) by (simp add: kernel_inv_def idx)
  from block_and_restart_served [OF inv2 frame d(2,3) this] k2 trap d(1) show ?thesis
    by (auto simp: st idx quiet_def)
qed

section \<open>Receiving\<close>

text \<open>
  The running task of \<open>k\<close> may receive on channel \<open>ch\<close> into its buffer at \<open>ptr\<close>; and what a receive does
  that finds a message with the given bytes in front of \<open>rest\<close>.
\<close>

definition may_receive :: "platform \<Rightarrow> usize \<Rightarrow> usize \<Rightarrow> usize \<Rightarrow> task_descriptor \<Rightarrow> kernel \<Rightarrow> bool" where
  "may_receive pf ch ptr cap task k \<longleftrightarrow>
     kernel_inv pf k \<and> current_task k = Some task \<and> holds_endpoint (td_receives_mask task) ch \<and>
     unat ch < MAX_CHANNELS \<and> buffer_readable ptr cap (writable_ranges task)"

definition receives_bytes ::
  "platform \<Rightarrow> usize \<Rightarrow> usize \<Rightarrow> usize \<Rightarrow> usize \<Rightarrow> kernel \<Rightarrow> u8 list \<Rightarrow> message list \<Rightarrow> bool" where
  "receives_bytes pf ch ptr cap flags k bytes rest \<longleftrightarrow>
     (\<exists>k' f. sys_receive pf (frame_of (current_task_idx k) k) ch ptr cap flags k =
               Inr (frame_of (current_task_idx k') k', k') \<and>
        mem k' = write_bytes ptr (take (unat cap) bytes) (mem k) \<and> queued (unat ch) k' = rest \<and>
        frames k' (frame_of (current_task_idx k) k) = Some f \<and> regs f ! REG_A0 = of_nat (length bytes))"

lemma receive_bytes:
  assumes "may_receive pf ch ptr cap task k" and "queued (unat ch) k = m # rest" and "message_bytes m = Inr bytes"
  shows "receives_bytes pf ch ptr cap flags k bytes rest"
proof -
  let ?frame = "frame_of (current_task_idx k) k"
  have k: "kernel_inv pf k" "current_task k = Some task" "holds_endpoint (td_receives_mask task) ch"
    "unat ch < MAX_CHANNELS" "buffer_readable ptr cap (writable_ranges task)"
    using assms(1) by (simp_all add: may_receive_def)
  then have len: "length (channels k) = MAX_CHANNELS" by (simp add: kernel_inv_def chan_inv_def)
  then have "channel_at (channels k) (unat ch) = Some (channels k ! unat ch)"
    using k(4) by (simp add: channel_at_def)
  from sys_receive_some [OF k(1) refl k(2) this k(3,5), of m rest bytes flags] assms(2,3)
  obtain k' f where k': "sys_receive pf ?frame ch ptr cap flags k = Inr (frame_of (current_task_idx k') k', k')"
    "mem k' = write_bytes ptr (take (min (length bytes) (unat cap)) bytes) (mem k)"
    "\<exists>chan'. channels k' = (channels k)[unat ch := chan'] \<and> ch_contents chan' = rest"
    "frames k ?frame = Some f" "frames k' ?frame = Some (f\<lparr>regs := (regs f)[REG_A0 := of_nat (length bytes)]\<rparr>)"
    by (auto simp: returns_def queued_def)
  have "length (regs f) = 32" using current_frame(2) [OF k(1)] k'(4) by auto
  moreover have "take (min (length bytes) (unat cap)) bytes = take (unat cap) bytes"
    by (metis take_all_iff min_def nat_le_linear take_take)
  moreover have "queued (unat ch) k' = rest" using k'(3) len k(4) by (auto simp: queued_def)
  ultimately show ?thesis using k' by (auto simp: receives_bytes_def)
qed

section \<open>The first steps of the pipeline\<close>

text \<open>
  Once the sensor reader sleeps the filter runs; its \<open>receive\<close> finds channel 0 empty and has to wait.
\<close>

definition receive_frame :: trap_frame where
  "receive_frame = \<lparr>regs = (replicate 32 0)[REG_A7 := SYS_RECEIVE, REG_A1 := 0x800B9F00, REG_A2 := 16],
                    mepc = 0x80001100, mstatus = 0, mcause = 8, mtval = 0\<rparr>"

lemma receive_frame_ecall: "is_ecall receive_frame" "length (regs receive_frame) = 32"
  by (simp_all add: receive_frame_def is_ecall_def)

lemma sensor_sleeps:
  "\<exists>k. live demo_platform 3 k \<and> statics k = statics booted \<and> channels k = channel_table \<and>
       unat (current_task_idx k) = 1"
proof -
  have s: "sched_inv booted" "pq_bag (ready_queue booted) \<noteq> {#}"
    using booted_live queue_nonempty [of booted 3] by (auto simp: kernel_invs booted_current)
  have cur: "unat (current_task_idx booted) \<noteq> 3" by (simp add: booted_current)
  from sleep_current_live [OF booted_live refl cur, of 10] sleep_current_inv [OF s(1) refl s(2), of demo_platform 10]
  obtain k w where k: "live demo_platform 3 k" "switched demo_platform booted k"
    "waits k = (waits booted)[0 := Some (Sleep, w)]"
    by (auto simp: booted_current)
  have kept: "statics k = statics booted" "task_count k = 4" "channels k = channel_table"
    using k(2) booted_count booted_channels by (auto simp: switched_def kept_def)
  have "length (waits booted) = MAX_TASKS" using s(1) length_waits by (simp add: sched_inv_def)
  then have "available 1 k" "\<not> available 0 k"
    using booted_available [of 1] kept(2) by (simp_all add: available_def k(3))
  from first_available_runs [OF k(1) kept(1,2) this(1)] this(2) k(1) kept show ?thesis by auto
qed

lemma filter_blocks:
  "\<exists>k task. live demo_platform 3 k \<and> current_task k = Some task \<and> unat (current_task_idx k) = 1 \<and>
            blocks_on demo_platform task k receive_frame = Some (Receive 0)"
proof -
  obtain k where k: "live demo_platform 3 k" "statics k = statics booted" "channels k = channel_table"
    "unat (current_task_idx k) = 1" using sensor_sleeps by blast
  then have "sched_inv k" by (simp add: kernel_invs)
  from current_slot [OF this] k(2,4) booted_slot [of 1] obtain t where t: "current_task k = Some t"
    "td_static t = td_static ((boot_tasks demo_env ! 1)\<lparr>td_max_inherited_priority := PIPELINE_MAX_INHERITED_PRIORITIES ! 1\<rparr>)"
    by (auto simp: current_task_def)
  have "td_memory_start t = 0x800B9000" "td_memory_end t = 0x800BA000" "td_receives_mask t = 1"
    using td_static_fields [OF t(2)] by (simp_all add: task_set_defs demo_env_def Let_def)
  then have "blocks_on demo_platform t k receive_frame = Some (Receive 0)"
    by (simp add: blocks_on_def receive_frame_def k(3) channel_table_def channel_new_def ch_is_empty_def
        holds_endpoint_def mask_has_def buffer_readable_def checked_add_def writable_ranges_def
        FLAG_NONBLOCK_def sys_numbers Let_def)
  with k(1,4) t(1) show ?thesis by blast
qed

end
