(* ===== verification/Context_Switch.thy ===== *)
theory Context_Switch
  imports Trap_Stub Communication
begin

text \<open>
  The assembly stubs against the kernel model. The model keeps the frames in a map and passes their
  address to \<open>trap_handler\<close>; the hart keeps them as bytes on the kernel stacks and in \<open>mscratch\<close> the top
  of the running task's stack. The entry stub implements \<open>saved\<close>, the exit stub resumes the frame that
  the handler returned, and both keep the two views together.
\<close>

section \<open>Frames on the kernel stacks\<close>

definition frames_rep :: "platform \<Rightarrow> kernel \<Rightarrow> memory \<Rightarrow> bool" where
  "frames_rep pf k m \<longleftrightarrow>
     (\<forall>i < task_count k. \<exists>f. frames k (frame_slot (kernel_stacks pf) i) = Some f \<and>
        frame_in m (frame_slot (kernel_stacks pf) i) f)"

definition hart_rep :: "platform \<Rightarrow> kernel \<Rightarrow> hart \<Rightarrow> bool" where
  "hart_rep pf k h \<longleftrightarrow>
     frames_rep pf k (hmem h) \<and>
     csrs h Mscratch = frame_slot (kernel_stacks pf) (unat (current_task_idx k)) + TRAP_FRAME_SIZE"

lemma frame_slot_offset:
  "frame_slot stacks i + of_nat a = (stacks + 880) + of_nat (1024 * i + a)"
  by (simp add: frame_slot_def KERNEL_STACK_SIZE_def TRAP_FRAME_SIZE_def)

lemma frame_slots_disjoint:
  assumes "i < MAX_TASKS" and "j < MAX_TASKS" and "i \<noteq> j" and "a < 144" and "b < 144"
  shows "frame_slot stacks i + of_nat a \<noteq> frame_slot stacks j + of_nat b"
proof
  assume "frame_slot stacks i + of_nat a = frame_slot stacks j + of_nat b"
  then have "(stacks + 880) + of_nat (1024 * i + a) = (stacks + 880) + of_nat (1024 * j + b)"
    by (simp only: frame_slot_offset)
  moreover have "1024 * i + a < 2 ^ 32" "1024 * j + b < 2 ^ 32" using assms by simp_all
  ultimately have "1024 * i + a = 1024 * j + b" by (rule offset_inj [rotated 2])
  then have "(1024 * i + a) div 1024 = (1024 * j + b) div 1024" by (rule arg_cong)
  with assms show False by simp
qed

lemma interrupted_regs: "length (regs (interrupted h)) = 32"
  by (simp add: interrupted_def)

lemma entry_implements_saved:
  assumes k: "kernel_inv pf k" and rep: "hart_rep pf k h"
  defines "h1 \<equiv> exec trap_entry h"
  shows "xget h1 10 = frame_of (current_task_idx k) k"
    and "frames_rep pf (saved (interrupted h) k) (hmem h1)"
proof -
  let ?p = "frame_of (current_task_idx k) k" and ?c = "unat (current_task_idx k)"
  have slot: "?p = frame_slot (kernel_stacks pf) ?c" by (rule current_frame(1) [OF k])
  have s: "sched_inv k" using k by (simp add: kernel_inv_def)
  have c: "?c < MAX_TASKS" "task_count k \<le> MAX_TASKS"
    using current_slot [OF s] sched_inv_wf(1) [OF s] by (auto simp: table_wf_def)
  have p: "?p = csrs h Mscratch - 144" using rep slot by (simp add: hart_rep_def TRAP_FRAME_SIZE_def)
  show "xget h1 10 = ?p" unfolding h1_def by (rule trap_entry_effect(2) [OF p])
  show "frames_rep pf (saved (interrupted h) k) (hmem h1)"
    unfolding frames_rep_def
  proof (intro allI impI)
    fix i assume "i < task_count (saved (interrupted h) k)"
    then have i: "i < task_count k" "i < MAX_TASKS" using c by (simp_all add: saved_def)
    let ?q = "frame_slot (kernel_stacks pf) i"
    show "\<exists>f. frames (saved (interrupted h) k) ?q = Some f \<and> frame_in (hmem h1) ?q f"
    proof (cases "i = ?c")
      case True
      then show ?thesis
        using trap_entry_saves(1) [OF p] slot by (simp add: saved_def h1_def)
    next
      case False
      have ne: "?q \<noteq> ?p" using frame_slot_inj [OF i(2) c(1)] False slot by auto
      obtain f where f: "frames k ?q = Some f" "frame_in (hmem h) ?q f"
        using rep i by (auto simp: hart_rep_def frames_rep_def)
      have "frame_in (hmem h1) ?q f"
        unfolding h1_def
      proof (rule frame_in_cong [OF f(2)])
        fix n :: nat assume "n < 144"
        then show "hmem (exec trap_entry h) (?q + of_nat n) = hmem h (?q + of_nat n)"
          using frame_slots_disjoint [OF i(2) c(1) False] slot
          by (intro trap_entry_saves(2) [OF p]) simp
      qed
      with f ne show ?thesis by (simp add: saved_def)
    qed
  qed
qed

lemma restore_keeps_rep:
  assumes k: "kernel_inv pf k" and rep: "frames_rep pf k (hmem h)" and a0: "xget h 10 = frame_of (current_task_idx k) k"
  shows "\<exists>f. frames k (frame_of (current_task_idx k) k) = Some f \<and>
             resumes f (frame_of (current_task_idx k) k + TRAP_FRAME_SIZE) (exec restore_context h)"
    and "hart_rep pf k (exec restore_context h)"
proof -
  let ?c = "unat (current_task_idx k)"
  have slot: "frame_of (current_task_idx k) k = frame_slot (kernel_stacks pf) ?c" by (rule current_frame(1) [OF k])
  have "sched_inv k" using k by (simp add: kernel_inv_def)
  then have "?c < task_count k" using current_slot by blast
  then obtain f where f: "frames k (frame_slot (kernel_stacks pf) ?c) = Some f"
    "frame_in (hmem h) (frame_slot (kernel_stacks pf) ?c) f"
    using rep by (auto simp: frames_rep_def)
  note r = restore_context_resumes [OF f(2), OF a0 [unfolded slot]]
  show "\<exists>f. frames k (frame_of (current_task_idx k) k) = Some f \<and>
             resumes f (frame_of (current_task_idx k) k + TRAP_FRAME_SIZE) (exec restore_context h)"
    using f(1) r(1) unfolding slot by (auto simp: TRAP_FRAME_SIZE_def)
  show "hart_rep pf k (exec restore_context h)"
    using r rep by (simp add: hart_rep_def resumes_def TRAP_FRAME_SIZE_def)
qed

section \<open>The first instruction of a task\<close>

definition mode_bits :: "task_mode \<Rightarrow> u32" where
  "mode_bits mode = (case mode of User \<Rightarrow> 0 | Machine \<Rightarrow> 3)"

lemma initial_status:
  "drop_bit 11 (mstatus (initial_frame exit_trap gp t)) AND 3 = mode_bits (td_mode t)"
  "bit (mret_status (mstatus (initial_frame exit_trap gp t))) 3"
  by (cases "td_mode t"; simp add: initial_frame_def mode_bits_def MSTATUS_MPP_USER_def MSTATUS_MPP_MACHINE_def
      MSTATUS_MPIE_def mret_status_enable)+

lemma frame_stored:
  assumes "length (regs f) = 32"
  shows "frame_in (store_words p (enumerate 0 (frame_words f)) m) p f"
    and "(\<And>n. n < 144 \<Longrightarrow> x \<noteq> p + of_nat n) \<Longrightarrow> store_words p (enumerate 0 (frame_words f)) m x = m x"
proof -
  let ?ws = "enumerate 0 (frame_words f)"
  have len: "length (frame_words f) = 36" using assms by (simp add: frame_words_def)
  have b: "\<forall>(i, v) \<in> set ?ws. i < 36" using len by (auto simp: in_set_enumerate_eq)
  have "map_of (rev ?ws) i = Some (frame_words f ! i)" if "i < 36" for i
  proof (rule map_of_is_SomeI)
    show "distinct (map fst (rev ?ws))" by (simp add: rev_map [symmetric])
    show "(i, frame_words f ! i) \<in> set (rev ?ws)" using that len by (simp add: in_set_enumerate_eq)
  qed
  then show "frame_in (store_words p ?ws m) p f"
    using read_store_words [OF b, of _ p m] assms by (simp add: frame_in_def)
  show "store_words p ?ws m x = m x" if "\<And>n. n < 144 \<Longrightarrow> x \<noteq> p + of_nat n"
    by (rule store_words_outside [OF b that])
qed

lemma frames_rep_exists:
  assumes k: "kernel_inv pf k"
  shows "\<exists>m. frames_rep pf k m"
proof -
  let ?s = "frame_slot (kernel_stacks pf)"
  have "sched_inv k" using k by (simp add: kernel_inv_def)
  then have tc: "task_count k \<le> MAX_TASKS" using sched_inv_wf(1) by (simp add: table_wf_def)
  have "\<exists>m. \<forall>i < n. \<exists>f. frames k (?s i) = Some f \<and> frame_in m (?s i) f" if "n \<le> task_count k" for n
    using that
  proof (induction n)
    case (Suc n)
    then obtain m where m: "\<forall>i < n. \<exists>f. frames k (?s i) = Some f \<and> frame_in m (?s i) f" by auto
    have "frames_inv pf k" using k by (simp add: kernel_inv_def)
    then obtain f where f: "frames k (?s n) = Some f" "length (regs f) = 32"
      using Suc.prems unfolding frames_inv_def Suc_le_eq by blast
    let ?m = "store_words (?s n) (enumerate 0 (frame_words f)) m"
    have "frame_in ?m (?s i) g" if "i < n" "frame_in m (?s i) g" for i g
    proof (rule frame_in_cong [OF that(2)])
      fix a :: nat assume "a < 144"
      then show "?m (?s i + of_nat a) = m (?s i + of_nat a)"
        using frame_slots_disjoint [of i n] that(1) Suc.prems tc by (intro frame_stored(2) [OF f(2)]) simp
    qed
    with m f frame_stored(1) [OF f(2), of "?s n" m] show ?case
      by (intro exI [of _ ?m]) (auto simp: less_Suc_eq)
  qed simp
  then show ?thesis by (auto simp: frames_rep_def)
qed

text \<open>
  C32: every task starts as declared: after the boot and any run in which it was not yet dispatched, the
  exit stub, entered with the task's frame, enters it at its entry point, on the top of its own stack,
  with the kernel's global pointer and the exit trap as return address, in its declared
  privilege mode, with interrupts enabled, and with its kernel stack parked for its first trap. The
  first task is the case of the empty run.
\<close>

theorem tasks_start_as_declared:
  assumes "clean_reset pf r" and "kernel_main pf env (initial_kernel m r t fs) = Inr (frame, k0)"
    and "j < length (boot_tasks env)" and "(away pf (length (boot_tasks env) - 1) j)\<^sup>*\<^sup>* k0 k"
    and "unat (current_task_idx k) = j"
    and "xget h 10 = frame_of (current_task_idx k) k" and "frames_rep pf k (hmem h)"
  shows "pc (exec restore_context h) = td_entry (boot_tasks env ! j) \<and>
         xget (exec restore_context h) REG_SP =
           td_stack_base (boot_tasks env ! j) + td_stack_size (boot_tasks env ! j) \<and>
         xget (exec restore_context h) REG_RA = task_returned env \<and>
         xget (exec restore_context h) REG_GP = global_pointer env \<and>
         priv (exec restore_context h) = mode_bits (td_mode (boot_tasks env ! j)) \<and>
         bit (csrs (exec restore_context h) Mstatus) 3 \<and>
         csrs (exec restore_context h) Mscratch = frame_slot (kernel_stacks pf) j + TRAP_FRAME_SIZE"
proof -
  let ?f = "initial_frame (task_returned env) (global_pointer env) (boot_tasks env ! j)"
  have bd: "boot_done pf env m frame k0"
    using kernel_main_boots [OF assms(1), of env m t fs] assms(2) by (auto split: if_splits)
  note live0 = boot_done_live [OF bd]
  have live: "live pf (length (boot_tasks env) - 1) k" using reachable_live [OF away_kstep [OF assms(4)] live0(1)] by blast
  then have inv: "kernel_inv pf k" by (simp add: live_def)
  have "frames k (frame_slot (kernel_stacks pf) j) = Some ?f"
    using away_frames [OF assms(4) live0(1)] assms(3) live0(3) kernel_main_frames [OF assms(1-3)] by simp
  moreover have slot: "frame_of (current_task_idx k) k = frame_slot (kernel_stacks pf) j"
    using current_frame(1) [OF inv] assms(5) by simp
  ultimately have "resumes ?f (frame_slot (kernel_stacks pf) j + TRAP_FRAME_SIZE) (exec restore_context h)"
    using restore_keeps_rep(1) [OF inv assms(7,6)] by simp
  then show ?thesis
    using initial_status [of "task_returned env" "global_pointer env" "boot_tasks env ! j"]
    by (simp add: resumes_def) (simp add: initial_frame_def)
qed

theorem tasks_start_as_declared_witness:
  "\<exists>h. pc (exec restore_context h) = 0x80001000 \<and> priv (exec restore_context h) = 0 \<and>
       xget (exec restore_context h) REG_SP = 0x800B9000"
proof -
  let ?t = "boot_tasks demo_env ! 0"
  obtain m where m: "frames_rep demo_platform booted m" using frames_rep_exists booted_live by (auto simp: live_def)
  let ?h = "xset 10 (frame_of (current_task_idx booted) booted) (demo_hart\<lparr>hmem := m\<rparr>)"
  have "xget ?h 10 = frame_of (current_task_idx booted) booted" "frames_rep demo_platform booted (hmem ?h)"
    using m by simp_all
  moreover have "td_entry ?t = 0x80001000" "td_mode ?t = User" "td_stack_base ?t + td_stack_size ?t = 0x800B9000"
    by (simp_all add: task_set_defs demo_env_def Let_def)
  moreover have "0 < length (boot_tasks demo_env)" "unat (current_task_idx booted) = 0"
    by (simp_all add: boot_tasks_length booted_current)
  ultimately show ?thesis
    using tasks_start_as_declared [OF demo_clean demo_boots(1) [unfolded demo_reset_def] _ rtranclp.rtrancl_refl]
    by (fastforce simp: mode_bits_def)
qed

section \<open>One trap, on the hart and in the model\<close>

lemma take_trap_rep: "hart_rep pf k h \<Longrightarrow> hart_rep pf k (take_trap cause tval h)"
  by (simp add: hart_rep_def take_trap_def)

text \<open>
  C11: the stubs implement the context switch of the model. A hart whose kernel stacks hold the frames
  of state \<open>k\<close> takes a system call or a timer interrupt: the entry stub hands the handler the frame
  address and the saved context the model says; when the handler, compiled, returns the frame and
  leaves the frames that \<open>trap_handler\<close> computes, the exit stub resumes exactly the context of the task
  that is current in the new state, and the hart represents that state.
\<close>

theorem stubs_implement_switch:
  assumes "live pf idle k" and "hart_rep pf k h"
    and "f = interrupted (take_trap cause tval h)"
    and "is_timer f \<or> is_ecall f \<and> unat (current_task_idx k) \<noteq> idle"
    and "trap_handler pf hw (frame_of (current_task_idx k) k) (saved f k) = Inr (frame, k')"
    and "xget h2 10 = frame" and "frames_rep pf k' (hmem h2)"
  shows "xget (exec trap_entry (take_trap cause tval h)) 10 = frame_of (current_task_idx k) k \<and>
         frames_rep pf (saved f k) (hmem (exec trap_entry (take_trap cause tval h))) \<and>
         (\<exists>g. frames k' frame = Some g \<and> resumes g (frame + TRAP_FRAME_SIZE) (exec restore_context h2)) \<and>
         frame = frame_of (current_task_idx k') k' \<and> hart_rep pf k' (exec restore_context h2)"
proof -
  have inv: "kernel_inv pf k" using assms(1) by (simp add: live_def)
  have len: "length (regs f) = 32" by (simp add: assms(3) interrupted_regs)
  have step: "kstep pf idle k k'" "frame = frame_of (current_task_idx k') k'"
    using assms(4,5) len timer_inr_ok [OF inv len] ecall_inr_ok [OF assms(1) len] live_task [OF assms(1)]
    by (auto intro: kstep.intros)
  then have inv': "kernel_inv pf k'" using kstep_live [OF _ assms(1)] by (auto simp: live_def)
  from restore_keeps_rep [OF inv' assms(7)] assms(6) step(2)
    entry_implements_saved [OF inv take_trap_rep [OF assms(2)], of cause tval]
  show ?thesis by (simp add: assms(3))
qed

theorem stubs_implement_switch_witness:
  "\<exists>h k' h2 g. hart_rep demo_platform booted h \<and> hart_rep demo_platform k' (exec restore_context h2) \<and>
     resumes g (frame_of (current_task_idx k') k' + TRAP_FRAME_SIZE) (exec restore_context h2)"
proof -
  have inv: "kernel_inv demo_platform booted" using booted_live by (simp add: live_def)
  obtain m where m: "frames_rep demo_platform booted m" using frames_rep_exists [OF inv] by blast
  define h where "h = demo_hart\<lparr>csrs := (\<lambda>_. 0)(Mscratch := frame_slot (kernel_stacks demo_platform) 0 + TRAP_FRAME_SIZE),
                                hmem := m\<rparr>"
  have rep: "hart_rep demo_platform booted h" using m by (simp add: hart_rep_def h_def booted_current)
  let ?f = "interrupted (take_trap 0x80000007 0 h)"
  have f: "is_timer ?f" by (simp add: is_timer_def interrupted_def take_trap_def)
  have "\<forall>i < task_count booted. \<not> stack_overflow booted i" by (rule booted_no_overflow)
  from timer_returns [OF inv interrupted_regs f this] obtain k' hw where
    k': "trap_handler demo_platform hw (frame_of (current_task_idx booted) booted) (saved ?f booted) =
         Inr (frame_of (current_task_idx k') k', k')" "timed demo_platform (hw_mtime hw) ?f booted k'" by blast
  then have "kernel_inv demo_platform k'" by (simp add: timed_def)
  from frames_rep_exists [OF this] obtain m' where m': "frames_rep demo_platform k' m'" by blast
  let ?h2 = "xset 10 (frame_of (current_task_idx k') k') (h\<lparr>hmem := m'\<rparr>)"
  have "xget ?h2 10 = frame_of (current_task_idx k') k'" "frames_rep demo_platform k' (hmem ?h2)"
    using m' by simp_all
  from stubs_implement_switch [OF booted_live rep refl disjI1 [OF f] k'(1) this] rep show ?thesis by blast
qed

end
