(* ===== verification/Line_Buffer.thy ===== *)
theory Line_Buffer
  imports Uart_Console
begin

text \<open>
  The fixed-capacity line buffer with which tasks build their log messages
  (\<open>LineBuf\<close> of \<^verbatim>\<open>kernel/src/sys.rs\<close>). A chain of builder calls produces the text of its pieces cut
  at the capacity, and never indexes out of bounds.
\<close>

section \<open>Model\<close>

record line_buf =
  lb_buf :: "u8 list"
  lb_len :: nat

definition lb_new :: "nat \<Rightarrow> line_buf" where
  "lb_new n = \<lparr>lb_buf = replicate n 0, lb_len = 0\<rparr>"

text \<open>The loop all three appending operations share: stop when full, else store a byte.\<close>

fun lb_bytes :: "u8 list \<Rightarrow> line_buf \<Rightarrow> line_buf res" where
  "lb_bytes [] lb = Inr lb"
| "lb_bytes (b # bs) lb =
     (if lb_len lb = length (lb_buf lb) then Inr lb
      else bind_res (arr_set (lb_buf lb) (lb_len lb) b) (\<lambda>buf.
        lb_bytes bs (lb\<lparr>lb_buf := buf, lb_len := lb_len lb + 1\<rparr>)))"

definition lb_str :: "string \<Rightarrow> line_buf \<Rightarrow> line_buf res" where
  "lb_str s lb = lb_bytes (bytes_of s) lb"

text \<open>The digits of \<open>v\<close>, least significant first, into the array from index \<open>n\<close>.\<close>

lemma div10_u32: "unat (v div 10 :: u32) = unat v div 10"
  by (simp add: unat_div_distrib)

lemma div10_zero: "v div 10 = (0 :: u32) \<longleftrightarrow> unat v < 10"
  by (simp only: unat_eq_zero [symmetric] div10_u32) (simp add: div_eq_0_iff)

function u32_digits :: "u32 \<Rightarrow> u8 list \<Rightarrow> nat \<Rightarrow> (u8 list \<times> nat) res" where
  "u32_digits v digits n =
     bind_res (arr_set digits n (of_char CHR ''0'' + ucast (v mod 10))) (\<lambda>ds.
       if v div 10 = 0 then Inr (ds, n + 1) else u32_digits (v div 10) ds (n + 1))"
  by pat_completeness auto
termination
proof (relation "measure (\<lambda>(v, digits, n). unat v)", goal_cases)
  case (2 v digits n ds)
  then show ?case by (simp only: in_measure prod.case div10_u32 div10_zero)
qed simp

declare u32_digits.simps [simp del]

fun lb_drain :: "u8 list \<Rightarrow> nat \<Rightarrow> line_buf \<Rightarrow> line_buf res" where
  "lb_drain digits 0 lb = Inr lb"
| "lb_drain digits (Suc n) lb =
     (if lb_len lb = length (lb_buf lb) then Inr lb
      else bind_res (arr_get digits n) (\<lambda>d.
           bind_res (arr_set (lb_buf lb) (lb_len lb) d) (\<lambda>buf.
             lb_drain digits n (lb\<lparr>lb_buf := buf, lb_len := lb_len lb + 1\<rparr>))))"

definition lb_u32 :: "u32 \<Rightarrow> line_buf \<Rightarrow> line_buf res" where
  "lb_u32 v lb = bind_res (u32_digits v (replicate 10 0) 0) (\<lambda>(digits, n). lb_drain digits n lb)"

fun lb_nibbles :: "u32 \<Rightarrow> nat list \<Rightarrow> line_buf \<Rightarrow> line_buf res" where
  "lb_nibbles v [] lb = Inr lb"
| "lb_nibbles v (shift # shifts) lb =
     (if lb_len lb = length (lb_buf lb) then Inr lb
      else bind_res (arr_get HEX (unat (drop_bit (shift * 4) v AND 0xF))) (\<lambda>d.
           bind_res (arr_set (lb_buf lb) (lb_len lb) d) (\<lambda>buf.
             lb_nibbles v shifts (lb\<lparr>lb_buf := buf, lb_len := lb_len lb + 1\<rparr>))))"

definition lb_hex :: "u32 \<Rightarrow> line_buf \<Rightarrow> line_buf res" where
  "lb_hex v lb = bind_res (lb_str ''0x'' lb) (lb_nibbles v (rev [0..<8]))"

definition lb_as_bytes :: "line_buf \<Rightarrow> u8 list res" where
  "lb_as_bytes lb =
     (if lb_len lb \<le> length (lb_buf lb) then Inr (take (lb_len lb) (lb_buf lb)) else Inl IndexOutOfBounds)"

text \<open>A chain of builder calls.\<close>

datatype piece = Str string | Dec u32 | HexWord u32

fun lb_piece :: "piece \<Rightarrow> line_buf \<Rightarrow> line_buf res" where
  "lb_piece (Str s) = lb_str s"
| "lb_piece (Dec v) = lb_u32 v"
| "lb_piece (HexWord v) = lb_hex v"

definition line :: "nat \<Rightarrow> piece list \<Rightarrow> u8 list res" where
  "line n ps = bind_res (fold_res lb_piece ps (lb_new n)) lb_as_bytes"

section \<open>Appending\<close>

definition lb_wf :: "line_buf \<Rightarrow> bool" where
  "lb_wf lb \<longleftrightarrow> lb_len lb \<le> length (lb_buf lb)"

definition lb_text :: "line_buf \<Rightarrow> u8 list" where
  "lb_text lb = take (lb_len lb) (lb_buf lb)"

text \<open>An operation that appends \<open>bs\<close> as far as there is room.\<close>

definition appends :: "(line_buf \<Rightarrow> line_buf res) \<Rightarrow> u8 list \<Rightarrow> bool" where
  "appends f bs \<longleftrightarrow>
     (\<forall>lb. lb_wf lb \<longrightarrow>
        (\<exists>lb'. f lb = Inr lb' \<and> lb_wf lb' \<and> length (lb_buf lb') = length (lb_buf lb) \<and>
               lb_text lb' = take (length (lb_buf lb)) (lb_text lb @ bs)))"

lemma lb_bytes_appends: "appends (lb_bytes bs) bs"
proof -
  have "\<exists>lb'. lb_bytes bs lb = Inr lb' \<and> lb_wf lb' \<and> length (lb_buf lb') = length (lb_buf lb) \<and>
          lb_text lb' = take (length (lb_buf lb)) (lb_text lb @ bs)" if "lb_wf lb" for lb
    using that
  proof (induction bs arbitrary: lb)
    case (Cons b bs)
    show ?case
    proof (cases "lb_len lb = length (lb_buf lb)")
      case False
      with Cons.prems have lt: "lb_len lb < length (lb_buf lb)" by (simp add: lb_wf_def)
      let ?lb = "lb\<lparr>lb_buf := (lb_buf lb)[lb_len lb := b], lb_len := lb_len lb + 1\<rparr>"
      have "lb_wf ?lb" "lb_text ?lb = lb_text lb @ [b]"
        using lt by (simp_all add: lb_wf_def lb_text_def take_Suc_conv_app_nth)
      with Cons.IH [of ?lb] lt False show ?thesis by (simp del: take_append)
    qed (use Cons.prems in \<open>simp add: lb_wf_def lb_text_def\<close>)
  qed (simp add: lb_wf_def lb_text_def)
  then show ?thesis by (simp add: appends_def)
qed

lemma appends_bind:
  assumes "appends f bs" and "appends g cs"
  shows "appends (\<lambda>lb. bind_res (f lb) g) (bs @ cs)"
  unfolding appends_def
proof (intro allI impI)
  fix lb assume "lb_wf lb"
  with assms(1) obtain lb1 where l1: "f lb = Inr lb1" "lb_wf lb1" "length (lb_buf lb1) = length (lb_buf lb)"
    "lb_text lb1 = take (length (lb_buf lb)) (lb_text lb @ bs)" by (auto simp: appends_def)
  with assms(2) obtain lb2 where l2: "g lb1 = Inr lb2" "lb_wf lb2" "length (lb_buf lb2) = length (lb_buf lb)"
    "lb_text lb2 = take (length (lb_buf lb)) (lb_text lb1 @ cs)" by (force simp: appends_def)
  have "take n (take n (xs @ bs) @ cs) = take n (xs @ bs @ cs)" for n and xs :: "u8 list"
    by (simp add: min_def)
  with l1 l2 show "\<exists>lb'. bind_res (f lb) g = Inr lb' \<and> lb_wf lb' \<and> length (lb_buf lb') = length (lb_buf lb) \<and>
      lb_text lb' = take (length (lb_buf lb)) (lb_text lb @ bs @ cs)"
    by simp
qed

lemma lb_drain_bytes:
  "n \<le> length digits \<Longrightarrow> lb_drain digits n lb = lb_bytes (rev (take n digits)) lb"
proof (induction n arbitrary: lb)
  case (Suc n)
  then have "rev (take (Suc n) digits) = digits ! n # rev (take n digits)" by (simp add: take_Suc_conv_app_nth)
  with Suc show ?case by (auto simp: bind_res_def split: sum.splits)
qed simp

lemma lb_nibbles_bytes:
  "lb_nibbles v shifts lb = lb_bytes (map (\<lambda>s. HEX ! unat (drop_bit (s * 4) v AND 0xF)) shifts) lb"
  by (induction shifts arbitrary: lb) (simp_all add: HEX_index cong: if_cong)

lemma u32_digits_decimal:
  assumes "unat v < 10 ^ (length digits - n)" and "n < length digits"
  shows "\<exists>ds n'. u32_digits v digits n = Inr (ds, n') \<and> length ds = length digits \<and> n' \<le> length ds \<and>
           rev (take n' ds) = decimal (unat v) @ rev (take n digits)"
  using assms
proof (induction v digits n rule: u32_digits.induct)
  case (1 v digits n)
  let ?ds = "digits[n := 48 + of_nat (unat v mod 10)]"
  have dg: "of_char CHR ''0'' + ucast (v mod 10) = (48 + of_nat (unat v mod 10) :: u8)"
    by (simp add: digit_byte of_char_Char)
  have tk: "rev (take (Suc n) ?ds) = (48 + of_nat (unat v mod 10)) # rev (take n digits)"
    using 1(3) by (simp add: take_Suc_conv_app_nth)
  show ?case
  proof (cases "v div 10 = 0")
    case True
    then have "decimal (unat v) = [48 + of_nat (unat v mod 10)]" by (subst decimal.simps) (simp add: div10_zero)
    with True tk 1(3) show ?thesis by (simp add: u32_digits.simps [of v] of_char_Char digit_byte)
  next
    case False
    then have big: "10 \<le> unat v" by (simp add: div10_zero)
    have n: "Suc n < length digits"
    proof (rule ccontr)
      assume "\<not> Suc n < length digits"
      with 1(3) have "length digits - n = 1" by simp
      with 1(2) big show False by simp
    qed
    then have "length digits - n = Suc (length ?ds - (n + 1))" by simp
    with 1(2) have "unat (v div 10) < 10 ^ (length ?ds - (n + 1))"
      unfolding div10_u32 by (simp add: less_mult_imp_div_less mult.commute)
    from 1(1) [of ?ds, OF _ False this] n 1(3) obtain ds n' where
      "u32_digits (v div 10) ?ds (n + 1) = Inr (ds, n')" "length ds = length digits" "n' \<le> length ds"
      "rev (take n' ds) = decimal (unat v div 10) @ rev (take (Suc n) ?ds)"
      unfolding dg div10_u32 by auto
    moreover have "decimal (unat v) = decimal (unat v div 10) @ [48 + of_nat (unat v mod 10)]"
      using big by (subst decimal.simps) simp
    ultimately show ?thesis using tk 1(3) False by (simp add: u32_digits.simps [of v] of_char_Char digit_byte)
  qed
qed

section \<open>The text of a line\<close>

fun piece_bytes :: "piece \<Rightarrow> u8 list" where
  "piece_bytes (Str s) = bytes_of s"
| "piece_bytes (Dec v) = decimal (unat v)"
| "piece_bytes (HexWord v) =
     bytes_of ''0x'' @ map (\<lambda>s. HEX ! unat (drop_bit (s * 4) v AND 0xF)) (rev [0..<8])"

lemma lb_piece_appends: "appends (lb_piece p) (piece_bytes p)"
proof (cases p)
  case (Str s)
  have "lb_str s = lb_bytes (bytes_of s)" by (simp add: lb_str_def fun_eq_iff)
  then show ?thesis using Str lb_bytes_appends by simp
next
  case (Dec v)
  have "unat v < 10 ^ 10" using unat_u32_less [of v] by simp
  then obtain ds n where "u32_digits v (replicate 10 0) 0 = Inr (ds, n)" "n \<le> length ds"
    "rev (take n ds) = decimal (unat v)"
    using u32_digits_decimal [of v "replicate 10 0" 0] by auto
  then have "lb_u32 v = lb_bytes (decimal (unat v))" by (simp add: lb_u32_def fun_eq_iff lb_drain_bytes)
  then show ?thesis using Dec lb_bytes_appends by simp
next
  case (HexWord v)
  have "lb_hex v = (\<lambda>lb. bind_res (lb_bytes (bytes_of ''0x'') lb)
      (lb_bytes (map (\<lambda>s. HEX ! unat (drop_bit (s * 4) v AND 0xF)) (rev [0..<8]))))"
    unfolding lb_hex_def [abs_def] lb_str_def lb_nibbles_bytes [abs_def] ..
  then show ?thesis using HexWord appends_bind [OF lb_bytes_appends lb_bytes_appends] by (simp del: upt_rec_numeral)
qed

lemma lb_pieces_append: "appends (fold_res lb_piece ps) (concat (map piece_bytes ps))"
proof (induction ps)
  case Nil
  show ?case by (simp add: appends_def lb_wf_def lb_text_def)
next
  case (Cons p ps)
  have "fold_res lb_piece (p # ps) = (\<lambda>lb. bind_res (lb_piece p lb) (fold_res lb_piece ps))"
    by (simp add: fun_eq_iff)
  then show ?case using appends_bind [OF lb_piece_appends Cons.IH, of p] by simp
qed

lemma line_text: "line n ps = Inr (take n (concat (map piece_bytes ps)))"
proof -
  have "lb_wf (lb_new n)" "lb_text (lb_new n) = []" "length (lb_buf (lb_new n)) = n"
    by (simp_all add: lb_wf_def lb_text_def lb_new_def)
  with lb_pieces_append [of ps] obtain lb where "fold_res lb_piece ps (lb_new n) = Inr lb" "lb_wf lb"
    "lb_text lb = take n (concat (map piece_bytes ps))" by (force simp: appends_def)
  then show ?thesis by (simp add: line_def lb_as_bytes_def lb_wf_def lb_text_def)
qed

text \<open>
  A line built from any chain of \<open>str\<close>, \<open>u32\<close> and \<open>hex\<close> calls in a buffer of \<open>n\<close> bytes is the first
  \<open>n\<close> bytes of the texts of its pieces in order; no call panics, however long the texts are.
\<close>

theorem line_is_truncated_text: "line n ps = Inr (take n (concat (map piece_bytes ps)))"
  by (rule line_text)

end
