(* ===== verification/Task_Library.thy ===== *)
theory Task_Library
  imports Communication Line_Buffer
begin

text \<open>
  The task side of the system-call interface (\<^verbatim>\<open>kernel/src/sys.rs\<close>): the wrappers that load the argument
  registers and issue an \<open>ecall\<close>, and the decoding of the value the kernel leaves in \<open>a0\<close>. Slices are
  passed as their address and length. The results are stated against the kernel's handlers: each
  wrapper returns what its documentation says of the caller's capabilities, buffers and channels.
\<close>

section \<open>Model\<close>

datatype sys_error = NoSys | Permission | Fault | WouldBlock | Invalid

definition decode :: "usize \<Rightarrow> sys_error + usize" where
  "decode v =
     (if v = ENOSYS then Inl NoSys
      else if v = EPERM then Inl Permission
      else if v = EFAULT then Inl Fault
      else if v = EAGAIN then Inl WouldBlock
      else if v = EINVAL then Inl Invalid
      else Inr v)"

text \<open>The register file at the \<open>ecall\<close> instruction; everything but the operands is as it was.\<close>

definition ecall4 :: "usize \<Rightarrow> usize \<Rightarrow> usize \<Rightarrow> usize \<Rightarrow> usize \<Rightarrow> usize list \<Rightarrow> usize list" where
  "ecall4 n a0 a1 a2 a3 rs = rs[REG_A0 := a0, REG_A1 := a1, REG_A2 := a2, REG_A3 := a3, REG_A7 := n]"

definition ecall :: "usize \<Rightarrow> usize \<Rightarrow> usize \<Rightarrow> usize list \<Rightarrow> usize list" where
  "ecall n a0 a1 = ecall4 n a0 a1 0 0"

definition yield_now :: "usize list \<Rightarrow> usize list" where
  "yield_now = ecall SYS_YIELD 0 0"

definition sleep :: "u32 \<Rightarrow> usize list \<Rightarrow> usize list" where
  "sleep n = ecall SYS_SLEEP n 0"

definition log_raw :: "usize \<Rightarrow> usize \<Rightarrow> usize list \<Rightarrow> usize list" where
  "log_raw addr len = ecall SYS_LOG addr len"

definition now :: "usize list \<Rightarrow> usize list" where
  "now = ecall SYS_NOW 0 0"

definition sender_send :: "usize \<Rightarrow> usize \<Rightarrow> usize \<Rightarrow> usize list \<Rightarrow> usize list" where
  "sender_send ch ptr len = ecall4 SYS_SEND ch ptr len 0"

definition sender_try_send :: "usize \<Rightarrow> usize \<Rightarrow> usize \<Rightarrow> usize list \<Rightarrow> usize list" where
  "sender_try_send ch ptr len = ecall4 SYS_SEND ch ptr len FLAG_NONBLOCK"

definition receiver_receive :: "usize \<Rightarrow> usize \<Rightarrow> usize \<Rightarrow> usize list \<Rightarrow> usize list" where
  "receiver_receive ch ptr cap = ecall4 SYS_RECEIVE ch ptr cap 0"

definition receiver_try_receive :: "usize \<Rightarrow> usize \<Rightarrow> usize \<Rightarrow> usize list \<Rightarrow> usize list" where
  "receiver_try_receive ch ptr cap = ecall4 SYS_RECEIVE ch ptr cap FLAG_NONBLOCK"

datatype task_call =
    YieldNow
  | SleepFor u32
  | LogBytes usize usize
  | Now
  | SendMsg bool usize usize usize
  | ReceiveMsg bool usize usize usize

text \<open>The flag of a channel call tells the non-blocking variant.\<close>

fun issue :: "task_call \<Rightarrow> usize list \<Rightarrow> usize list" where
  "issue YieldNow = yield_now"
| "issue (SleepFor n) = sleep n"
| "issue (LogBytes addr len) = log_raw addr len"
| "issue Now = now"
| "issue (SendMsg nonblock ch ptr len) = (if nonblock then sender_try_send else sender_send) ch ptr len"
| "issue (ReceiveMsg nonblock ch ptr cap) = (if nonblock then receiver_try_receive else receiver_receive) ch ptr cap"

text \<open>What the wrapper makes of \<open>a0\<close>; unit results are \<open>Inr 0\<close>.\<close>

fun result :: "task_call \<Rightarrow> usize \<Rightarrow> sys_error + usize" where
  "result YieldNow v = Inr 0"
| "result (SleepFor n) v = Inr 0"
| "result Now v = Inr v"
| "result (SendMsg nonblock ch ptr len) v = map_sum id (\<lambda>_. 0) (decode v)"
| "result _ v = decode v"

section \<open>The documented outcome of a call\<close>

text \<open>\<open>None\<close>: the caller waits.\<close>

fun outcome :: "platform \<Rightarrow> task_descriptor \<Rightarrow> kernel \<Rightarrow> task_call \<Rightarrow> (sys_error + usize) option" where
  "outcome pf task k YieldNow = Some (Inr 0)"
| "outcome pf task k (SleepFor n) = Some (Inr 0)"
| "outcome pf task k Now = Some (Inr (tick_count (clint k)))"
| "outcome pf task k (LogBytes addr len) =
     (let n = min len LOG_MAX_LEN in
      Some (if \<not> may_log task then Inl Permission
            else if \<not> buffer_readable addr n (readable_ranges pf task) then Inl Fault
            else Inr n))"
| "outcome pf task k (SendMsg nonblock ch ptr len) =
     (if \<not> unat ch < MAX_CHANNELS then Some (Inl Invalid)
      else if \<not> holds_endpoint (td_sends_mask task) ch then Some (Inl Permission)
      else if MSG_MAX < unat len then Some (Inl Invalid)
      else if \<not> buffer_readable ptr len (readable_ranges pf task) then Some (Inl Fault)
      else if ch_is_full (channels k ! unat ch) then (if nonblock then Some (Inl WouldBlock) else None)
      else Some (Inr 0))"
| "outcome pf task k (ReceiveMsg nonblock ch ptr cap) =
     (if \<not> unat ch < MAX_CHANNELS then Some (Inl Invalid)
      else if \<not> holds_endpoint (td_receives_mask task) ch then Some (Inl Permission)
      else if \<not> buffer_readable ptr cap (writable_ranges task) then Some (Inl Fault)
      else case queued (unat ch) k of
             [] \<Rightarrow> if nonblock then Some (Inl WouldBlock) else None
           | m # _ \<Rightarrow> Some (Inr (ucast (msg_len m))))"

lemmas error_codes = ENOSYS_def EPERM_def EFAULT_def EAGAIN_def EINVAL_def

lemma decode_simps [simp]:
  "decode ENOSYS = Inl NoSys" "decode EPERM = Inl Permission" "decode EFAULT = Inl Fault"
  "decode EAGAIN = Inl WouldBlock" "decode EINVAL = Inl Invalid"
  by (simp_all add: decode_def error_codes)

lemma decode_zero [simp]: "decode 0 = Inr 0"
  by (simp add: decode_def error_codes)

lemma decode_small: "v < EINVAL \<Longrightarrow> decode v = Inr v"
  by (auto simp: decode_def error_codes)

section \<open>Every call reports its outcome\<close>

definition answers :: "platform \<Rightarrow> usize \<Rightarrow> kernel \<Rightarrow> (usize \<times> kernel) res \<Rightarrow> usize \<Rightarrow> bool" where
  "answers pf frame k r v \<longleftrightarrow> returns pf k r (answered frame v k)"

lemma answers_quiet: "returns pf k r (\<lambda>k'. quiet k k' \<and> answered frame v k k') \<Longrightarrow> answers pf frame k r v"
  unfolding answers_def by (erule returns_mono) blast

lemmas issue_defs = yield_now_def sleep_def log_raw_def now_def sender_send_def sender_try_send_def
  receiver_receive_def receiver_try_receive_def ecall_def ecall4_def

lemma log_value:
  assumes "current_task k = Some task"
  shows "decode (fst (sys_log pf addr (min len LOG_MAX_LEN) k)) =
         (if \<not> may_log task then Inl Permission
          else if \<not> buffer_readable addr (min len LOG_MAX_LEN) (readable_ranges pf task) then Inl Fault
          else Inr (min len LOG_MAX_LEN))"
proof -
  have "min len LOG_MAX_LEN \<le> LOG_MAX_LEN" by simp
  also have "LOG_MAX_LEN < EINVAL" by (simp add: LOG_MAX_LEN_def EINVAL_def)
  finally show ?thesis using assms by (simp add: sys_log_def decode_small)
qed

lemma send_answers:
  assumes k: "kernel_inv pf k" and frame: "frame = frame_of (current_task_idx k) k" and task: "current_task k = Some task"
    and out: "outcome pf task k (SendMsg (flags AND FLAG_NONBLOCK \<noteq> 0) ch ptr len) = Some r"
  shows "\<exists>v. map_sum id (\<lambda>_. 0) (decode v) = r \<and> answers pf frame k (sys_send pf frame ch ptr len flags k) v"
proof -
  have chs: "length (channels k) = MAX_CHANNELS" using k by (simp add: kernel_inv_def chan_inv_def)
  have at: "channel_at (channels k) (unat ch) = (if unat ch < MAX_CHANNELS then Some (channels k ! unat ch) else None)"
    using chs by (simp add: channel_at_def)
  note err = answers_quiet [OF ret_returns [OF k frame]]
  let ?guards = "holds_endpoint (td_sends_mask task) ch \<and> unat len \<le> MSG_MAX \<and>
      buffer_readable ptr len (readable_ranges pf task) \<and> \<not> ch_is_full (channels k ! unat ch)"
  show ?thesis
  proof (cases "unat ch < MAX_CHANNELS \<and> ?guards")
    case True
    then have "answers pf frame k (sys_send pf frame ch ptr len flags k) 0"
      using sys_send_room [OF k frame task, of ch "channels k ! unat ch" len ptr flags] at
      unfolding answers_def by (auto elim!: returns_mono simp: answered_def)
    moreover have "r = map_sum id (\<lambda>_. 0) (decode 0)" using out True by auto
    ultimately show ?thesis by blast
  next
    case False
    define v where "v = (if \<not> unat ch < MAX_CHANNELS then EINVAL else if \<not> holds_endpoint (td_sends_mask task) ch then EPERM
      else if MSG_MAX < unat len then EINVAL else if \<not> buffer_readable ptr len (readable_ranges pf task) then EFAULT else EAGAIN)"
    have "sys_send pf frame ch ptr len flags k = ret frame v k"
      using False out task at by (auto simp: sys_send_def v_def split: if_splits)
    moreover have "map_sum id (\<lambda>_. 0) (decode v) = r" using False out by (auto simp: v_def split: if_splits)
    ultimately show ?thesis using err by metis
  qed
qed

lemma receive_answers:
  assumes k: "kernel_inv pf k" and frame: "frame = frame_of (current_task_idx k) k" and task: "current_task k = Some task"
    and out: "outcome pf task k (ReceiveMsg (flags AND FLAG_NONBLOCK \<noteq> 0) ch ptr cap) = Some r"
  shows "\<exists>v. decode v = r \<and> answers pf frame k (sys_receive pf frame ch ptr cap flags k) v"
proof -
  have ki: "chan_inv (channels k)" "length (channels k) = MAX_CHANNELS" using k by (simp_all add: kernel_inv_def chan_inv_def)
  have at: "channel_at (channels k) (unat ch) = (if unat ch < MAX_CHANNELS then Some (channels k ! unat ch) else None)"
    using ki(2) by (simp add: channel_at_def)
  note err = answers_quiet [OF ret_returns [OF k frame]]
  let ?guards = "unat ch < MAX_CHANNELS \<and> holds_endpoint (td_receives_mask task) ch \<and>
      buffer_readable ptr cap (writable_ranges task)"
  show ?thesis
  proof (cases "?guards \<and> queued (unat ch) k \<noteq> []")
    case True
    then obtain m rest where m: "queued (unat ch) k = m # rest" by (cases "queued (unat ch) k") auto
    have chan: "channel_at (channels k) (unat ch) = Some (channels k ! unat ch)" using True at by simp
    have "msg_wf m" using channel_lookup(6) [OF ki(1) chan] m by (simp add: queued_def)
    then have bytes: "message_bytes m = Inr (take (unat (msg_len m)) (msg_data m))"
      "length (take (unat (msg_len m)) (msg_data m)) = unat (msg_len m)"
      by (simp_all add: msg_wf_def message_bytes_def)
    have "answers pf frame k (sys_receive pf frame ch ptr cap flags k) (of_nat (unat (msg_len m)))"
      using sys_receive_some [OF k frame task chan, of ptr cap m rest _ flags] True m bytes
      unfolding answers_def by (auto elim!: returns_mono simp: answered_def queued_def)
    moreover have "(of_nat (unat (msg_len m)) :: usize) = ucast (msg_len m)" by (simp add: unsigned_of_nat)
    moreover have "(ucast (msg_len m) :: usize) < EINVAL"
    proof -
      have "unat (ucast (msg_len m) :: usize) < 256" using unsigned_less [of "msg_len m", where 'a = nat] by (simp add: unsigned_ucast_eq take_bit_nat_eq_self)
      then show ?thesis by (simp add: word_less_nat_alt EINVAL_def)
    qed
    moreover have "r = Inr (ucast (msg_len m))" using out True m by auto
    ultimately show ?thesis using decode_small by metis
  next
    case False
    define v where "v = (if \<not> unat ch < MAX_CHANNELS then EINVAL else if \<not> holds_endpoint (td_receives_mask task) ch then EPERM
      else if \<not> buffer_readable ptr cap (writable_ranges task) then EFAULT else EAGAIN)"
    have "try_receive (channels k ! unat ch) = Inr (None, channels k ! unat ch)" if ?guards
    proof -
      have "channel_at (channels k) (unat ch) = Some (channels k ! unat ch)" using that at by simp
      from ring.receive_empty [OF channel_lookup(4) [OF ki(1) this]] that False show ?thesis
        by (simp add: queued_def)
    qed
    moreover have "k\<lparr>channels := (channels k)[unat ch := channels k ! unat ch]\<rparr> = k" by (cases k) simp
    ultimately have "sys_receive pf frame ch ptr cap flags k = ret frame v k"
      using False out task at by (auto simp: sys_receive_def v_def Let_def split: if_splits)
    moreover have "decode v = r" using False out by (auto simp: v_def split: if_splits)
    ultimately show ?thesis using err by metis
  qed
qed

lemma dispatch_answers:
  assumes k: "kernel_inv pf k" and frame: "frame = frame_of (current_task_idx k) k" and task: "current_task k = Some task"
    and idle: "available n k" "n \<noteq> unat (current_task_idx k)"
    and f: "frames k frame = Some f" "regs f = issue call rs" "length rs = 32"
    and out: "outcome pf task k call = Some r"
  shows "\<exists>v. result call v = r \<and> answers pf frame k (dispatch pf frame k) v"
proof -
  note ret = answers_quiet [OF ret_returns [OF k frame]] and yield = answers_quiet [OF yield_returns [OF k frame]]
    and sleep = answers_quiet [OF sleep_returns [OF k frame idle]] and log = answers_quiet [OF log_returns [OF k frame]]
  have nb: "FLAG_NONBLOCK AND FLAG_NONBLOCK \<noteq> 0" "0 AND FLAG_NONBLOCK = 0" by (simp_all add: FLAG_NONBLOCK_def)
  show ?thesis
  proof (cases call)
    case (SleepFor t)
    then show ?thesis
      using f out sleep [of 0 t]
      by (intro exI [of _ 0]) (simp add: dispatch_def frame_at_def issue_defs sys_numbers)
  next
    case (LogBytes addr len)
    then have "result call (fst (sys_log pf addr (min len LOG_MAX_LEN) k)) = r"
      using out log_value [OF task] by (simp add: Let_def)
    moreover have "answers pf frame k (dispatch pf frame k) (fst (sys_log pf addr (min len LOG_MAX_LEN) k))"
      using f log LogBytes by (simp add: dispatch_def frame_at_def issue_defs sys_numbers)
    ultimately show ?thesis by blast
  next
    case (SendMsg nonblock ch ptr len)
    let ?flags = "if nonblock then FLAG_NONBLOCK else 0"
    have d: "dispatch pf frame k = sys_send pf frame ch ptr len ?flags k"
      using f SendMsg by (simp add: dispatch_def frame_at_def issue_defs sys_numbers)
    have "nonblock = (?flags AND FLAG_NONBLOCK \<noteq> 0)" using nb by simp
    then have "outcome pf task k (SendMsg (?flags AND FLAG_NONBLOCK \<noteq> 0) ch ptr len) = Some r"
      using out unfolding SendMsg by (rule subst)
    from send_answers [OF k frame task this] show ?thesis unfolding d SendMsg result.simps .
  next
    case (ReceiveMsg nonblock ch ptr cap)
    let ?flags = "if nonblock then FLAG_NONBLOCK else 0"
    have d: "dispatch pf frame k = sys_receive pf frame ch ptr cap ?flags k"
      using f ReceiveMsg by (simp add: dispatch_def frame_at_def issue_defs sys_numbers)
    have "nonblock = (?flags AND FLAG_NONBLOCK \<noteq> 0)" using nb by simp
    then have "outcome pf task k (ReceiveMsg (?flags AND FLAG_NONBLOCK \<noteq> 0) ch ptr cap) = Some r"
      using out unfolding ReceiveMsg by (rule subst)
    from receive_answers [OF k frame task this] show ?thesis unfolding d ReceiveMsg result.simps .
  qed (use f out ret yield in \<open>auto simp: dispatch_def frame_at_def issue_defs sys_numbers ticks_def\<close>)
qed

text \<open>
  C23: every wrapper reports the documented outcome: when a task issues a call that does not have to
  wait, the trap returns, and when the task next runs, its wrapper's result is the one its
  capabilities, its buffer and the channel determine, it continues after the \<open>ecall\<close>, and no register
  but \<open>a0\<close> has changed.
\<close>

theorem calls_report_outcome:
  assumes "live pf idle k" and "unat (current_task_idx k) \<noteq> idle" and "current_task k = Some task"
    and "is_ecall f" and "length rs = 32" and "regs f = issue call rs"
    and "outcome pf task k call = Some r"
  shows "\<exists>k' g. trap_handler pf hw (frame_of (current_task_idx k) k) (saved f k) =
                  Inr (frame_of (current_task_idx k') k', k') \<and>
                frames k' (frame_of (current_task_idx k) k) = Some g \<and>
                result call (regs g ! REG_A0) = r \<and> mepc g = mepc f + 4 \<and>
                (\<forall>i < 32. i \<noteq> REG_A0 \<longrightarrow> regs g ! i = regs f ! i)"
proof -
  let ?frame = "frame_of (current_task_idx k) k"
  have k: "kernel_inv pf k" "available idle k" using assms(1) by (simp_all add: live_def)
  have len: "length (regs f) = 32" using assms(5,6) by (cases call) (simp_all add: issue_defs)
  obtain k2 where trap: "trap_handler pf hw ?frame (saved f k) = dispatch pf ?frame k2"
    and inv2: "kernel_inv pf k2" and same: "sched_same k k2"
    and k2: "channels k2 = channels k" "clint k2 = clint k" "frames k2 ?frame = Some (f\<lparr>mepc := mepc f + 4\<rparr>)"
    using ecall_dispatches [OF k(1) assms(4) len, of hw] by blast
  note st = sched_same_table [OF same]
  have idx: "current_task_idx k2 = current_task_idx k" "task_count k2 = task_count k"
    using same by (simp_all add: sched_same_def)
  have "outcome pf task k2 call = Some r"
    using assms(7) k2 by (cases call) (simp_all add: queued_def Let_def cong: if_cong list.case_cong)
  moreover have "current_task k2 = Some task" "?frame = frame_of (current_task_idx k2) k2" "available idle k2"
    "idle \<noteq> unat (current_task_idx k2)"
    using assms(2,3) k(2) by (simp_all add: current_task_def available_def st idx)
  ultimately obtain v where v: "result call v = r" "answers pf ?frame k2 (dispatch pf ?frame k2) v"
    using dispatch_answers [OF inv2 _ _ _ _ k2(3) _ assms(5)] assms(6) by fastforce
  then obtain k' where "dispatch pf ?frame k2 = Inr (frame_of (current_task_idx k') k', k')"
    "frames k' ?frame = Some (f\<lparr>mepc := mepc f + 4, regs := (regs f)[REG_A0 := v]\<rparr>)"
    using k2(3) by (auto simp: answers_def returns_def answered_def)
  with trap v(1) len show ?thesis by auto
qed

theorem calls_report_outcome_witness:
  "\<exists>k' g. trap_handler demo_platform \<lparr>hw_entry = 0, hw_mtime = 0, hw_exit = 0\<rparr> (frame_of (current_task_idx booted) booted)
             (saved \<lparr>regs = issue (SendMsg True 1 0x800B8F00 16) (replicate 32 0), mepc = 0x80001000, mstatus = 0,
                     mcause = 8, mtval = 0\<rparr> booted) = Inr (frame_of (current_task_idx k') k', k') \<and>
          frames k' (frame_of (current_task_idx booted) booted) = Some g \<and>
          result (SendMsg True 1 0x800B8F00 16) (regs g ! REG_A0) = Inl Permission"
proof -
  obtain t where t: "current_task booted = Some t" "td_sends_mask t = 1" using booted_user by blast
  have "\<not> holds_endpoint (td_sends_mask t) 1" by (simp add: t holds_endpoint_def mask_has_def)
  then have o: "outcome demo_platform t booted (SendMsg True 1 0x800B8F00 16) = Some (Inl Permission)" by simp
  show ?thesis
    using calls_report_outcome [OF booted_live _ t(1) _ _ _ o, of "\<lparr>regs = issue (SendMsg True 1 0x800B8F00 16)
        (replicate 32 0), mepc = 0x80001000, mstatus = 0, mcause = 8, mtval = 0\<rparr>" "replicate 32 0"
        "\<lparr>hw_entry = 0, hw_mtime = 0, hw_exit = 0\<rparr>"]
    by (auto simp: booted_current is_ecall_def simp del: issue.simps result.simps)
qed

end
