(* ===== verification/Demo_Tasks.thy ===== *)
theory Demo_Tasks
  imports Task_Library
begin

unbundle bit_operations_syntax

text \<open>
  The bodies of the demo tasks (\<^verbatim>\<open>kernel/src/demo/pipeline.rs\<close>, \<^verbatim>\<open>hml.rs\<close>, \<^verbatim>\<open>mod.rs\<close>). A task is an endless
  loop around system calls; one iteration is a function of the task's state and of the values its
  calls return, which gives the calls it makes and the state it continues with.
\<close>

section \<open>Readings on the wire\<close>

definition PERIOD :: u32 where "PERIOD = 10"
definition DEADLINE :: u32 where "DEADLINE = PERIOD"
definition WINDOW :: nat where "WINDOW = 4"
definition LOGGER_WORK :: u32 where "LOGGER_WORK = 3"
definition FLUSH_WORK :: u32 where "FLUSH_WORK = 25"
definition FLUSH_EVERY :: u32 where "FLUSH_EVERY = 5"
definition SUMMARY_EVERY :: u32 where "SUMMARY_EVERY = 100"

record reading =
  rd_seq :: u32
  rd_release :: u32
  rd_raw :: u16
  rd_avg :: u16
  rd_latency :: u8
  rd_misses :: u8
  rd_dropped :: u16

definition u32_to_le :: "u32 \<Rightarrow> u8 list" where
  "u32_to_le w = [ucast w, ucast (drop_bit 8 w), ucast (drop_bit 16 w), ucast (drop_bit 24 w)]"

definition u16_to_le :: "u16 \<Rightarrow> u8 list" where
  "u16_to_le w = [ucast w, ucast (drop_bit 8 w)]"

definition u32_from_le :: "u8 \<Rightarrow> u8 \<Rightarrow> u8 \<Rightarrow> u8 \<Rightarrow> u32" where
  "u32_from_le a b c d =
     ucast a OR push_bit 8 (ucast b) OR push_bit 16 (ucast c) OR push_bit 24 (ucast d)"

definition u16_from_le :: "u8 \<Rightarrow> u8 \<Rightarrow> u16" where
  "u16_from_le a b = ucast a OR push_bit 8 (ucast b)"

definition reading_encode :: "reading \<Rightarrow> u8 list" where
  "reading_encode r =
     u32_to_le (rd_seq r) @ u32_to_le (rd_release r) @ u16_to_le (rd_raw r) @ u16_to_le (rd_avg r) @
     [rd_latency r, rd_misses r] @ u16_to_le (rd_dropped r)"

definition reading_decode :: "u8 list \<Rightarrow> reading" where
  "reading_decode b =
     \<lparr>rd_seq = u32_from_le (b ! 0) (b ! 1) (b ! 2) (b ! 3),
      rd_release = u32_from_le (b ! 4) (b ! 5) (b ! 6) (b ! 7),
      rd_raw = u16_from_le (b ! 8) (b ! 9), rd_avg = u16_from_le (b ! 10) (b ! 11),
      rd_latency = b ! 12, rd_misses = b ! 13, rd_dropped = u16_from_le (b ! 14) (b ! 15)\<rparr>"

lemma u16_bytes: "ucast (ucast w :: u8) OR push_bit 8 (ucast (ucast (drop_bit 8 w) :: u8)) = (w :: u16)"
proof (rule bit_word_eqI)
  fix n assume "n < LENGTH(16)"
  then have "n < 8 \<or> 8 \<le> n \<and> n < 16" by auto
  then show "bit (ucast (ucast w :: u8) OR push_bit 8 (ucast (ucast (drop_bit 8 w) :: u8)) :: u16) n \<longleftrightarrow> bit w n"
    by (auto simp: bit_simps)
qed

text \<open>
  A reading survives the trip through a channel message: it is encoded in exactly the 16 bytes a
  message holds, and decoding the bytes gives the reading back.
\<close>

theorem reading_round_trip:
  "reading_decode (reading_encode r) = r \<and> length (reading_encode r) = MSG_MAX"
  by (cases r) (simp add: reading_decode_def reading_encode_def u32_to_le_def u16_to_le_def u32_from_le_def
      u16_from_le_def u32_bytes u16_bytes)

section \<open>The sensor\<close>

definition saturating_add_u8 :: "u8 \<Rightarrow> u8 \<Rightarrow> u8" where
  "saturating_add_u8 a b = (if unat a + unat b < 256 then a + b else - 1)"

definition saturating_add_u16 :: "u16 \<Rightarrow> u16 \<Rightarrow> u16" where
  "saturating_add_u16 a b = (if unat a + unat b < 65536 then a + b else - 1)"

definition saturating_sub_u32 :: "u32 \<Rightarrow> u32 \<Rightarrow> u32" where
  "saturating_sub_u32 a b = (if b \<le> a then a - b else 0)"

definition triangle :: "u32 \<Rightarrow> u32" where
  "triangle seq =
     (let phase = seq mod 64 in
      if phase < 32 then phase * 1000 div 32 else (64 - phase) * 1000 div 32)"

text \<open>The sample and the next state of the noise generator.\<close>

definition sample :: "u32 \<Rightarrow> u32 \<Rightarrow> u16 \<times> u32" where
  "sample seq noise_state =
     (let noise_state' = noise_state * 1664525 + 1013904223;
          noise = drop_bit 16 noise_state' mod 31
      in (ucast (saturating_sub_u32 (triangle seq + noise) 15), noise_state'))"

record sensor_state =
  sn_noise :: u32
  sn_seq :: u32
  sn_misses :: u8
  sn_dropped :: u16
  sn_release :: u32

definition sensor_init :: "u32 \<Rightarrow> sensor_state" where
  "sensor_init t = \<lparr>sn_noise = 0x12345678, sn_seq = 0, sn_misses = 0, sn_dropped = 0, sn_release = t\<rparr>"

text \<open>
  One iteration. The inputs are the three clock readings and the result of \<open>try_send\<close>; the outputs are
  the reading it offers, the length of the sleep it asks for, if any, and the state it goes on with.
\<close>

definition sensor_step ::
  "u32 \<Rightarrow> sys_error + usize \<Rightarrow> u32 \<Rightarrow> u32 \<Rightarrow> sensor_state \<Rightarrow> reading \<times> u32 option \<times> sensor_state" where
  "sensor_step start sent after t st =
     (let (raw, noise) = sample (sn_seq st) (sn_noise st);
          r = \<lparr>rd_seq = sn_seq st, rd_release = sn_release st, rd_raw = raw, rd_avg = 0,
               rd_latency = ucast (min (start - sn_release st) 255), rd_misses = sn_misses st,
               rd_dropped = sn_dropped st\<rparr>;
          dropped = (if sent = Inl WouldBlock then saturating_add_u16 (sn_dropped st) 1 else sn_dropped st);
          misses = (if after - sn_release st \<ge> DEADLINE then saturating_add_u8 (sn_misses st) 1 else sn_misses st);
          release = sn_release st + PERIOD
      in (r, if sint (release - t) > 0 then Some (release - t) else None,
          \<lparr>sn_noise = noise, sn_seq = sn_seq st + 1, sn_misses = misses, sn_dropped = dropped,
           sn_release = release\<rparr>))"

lemma triangle_bound: "unat (triangle seq) \<le> 1000"
proof -
  define p where "p = seq mod 64"
  have p: "unat p < 64" using unat_mod_distrib [of seq 64] by (simp add: p_def)
  have scale: "unat (x * 1000 div 32) = unat x * 1000 div 32" if "unat x \<le> 64" for x :: u32
  proof -
    have "unat (x * 1000) = unat x * unat (1000 :: u32)"
      by (rule unat_mult_lem [THEN iffD1]) (use that in simp)
    then show ?thesis by (simp add: unat_div_distrib)
  qed
  show ?thesis
  proof (cases "p < 32")
    case True
    then have "unat p < 32" by (simp add: word_less_nat_alt)
    with True scale [of p] show ?thesis by (simp add: triangle_def p_def [symmetric])
  next
    case False
    then have "32 \<le> unat p" by (simp add: word_less_nat_alt)
    moreover have "unat (64 - p) = 64 - unat p" using p by (simp add: unat_sub word_le_nat_alt)
    ultimately show ?thesis using False scale [of "64 - p"] by (simp add: triangle_def p_def [symmetric])
  qed
qed

text \<open>
  A simulated sample lies within 15 of the triangle wave, whose range is 0 to 1000, so that it never
  wraps in its 16 bits.
\<close>

theorem sample_follows_triangle:
  "unat (triangle seq) \<le> 1000 \<and> unat (fst (sample seq noise)) \<le> unat (triangle seq) + 15 \<and>
   unat (triangle seq) \<le> unat (fst (sample seq noise)) + 15"
proof -
  define z where "z = drop_bit 16 (noise * 1664525 + 1013904223) mod 31"
  have z: "unat z < 31" using unat_mod_distrib [of "drop_bit 16 (noise * 1664525 + 1013904223)" 31] by (simp add: z_def)
  let ?t = "triangle seq"
  have t: "unat ?t \<le> 1000" by (rule triangle_bound)
  have sum: "unat (?t + z) = unat ?t + unat z" using t z by (simp add: unat_add_lem [THEN iffD1])
  have "unat (saturating_sub_u32 (?t + z) 15) = unat ?t + unat z - 15"
    using sum by (simp add: saturating_sub_u32_def word_le_nat_alt unat_sub)
  moreover from this have "unat (ucast (saturating_sub_u32 (?t + z) 15) :: u16) = unat ?t + unat z - 15"
    using t z by (simp add: unsigned_ucast_eq take_bit_nat_eq_self)
  ultimately show ?thesis using t z by (simp add: sample_def z_def [symmetric] Let_def) arith
qed

fun sensor_run :: "(u32 \<times> (sys_error + usize) \<times> u32 \<times> u32) list \<Rightarrow> sensor_state \<Rightarrow> (reading \<times> u32 option) list" where
  "sensor_run [] st = []"
| "sensor_run ((start, sent, after, t) # ins) st =
     (let (r, nap, st') = sensor_step start sent after t st in (r, nap) # sensor_run ins st')"

lemma sensor_step_next:
  assumes "sensor_step start sent after t st = (r, nap, st')"
  shows "sn_seq st' = sn_seq st + 1" and "sn_release st' = sn_release st + PERIOD"
    and "rd_seq r = sn_seq st" and "rd_release r = sn_release st"
    and "nap = Some d \<Longrightarrow> t + d = sn_release st + PERIOD \<and> 0 < unat d \<and> unat d < 2 ^ 31"
proof -
  show "sn_seq st' = sn_seq st + 1" "sn_release st' = sn_release st + PERIOD"
    "rd_seq r = sn_seq st" "rd_release r = sn_release st"
    using assms by (auto simp: sensor_step_def Let_def split: prod.splits)
  assume "nap = Some d"
  with assms have "d = sn_release st + PERIOD - t" "0 < sint d"
    by (auto simp: sensor_step_def Let_def split: prod.splits if_splits)
  then show "t + d = sn_release st + PERIOD \<and> 0 < unat d \<and> unat d < 2 ^ 31"
    unfolding sint_u32_pos by simp
qed

lemma sensor_run_nth:
  assumes "i < length ins"
  shows "rd_seq (fst (sensor_run ins st ! i)) = sn_seq st + of_nat i"
    and "rd_release (fst (sensor_run ins st ! i)) = sn_release st + of_nat i * PERIOD"
    and "snd (sensor_run ins st ! i) = Some d \<Longrightarrow>
         snd (snd (snd (ins ! i))) + d = sn_release st + of_nat (Suc i) * PERIOD \<and> 0 < unat d \<and> unat d < 2 ^ 31"
proof -
  have "rd_seq (fst (sensor_run ins st ! i)) = sn_seq st + of_nat i \<and>
    rd_release (fst (sensor_run ins st ! i)) = sn_release st + of_nat i * PERIOD \<and>
    (snd (sensor_run ins st ! i) = Some d \<longrightarrow>
     snd (snd (snd (ins ! i))) + d = sn_release st + of_nat (Suc i) * PERIOD \<and> 0 < unat d \<and> unat d < 2 ^ 31)"
    using assms
  proof (induction ins st arbitrary: i rule: sensor_run.induct)
    case (2 start sent after t ins st)
    obtain r nap st' where step: "sensor_step start sent after t st = (r, nap, st')" by (metis prod_cases3)
    note nx = sensor_step_next(1-4) [OF step] sensor_step_next(5) [OF step, of d]
    show ?case
    proof (cases i)
      case 0
      then show ?thesis using nx by (simp add: step algebra_simps)
    next
      case (Suc j)
      then show ?thesis using 2(1) [OF step [symmetric] refl, where i = j] 2(2) nx
        by (simp add: step algebra_simps)
    qed
  qed simp
  then show "rd_seq (fst (sensor_run ins st ! i)) = sn_seq st + of_nat i"
    "rd_release (fst (sensor_run ins st ! i)) = sn_release st + of_nat i * PERIOD"
    "snd (sensor_run ins st ! i) = Some d \<Longrightarrow>
         snd (snd (snd (ins ! i))) + d = sn_release st + of_nat (Suc i) * PERIOD \<and> 0 < unat d \<and> unat d < 2 ^ 31"
    by auto
qed

text \<open>
  The sensor's schedule does not drift: its \<open>i\<close>-th reading carries sequence number \<open>i\<close> and the release
  tick \<open>i\<close> periods after the start, however late the task ran, and whenever it sleeps after that reading
  it asks for exactly the ticks left until the next release, a duration the kernel's sleep honours.
\<close>

theorem sensor_schedule_does_not_drift:
  assumes "i < length ins" and "(r, nap) = sensor_run ins (sensor_init t0) ! i"
  shows "rd_seq r = of_nat i \<and> rd_release r = t0 + of_nat i * PERIOD \<and>
         (\<forall>d. nap = Some d \<longrightarrow>
            snd (snd (snd (ins ! i))) + d = t0 + of_nat (Suc i) * PERIOD \<and> 0 < unat d \<and> unat d < 2 ^ 31)"
  using sensor_run_nth [OF assms(1), of "sensor_init t0"] assms(2) [symmetric]
  by (simp add: sensor_init_def)

theorem sensor_schedule_does_not_drift_witness:
  "\<exists>r. sensor_run [(100, Inr 0, 100, 101), (112, Inl WouldBlock, 113, 113)] (sensor_init 100) ! 1 = (r, Some 7) \<and>
       rd_seq r = 1 \<and> rd_release r = 110"
proof -
  let ?ins = "[(100, Inr 0, 100, 101), (112, Inl WouldBlock, 113, 113)] :: (u32 \<times> (sys_error + usize) \<times> u32 \<times> u32) list"
  obtain r nap where r: "(r, nap) = sensor_run ?ins (sensor_init 100) ! 1" by (metis surj_pair)
  then have "nap = Some 7"
    by (simp add: sensor_step_def sensor_init_def PERIOD_def sint_u32_pos Let_def case_prod_beta)
  moreover have "rd_seq r = 1 \<and> rd_release r = 110"
    using sensor_schedule_does_not_drift [OF _ r] by (simp add: PERIOD_def)
  ultimately show ?thesis using r [symmetric] by (intro exI [of _ r]) (simp del: sensor_run.simps)
qed

section \<open>The filter\<close>

record filter_state =
  fl_window :: "u16 list"
  fl_filled :: nat

definition filter_init :: filter_state where
  "filter_init = \<lparr>fl_window = replicate WINDOW 0, fl_filled = 0\<rparr>"

definition filter_step :: "reading \<Rightarrow> filter_state \<Rightarrow> reading \<times> filter_state" where
  "filter_step r st =
     (let window = (fl_window st)[unat (rd_seq r) mod WINDOW := rd_raw r];
          filled = min (fl_filled st + 1) WINDOW;
          total = sum_list (map ucast (take filled window)) :: u32
      in (r\<lparr>rd_avg := ucast (total div of_nat filled)\<rparr>, \<lparr>fl_window = window, fl_filled = filled\<rparr>))"

fun filter_run :: "reading list \<Rightarrow> filter_state \<Rightarrow> reading list" where
  "filter_run [] st = []"
| "filter_run (r # rs) st = (let (r', st') = filter_step r st in r' # filter_run rs st')"

text \<open>The window after \<open>n\<close> consecutive readings with raw values \<open>f\<close>: the last four, at their sequence number modulo 4.\<close>

definition window_holds :: "(nat \<Rightarrow> u16) \<Rightarrow> nat \<Rightarrow> filter_state \<Rightarrow> bool" where
  "window_holds f n st \<longleftrightarrow>
     length (fl_window st) = 4 \<and> fl_filled st = min n 4 \<and>
     (\<forall>j < n. n \<le> j + 4 \<longrightarrow> fl_window st ! (j mod 4) = f j)"

definition mean_of_last :: "(nat \<Rightarrow> u16) \<Rightarrow> nat \<Rightarrow> nat" where
  "mean_of_last f n = (\<Sum>j = n - min n 4..<n. unat (f j)) div min n 4"

lemma seq_mod: "unat (of_nat n :: u32) mod 4 = n mod 4"
  by (simp add: unat_of_nat mod_mod_cancel)

lemma window_holds_step:
  assumes "window_holds f n st" and "rd_seq r = of_nat n" and "rd_raw r = f n"
  shows "window_holds f (Suc n) (snd (filter_step r st))"
proof -
  have j: "j mod 4 \<noteq> n mod 4" if "j < n" "n < j + 4" for j
  proof
    assume "j mod 4 = n mod 4"
    with that show False by presburger
  qed
  have "(fl_window st)[n mod 4 := f n] ! (j mod 4) = f j" if "j < Suc n" "Suc n \<le> j + 4" for j
    using assms(1) that j [of j] by (cases "j = n") (auto simp: window_holds_def nth_list_update)
  then show ?thesis
    using assms by (auto simp: window_holds_def filter_step_def seq_mod WINDOW_def Let_def)
qed

lemma window_sum:
  assumes "window_holds f n st" and "0 < n"
  shows "(\<Sum>j < min n 4. unat (fl_window st ! j)) = (\<Sum>j = n - min n 4..<n. unat (f j))"
proof -
  let ?A = "{n - min n 4..<n}"
  have val: "fl_window st ! (j mod 4) = f j" if "j \<in> ?A" for j
    using assms(1) that by (auto simp: window_holds_def)
  have inj: "inj_on (\<lambda>j. j mod 4) ?A"
  proof (rule inj_onI)
    fix x y assume "x \<in> ?A" "y \<in> ?A" "x mod 4 = y mod 4"
    then have "x < y + 4" "y < x + 4" "x mod 4 = y mod 4" by auto
    then show "x = y" by presburger
  qed
  have sub: "(\<lambda>j. j mod 4) ` ?A \<subseteq> {..< min n 4}" by auto
  have "card ((\<lambda>j. j mod 4) ` ?A) = card {..< min n 4}" using inj by (simp add: card_image)
  then have "(\<lambda>j. j mod 4) ` ?A = {..< min n 4}" by (intro card_subset_eq) (use sub in auto)
  then have "(\<Sum>j < min n 4. unat (fl_window st ! j)) = (\<Sum>j \<in> ?A. unat (fl_window st ! (j mod 4)))"
    using inj by (metis (no_types, lifting) sum.reindex_cong)
  also have "\<dots> = (\<Sum>j \<in> ?A. unat (f j))" using val by (intro sum.cong) auto
  finally show ?thesis .
qed

lemma sum_u16:
  assumes "length (xs :: u16 list) \<le> 4"
  shows "unat (sum_list (map ucast xs) :: u32) = sum_list (map unat xs)"
    and "sum_list (map unat xs) \<le> length xs * 65535"
  using assms
proof (induction xs)
  case (Cons x xs)
  have x: "unat x \<le> 65535" using unsigned_less [of x, where 'a = nat] by simp
  have u: "unat (ucast x :: u32) = unat x" using x by (simp add: unsigned_ucast_eq take_bit_nat_eq_self)
  { case 1
    have "unat (ucast x :: u32) + unat (sum_list (map ucast xs) :: u32) < 2 ^ 32"
      using Cons.IH 1 x u by simp
    then show ?case using Cons.IH(1) 1 u by (simp add: unat_add_lem [THEN iffD1]) }
  { case 2
    then show ?case using Cons.IH(2) x by simp }
qed simp_all

lemma filter_step_mean:
  assumes "length (fl_window st) = 4" and "(r', st') = filter_step r st"
  shows "unat (rd_avg r') = (\<Sum>j < fl_filled st'. unat (fl_window st' ! j)) div fl_filled st'"
proof -
  define m where "m = min (fl_filled st + 1) 4"
  have m: "0 < m" "m \<le> 4" by (simp_all add: m_def)
  have st': "fl_filled st' = m" "length (fl_window st') = 4"
    using assms by (auto simp: filter_step_def Let_def m_def WINDOW_def)
  define ws where "ws = take m (fl_window st')"
  have len: "length ws = m" using st' m by (simp add: ws_def)
  note bound = sum_u16 [of ws, unfolded len, OF m(2)]
  have "rd_avg r' = ucast ((sum_list (map ucast ws) :: u32) div of_nat m)"
    using assms(2) by (simp add: filter_step_def Let_def ws_def m_def WINDOW_def)
  moreover have "unat ((sum_list (map ucast ws) :: u32) div of_nat m) = sum_list (map unat ws) div m"
    using bound(1) m by (simp add: unat_div_distrib unat_of_nat)
  moreover have "sum_list (map unat ws) div m < 65536"
    using bound(2) m(1) by (simp add: less_mult_imp_div_less mult.commute le_less_trans)
  ultimately have "unat (rd_avg r') = sum_list (map unat ws) div m"
    by (simp add: unsigned_ucast_eq take_bit_nat_eq_self)
  moreover have "sum_list (map unat ws) = (\<Sum>j < m. unat (fl_window st' ! j))"
    using st' m by (simp add: ws_def sum_list_sum_nth atLeast0LessThan)
  ultimately show ?thesis using st'(1) by simp
qed

lemma filter_step_average:
  assumes st: "window_holds f n st" and r: "rd_seq r = of_nat n" "rd_raw r = f n"
  shows "unat (rd_avg (fst (filter_step r st))) = mean_of_last f (Suc n)"
proof -
  let ?st = "snd (filter_step r st)"
  have w: "window_holds f (Suc n) ?st" by (rule window_holds_step [OF assms])
  then have "fl_filled ?st = min (Suc n) 4" "length (fl_window st) = 4"
    using st by (simp_all add: window_holds_def)
  with filter_step_mean [of st "fst (filter_step r st)" ?st r] window_sum [OF w zero_less_Suc] show ?thesis
    by (simp only: mean_of_last_def prod.collapse)
qed

text \<open>
  C38: after a gap the filter does not average the last samples. When \<open>g\<close> readings were dropped
  after \<open>n\<close> consecutive ones, the next reading replaces the sample at its own sequence number modulo 4, which
  is the oldest one only if \<open>g\<close> is a multiple of 4; otherwise the oldest sample stays in the average
  and a later one leaves it.
\<close>

theorem filter_gap_keeps_oldest:
  assumes "window_holds f n st" and "4 \<le> n" and "rd_seq r = of_nat (n + g)"
  shows "unat (rd_avg (fst (filter_step r st))) =
    ((\<Sum>j = n - 4..<n. unat (f j)) - unat (f (n - 4 + g mod 4)) + unat (rd_raw r)) div 4"
proof -
  let ?st = "snd (filter_step r st)" and ?i = "(n + g) mod 4"
  have w: "length (fl_window st) = 4" "fl_filled st = 4" "\<And>j. j < n \<Longrightarrow> n \<le> j + 4 \<Longrightarrow> fl_window st ! (j mod 4) = f j"
    using assms(1,2) by (auto simp: window_holds_def)
  obtain a where a: "n = a + 4" using assms(2) by (metis le_add_diff_inverse2)
  have "a + 4 + g = a + g + 4" by simp
  then have "(n - 4 + g mod 4) mod 4 = ?i" by (simp only: a diff_add_inverse2 mod_add_right_eq mod_add_self2)
  then have old: "fl_window st ! ?i = f (n - 4 + g mod 4)"
    using w(3) [of "n - 4 + g mod 4"] assms(2) by simp
  have st': "fl_window ?st = (fl_window st)[?i := rd_raw r]" "fl_filled ?st = 4"
    using assms(3) w(2) by (simp_all add: filter_step_def seq_mod WINDOW_def Let_def del: of_nat_add)
  let ?F = "\<lambda>j. unat (fl_window st ! j)"
  have "(\<Sum>j < 4. unat (fl_window ?st ! j)) =
      unat (fl_window ?st ! ?i) + (\<Sum>j \<in> {..<4} - {?i}. unat (fl_window ?st ! j))"
    by (rule sum.remove) simp_all
  also have "\<dots> = unat (rd_raw r) + (\<Sum>j \<in> {..<4} - {?i}. ?F j)"
    unfolding st'(1) using w(1) by (intro arg_cong2 [of _ _ _ _ "(+)"] sum.cong) simp_all
  also have "(\<Sum>j \<in> {..<4} - {?i}. ?F j) = (\<Sum>j < 4. ?F j) - ?F ?i"
    by (simp add: sum_diff1_nat)
  finally have "(\<Sum>j < 4. unat (fl_window ?st ! j)) =
      (\<Sum>j = n - 4..<n. unat (f j)) - unat (f (n - 4 + g mod 4)) + unat (rd_raw r)"
    using window_sum [OF assms(1)] assms(2) old by simp
  with filter_step_mean [OF w(1), of "fst (filter_step r st)" ?st r] st'(2) show ?thesis by simp
qed

text \<open>
  On consecutive readings the filter forwards the integer mean of the last four raw samples, of as
  many as there are at the start, and changes nothing else.
\<close>

theorem filter_is_moving_average:
  assumes "\<forall>j < length rs. rd_seq (rs ! j) = of_nat j" and "i < length rs"
  shows "unat (rd_avg (filter_run rs filter_init ! i)) = mean_of_last (\<lambda>j. rd_raw (rs ! j)) (Suc i) \<and>
         (filter_run rs filter_init ! i)\<lparr>rd_avg := rd_avg (rs ! i)\<rparr> = rs ! i"
proof -
  have "unat (rd_avg (filter_run ys st ! i)) = mean_of_last f (Suc (n + i)) \<and>
        (filter_run ys st ! i)\<lparr>rd_avg := rd_avg (ys ! i)\<rparr> = ys ! i"
    if "window_holds f n st" "\<forall>j < length ys. rd_seq (ys ! j) = of_nat (n + j) \<and> rd_raw (ys ! j) = f (n + j)"
      "i < length ys" for ys st f n
    using that
  proof (induction ys arbitrary: st n i)
    case (Cons y ys)
    obtain y' st' where step: "filter_step y st = (y', st')" by (metis surj_pair)
    have y: "rd_seq y = of_nat n" "rd_raw y = f n" using Cons.prems(2) by auto
    have st': "window_holds f (Suc n) st'" using window_holds_step [OF Cons.prems(1) y] step by simp
    show ?case
    proof (cases i)
      case 0
      have "y'\<lparr>rd_avg := rd_avg y\<rparr> = y" using step by (cases y) (auto simp: filter_step_def Let_def)
      then show ?thesis using 0 filter_step_average [OF Cons.prems(1) y] step by simp
    next
      case (Suc k)
      have "\<forall>j < length ys. rd_seq (ys ! j) = of_nat (Suc n + j) \<and> rd_raw (ys ! j) = f (Suc n + j)"
        using Cons.prems(2) by auto
      from Cons.IH [OF st' this, of k] Cons.prems(3) Suc step show ?thesis by simp
    qed
  qed simp
  note general = this
  have "window_holds f 0 filter_init" for f by (simp add: window_holds_def filter_init_def WINDOW_def)
  from general [OF this, of rs "\<lambda>j. rd_raw (rs ! j)"] show ?thesis using assms by simp
qed

definition demo_readings :: "reading list" where
  "demo_readings = map (\<lambda>j. \<lparr>rd_seq = of_nat j, rd_release = 0, rd_raw = of_nat (100 * j), rd_avg = 0,
      rd_latency = 0, rd_misses = 0, rd_dropped = 0\<rparr>) [0..<6]"

theorem filter_is_moving_average_witness:
  "unat (rd_avg (filter_run demo_readings filter_init ! 5)) = 350"
proof -
  have nth: "rd_seq (demo_readings ! j) = of_nat j \<and> rd_raw (demo_readings ! j) = of_nat (100 * j)" if "j < 6" for j
    using that by (simp add: demo_readings_def del: upt_rec_numeral upt_Suc of_nat_mult)
  have "length demo_readings = 6" by (simp add: demo_readings_def)
  with nth have "unat (rd_avg (filter_run demo_readings filter_init ! 5)) =
      mean_of_last (\<lambda>j. rd_raw (demo_readings ! j)) (Suc 5)"
    using filter_is_moving_average [of demo_readings 5] by simp
  also have "\<dots> = (\<Sum>j \<in> {2..<6}. unat (rd_raw (demo_readings ! j))) div 4" by (simp add: mean_of_last_def)
  also have "\<dots> = (\<Sum>j \<in> {2..<6}. unat (of_nat (100 * j) :: u16)) div 4" using nth by simp
  also have "\<dots> = 350"
  proof -
    have "{2..<6} = {2, 3, 4, 5 :: nat}" by auto
    then show ?thesis by simp
  qed
  finally show ?thesis .
qed

text \<open>
  Witness: after the readings 0 to 5 with the samples 0, 100 up to 500, reading 7 with sample 700 gives the
  average of 200, 400, 500 and 700; the last four samples received are 300, 400, 500 and 700.
\<close>

theorem filter_gap_keeps_oldest_witness:
  "\<exists>st r. fold (\<lambda>r s. snd (filter_step r s)) demo_readings filter_init = st \<and> rd_seq r = 7 \<and> rd_raw r = 700 \<and>
          unat (rd_avg (fst (filter_step r st))) = 450"
proof -
  let ?f = "\<lambda>j. of_nat (100 * j) :: u16"
  let ?after = "\<lambda>n. fold (\<lambda>r s. snd (filter_step r s)) (take n demo_readings) filter_init"
  have len: "length demo_readings = 6" by (simp add: demo_readings_def)
  have nth: "rd_seq (demo_readings ! j) = of_nat j" "rd_raw (demo_readings ! j) = ?f j" if "j < 6" for j
    using that by (simp_all add: demo_readings_def del: upt_rec_numeral upt_Suc of_nat_mult)
  have "window_holds ?f n (?after n)" if "n \<le> 6" for n
    using that
  proof (induction n)
    case 0
    show ?case by (simp add: window_holds_def filter_init_def WINDOW_def)
  next
    case (Suc n)
    then have "?after (Suc n) = snd (filter_step (demo_readings ! n) (?after n))"
      using len by (simp add: take_Suc_conv_app_nth)
    with Suc nth [of n] window_holds_step [of ?f n "?after n" "demo_readings ! n"] show ?case by simp
  qed
  from this [of 6] have w: "window_holds ?f 6 (?after 6)" by simp
  define r where "r = (demo_readings ! 0)\<lparr>rd_seq := 7, rd_raw := 700\<rparr>"
  have "unat (rd_avg (fst (filter_step r (?after 6)))) =
      ((\<Sum>j = 6 - 4..<6. unat (?f j)) - unat (?f (6 - 4 + 1 mod 4)) + unat (rd_raw r)) div 4"
    by (rule filter_gap_keeps_oldest [OF w]) (simp_all add: r_def)
  also have "\<dots> = 450"
  proof -
    have "{2..<6} = {2, 3, 4, 5 :: nat}" by auto
    then show ?thesis by (simp add: r_def)
  qed
  finally show ?thesis using len by (intro exI [of _ "?after 6"] exI [of _ r]) (simp add: r_def)
qed

end
