(* ===== verification/Demo_Bodies.thy ===== *)
theory Demo_Bodies
  imports Demo_Tasks
begin

text \<open>
  The demo task bodies that spin, log and probe the kernel (\<^verbatim>\<open>kernel/src/demo/pipeline.rs\<close> from \<open>burn\<close> on,
  \<^verbatim>\<open>hml.rs\<close>, \<^verbatim>\<open>mod.rs\<close>). A body consumes the successive values \<open>sys::now()\<close> returns from a list and gives
  the other calls it makes, in order; \<open>None\<close> stands for a loop that is still spinning when the list ends.
\<close>

section \<open>Busy waiting\<close>

text \<open>
  The loop \<open>while sys::now() < limit {}\<close>: the clock readings left when it ends. The sum \<open>start + ticks\<close>
  wraps, as it does in the release profile of the workspace (a debug build would panic there).
\<close>

fun work_until :: "u32 \<Rightarrow> u32 list \<Rightarrow> u32 list option" where
  "work_until limit [] = None"
| "work_until limit (t # ts) = (if t < limit then work_until limit ts else Some ts)"

definition burn :: "u32 \<Rightarrow> u32 list \<Rightarrow> ((u32 \<times> u32) \<times> u32 list) option" where
  "burn n ts =
     (case ts of
        [] \<Rightarrow> None
      | start # ts1 \<Rightarrow>
          (case work_until (start + n) ts1 of
             Some (stop # ts2) \<Rightarrow> Some ((start, stop), ts2)
           | _ \<Rightarrow> None))"

lemma work_until_dropWhile:
  "work_until limit ts = (case dropWhile (\<lambda>t. t < limit) ts of [] \<Rightarrow> None | t # rest \<Rightarrow> Some rest)"
  by (induction ts) auto

lemma work_until_ends:
  assumes "sorted (map unat ts)" and "Suc j < length ts" and "limit \<le> ts ! j"
  obtains stop rest where "work_until limit ts = Some (stop # rest)" and "limit \<le> stop"
proof -
  define d where "d = dropWhile (\<lambda>t. t < limit) ts"
  let ?n = "length (takeWhile (\<lambda>t. t < limit) ts)"
  have n: "?n \<le> j" using nth_length_takeWhile assms(2,3) set_takeWhileD
    by (metis (no_types, lifting) leD leI nth_mem takeWhile_nth)
  have d: "d = drop ?n ts" unfolding d_def by (rule dropWhile_eq_drop)
  then have len: "1 < length d" using n assms(2) by simp
  then obtain t stop rest where ts: "d = t # stop # rest"
    by (cases d rule: list.exhaust [case_names Nil Cons], simp) (metis One_nat_def length_Cons less_irrefl list.exhaust list.size(3))
  have "\<not> t < limit" using ts hd_dropWhile [of "\<lambda>t. t < limit" ts] by (simp add: d_def)
  moreover have "sorted (map unat d)" using assms(1) d by (simp add: drop_map [symmetric] sorted_wrt_drop)
  ultimately have "limit \<le> stop" using ts by (simp add: word_le_nat_alt word_less_nat_alt)
  with ts that show ?thesis by (simp add: work_until_dropWhile d_def [symmetric])
qed

lemma burn_length:
  assumes "sorted (map unat ts)" and "burn n ts = Some ((start, stop), rest)" and "unat start + unat n < 2 ^ 32"
  shows "unat start + unat n \<le> unat stop"
proof -
  obtain ts1 where ts: "ts = start # ts1" "work_until (start + n) ts1 = Some (stop # rest)"
    using assms(2) by (auto simp: burn_def split: list.splits option.splits)
  then obtain t where t: "dropWhile (\<lambda>t. t < start + n) ts1 = t # stop # rest"
    by (auto simp: work_until_dropWhile split: list.splits)
  have "\<not> t < start + n" using t hd_dropWhile [of "\<lambda>t. t < start + n" ts1] by simp
  moreover have "sorted (map unat (t # stop # rest))"
    using assms(1) ts(1) t by (metis drop_map dropWhile_eq_drop list.simps(9) sorted_wrt_drop sorted_simps(2))
  ultimately have "unat (start + n) \<le> unat stop" by (simp add: word_less_nat_alt)
  then show ?thesis using assms(3) by (simp add: unat_add_lem [THEN iffD1])
qed

text \<open>
  \<open>burn\<close> terminates once the clock has reached the end of the wait, and has then waited at least the
  requested ticks, as long as the end of the wait does not pass the wrap-around of the tick counter.
\<close>

theorem burn_waits:
  assumes "sorted (map unat (start # ts))" and "unat start + unat n < 2 ^ 32"
    and "Suc j < length ts" and "unat start + unat n \<le> unat (ts ! j)"
  shows "\<exists>stop rest. burn n (start # ts) = Some ((start, stop), rest) \<and> unat start + unat n \<le> unat stop"
proof -
  have limit: "unat (start + n) = unat start + unat n" using assms(2) by (simp add: unat_add_lem [THEN iffD1])
  have "sorted (map unat ts)" "start + n \<le> ts ! j" using assms(1,4) limit by (simp_all add: word_le_nat_alt)
  then obtain stop rest where "work_until (start + n) ts = Some (stop # rest)" "start + n \<le> stop"
    using work_until_ends [OF _ assms(3)] by metis
  with limit show ?thesis by (simp add: burn_def word_le_nat_alt)
qed

theorem burn_waits_witness: "\<exists>stop rest. burn 3 [100, 101, 102, 103, 104] = Some ((100, stop), rest) \<and> 103 \<le> unat stop"
  using burn_waits [of 100 "[101, 102, 103, 104]" 3 2] by simp

text \<open>
  C39: past that point it does not wait at all: started within \<open>n\<close> ticks of the wrap-around, \<open>burn\<close> returns
  as soon as it has read the clock, because the limit wraps to a small number.
\<close>

theorem burn_returns_at_once:
  assumes "2 ^ 32 \<le> unat start + unat n" and "unat start \<le> unat t"
  shows "burn n (start # t # t' # ts) = Some ((start, t'), ts)"
proof -
  have "unat (start + n) = unat start + unat n - 2 ^ 32"
    using assms(1) unat_u32_less [of start] unat_u32_less [of n] by (simp add: unat_word_ariths mod_if)
  also have "\<dots> < unat start" using assms(1) unat_u32_less [of n] by simp
  finally have "\<not> t < start + n" using assms(2) by (simp add: word_less_nat_alt)
  then show ?thesis by (simp add: burn_def)
qed

theorem burn_returns_at_once_witness:
  "burn FLUSH_WORK [0xFFFFFFF0, 0xFFFFFFF0, 0xFFFFFFF0] = Some ((0xFFFFFFF0, 0xFFFFFFF0), [])"
  by (rule burn_returns_at_once) (simp_all add: FLUSH_WORK_def)

section \<open>Bodies\<close>

text \<open>The calls of a body: a line built in a buffer of the given capacity, a literal message, a sleep, a store.\<close>

datatype action =
    LogLine nat "piece list"
  | LogText string
  | SleepTicks u32
  | StoreWord usize u32

record logger_state =
  lg_max_latency :: u8
  lg_count :: u32

definition logger_init :: logger_state where
  "logger_init = \<lparr>lg_max_latency = 0, lg_count = 0\<rparr>"

definition log_line :: "u32 \<Rightarrow> reading \<Rightarrow> action" where
  "log_line t r =
     LogLine 112 [Str ''[LOG] t='', Dec t, Str '' seq='', Dec (rd_seq r), Str '' release='', Dec (rd_release r),
       Str '' raw='', Dec (ucast (rd_raw r)), Str '' avg='', Dec (ucast (rd_avg r)),
       Str '' latency='', Dec (ucast (rd_latency r)), Str '' misses='', Dec (ucast (rd_misses r)),
       Str '' dropped='', Dec (ucast (rd_dropped r)), Str nl]"

definition flush_line :: "u32 \<times> u32 \<Rightarrow> action" where
  "flush_line w = LogLine 64 [Str ''[LOG] flush start='', Dec (fst w), Str '' end='', Dec (snd w), Str nl]"

definition summary_line :: "u32 \<Rightarrow> u8 \<Rightarrow> reading \<Rightarrow> action" where
  "summary_line cnt max_latency r =
     LogLine 112 [Str ''[LOG] summary: samples='', Dec cnt, Str '' max_latency='', Dec (ucast max_latency),
       Str '' misses='', Dec (ucast (rd_misses r)), Str '' dropped='', Dec (ucast (rd_dropped r)), Str nl]"

text \<open>One iteration of the logger, from the message it received on.\<close>

definition logger_step :: "u8 list \<Rightarrow> u32 list \<Rightarrow> logger_state \<Rightarrow> (action list \<times> logger_state \<times> u32 list) option" where
  "logger_step buf ts st =
     (let r = reading_decode buf;
          max_latency = max (lg_max_latency st) (rd_latency r);
          cnt = lg_count st + 1;
          summary = (if cnt mod SUMMARY_EVERY = 0 then [summary_line cnt max_latency r] else []);
          st' = \<lparr>lg_max_latency = max_latency, lg_count = cnt\<rparr>
      in case burn LOGGER_WORK ts of
           Some (_, t # ts1) \<Rightarrow>
             if cnt mod FLUSH_EVERY = 0 then
               (case burn FLUSH_WORK ts1 of
                  None \<Rightarrow> None
                | Some (w, ts2) \<Rightarrow> Some (log_line t r # flush_line w # summary, st', ts2))
             else Some (log_line t r # summary, st', ts1)
         | _ \<Rightarrow> None)"

definition task_l :: "u32 list \<Rightarrow> (action list \<times> u32 list) option" where
  "task_l ts =
     (case ts of
        [] \<Rightarrow> None
      | start # ts1 \<Rightarrow>
          (case work_until (start + 3) ts1 of
             Some (t # ts2) \<Rightarrow>
               Some ([LogLine 64 [Str ''[L] work start t='', Dec start, Str ('' (holds UART0, eff_pri=3)'' @ nl)],
                      LogLine 64 [Str ''[L] work end t='', Dec t, Str nl], SleepTicks 20], ts2)
           | _ \<Rightarrow> None))"

definition task_m :: "u32 list \<Rightarrow> (action list \<times> u32 list) option" where
  "task_m ts =
     (case ts of
        [] \<Rightarrow> None
      | start # ts1 \<Rightarrow>
          (case work_until (start + 2) ts1 of
             None \<Rightarrow> None
           | Some ts2 \<Rightarrow> Some ([LogLine 64 [Str ''[M] run t='', Dec start, Str nl], SleepTicks 7], ts2)))"

definition task_h :: "u32 list \<Rightarrow> (action list \<times> u32 list) option" where
  "task_h ts =
     (case ts of
        [] \<Rightarrow> None
      | t # ts1 \<Rightarrow> Some ([LogLine 64 [Str ''[H] run t='', Dec t, Str nl], SleepTicks 10], ts1))"

text \<open>\<open>probe_log_validation\<close>, from the result of its call on: the message it logs.\<close>

definition probe_log_validation :: "sys_error + usize \<Rightarrow> action" where
  "probe_log_validation r =
     LogText ((case r of
        Inl Fault \<Rightarrow> ''[probe] log of kernel memory rejected (EFAULT)''
      | Inl _ \<Rightarrow> ''[probe] log of kernel memory rejected with unexpected error''
      | Inr _ \<Rightarrow> ''[probe] log of kernel memory was ACCEPTED'') @ nl)"

text \<open>The fault-injection task up to its endless loop of sleeps.\<close>

definition task_rogue :: "usize \<Rightarrow> action list" where
  "task_rogue target =
     [SleepTicks 30, LogLine 80 [Str ''[F] writing to kernel memory at '', HexWord target, Str nl],
      StoreWord target 0xBAD0BAD0, LogText (''[F] write to kernel memory SUCCEEDED: no PMP isolation'' @ nl)]"

text \<open>The parking loop a task runs after its entry point returned, \<open>n\<close> iterations of it.\<close>

definition task_returned_body :: "nat \<Rightarrow> action list" where
  "task_returned_body n =
     LogText (''[KERNEL] task returned from its entry point; parking it'' @ nl) # replicate n (SleepTicks ((- 1) div 2))"

section \<open>No line is cut\<close>

lemma decimal_length: "n < 10 ^ Suc d \<Longrightarrow> length (decimal n) \<le> Suc d"
proof (induction d arbitrary: n)
  case 0
  then show ?case by (subst decimal.simps) simp
next
  case (Suc d)
  have "n div 10 < 10 ^ Suc d" using Suc.prems by (simp add: less_mult_imp_div_less mult.commute)
  from Suc.IH [OF this] show ?case by (subst decimal.simps) simp
qed

definition width :: "piece \<Rightarrow> nat" where
  "width p = length (piece_bytes p)"

lemma width_simps:
  "width (Str s) = length s" "width (HexWord w) = 10" "width (Dec v) \<le> 10"
  "width (Dec (ucast (h :: u16))) \<le> 5" "width (Dec (ucast (b :: u8))) \<le> 3"
proof -
  show "width (Str s) = length s" "width (HexWord w) = 10" by (simp_all add: width_def bytes_of_def)
  show "width (Dec v) \<le> 10"
    using decimal_length [of "unat v" 9] unat_u32_less [of v] by (simp add: width_def)
  show "width (Dec (ucast (h :: u16))) \<le> 5"
    using decimal_length [of "unat h" 4] unsigned_less [of h, where 'a = nat]
    by (simp add: width_def unsigned_ucast_eq take_bit_nat_eq_self)
  show "width (Dec (ucast (b :: u8))) \<le> 3"
    using decimal_length [of "unat b" 2] unsigned_less [of b, where 'a = nat]
    by (simp add: width_def unsigned_ucast_eq take_bit_nat_eq_self)
qed

fun complete :: "action \<Rightarrow> bool" where
  "complete (LogLine n ps) \<longleftrightarrow> line n ps = Inr (concat (map piece_bytes ps))"
| "complete (LogText s) \<longleftrightarrow> length s \<le> unat LOG_MAX_LEN"
| "complete _ \<longleftrightarrow> True"

lemma complete_line: "sum_list (map width ps) \<le> n \<Longrightarrow> complete (LogLine n ps)"
  by (simp add: line_text length_concat width_def [abs_def] comp_def)

text \<open>The bound of a line is the sum of the bounds of its pieces.\<close>

lemma fits_pieces:
  "length s \<le> n \<Longrightarrow> sum_list (map width ps) \<le> n - length s \<Longrightarrow> sum_list (map width (Str s # ps)) \<le> n"
  "10 \<le> n \<Longrightarrow> sum_list (map width ps) \<le> n - 10 \<Longrightarrow> sum_list (map width (HexWord w # ps)) \<le> n"
  "3 \<le> n \<Longrightarrow> sum_list (map width ps) \<le> n - 3 \<Longrightarrow> sum_list (map width (Dec (ucast (b :: u8)) # ps)) \<le> n"
  "5 \<le> n \<Longrightarrow> sum_list (map width ps) \<le> n - 5 \<Longrightarrow> sum_list (map width (Dec (ucast (h :: u16)) # ps)) \<le> n"
  "10 \<le> n \<Longrightarrow> sum_list (map width ps) \<le> n - 10 \<Longrightarrow> sum_list (map width (Dec v # ps)) \<le> n"
  using width_simps(3) [of v] width_simps(4) [of h] width_simps(5) [of b] by (simp_all add: width_simps(1,2))

lemma log_line_complete: "complete (log_line t r)"
  unfolding log_line_def by (rule complete_line, (rule fits_pieces, simp)+, simp)

lemma flush_line_complete: "complete (flush_line w)"
  unfolding flush_line_def by (rule complete_line, (rule fits_pieces, simp)+, simp)

lemma summary_line_complete: "complete (summary_line n l r)"
  unfolding summary_line_def by (rule complete_line, (rule fits_pieces, simp)+, simp)

lemma logger_step_complete:
  assumes "logger_step buf ts st = Some (acts, st', ts')"
  shows "list_all complete acts"
  using assms by (auto simp: logger_step_def Let_def log_line_complete flush_line_complete summary_line_complete
      split: option.splits list.splits if_splits)

lemma hml_complete:
  "task_l ts = Some (acts, ts') \<Longrightarrow> list_all complete acts"
  "task_m ts = Some (acts, ts') \<Longrightarrow> list_all complete acts"
  "task_h ts = Some (acts, ts') \<Longrightarrow> list_all complete acts"
proof -
  have l: "complete (LogLine 64 [Str ''[L] work start t='', Dec t, Str ('' (holds UART0, eff_pri=3)'' @ nl)])"
    "complete (LogLine 64 [Str ''[L] work end t='', Dec t, Str nl])" for t
    by (rule complete_line, (rule fits_pieces, simp)+, simp)+
  have m: "complete (LogLine 64 [Str ''[M] run t='', Dec t, Str nl])" for t
    by (rule complete_line, (rule fits_pieces, simp)+, simp)
  have h: "complete (LogLine 64 [Str ''[H] run t='', Dec t, Str nl])" for t
    by (rule complete_line, (rule fits_pieces, simp)+, simp)
  show "task_l ts = Some (acts, ts') \<Longrightarrow> list_all complete acts"
    using l by (auto simp: task_l_def split: list.splits option.splits simp del: complete.simps(1))
  show "task_m ts = Some (acts, ts') \<Longrightarrow> list_all complete acts"
    using m by (auto simp: task_m_def split: list.splits option.splits simp del: complete.simps(1))
  show "task_h ts = Some (acts, ts') \<Longrightarrow> list_all complete acts"
    using h by (auto simp: task_h_def split: list.splits option.splits simp del: complete.simps(1))
qed

lemma helper_complete: "list_all complete (task_rogue target)" "complete (probe_log_validation r)"
  "list_all complete (task_returned_body n)"
proof -
  have "complete (LogLine 80 [Str ''[F] writing to kernel memory at '', HexWord target, Str nl])"
    by (rule complete_line, (rule fits_pieces, simp)+, simp)
  then show "list_all complete (task_rogue target)" by (simp add: task_rogue_def LOG_MAX_LEN_def del: complete.simps(1))
  show "complete (probe_log_validation r)"
    by (auto simp: probe_log_validation_def LOG_MAX_LEN_def split: sum.splits sys_error.splits)
  show "list_all complete (task_returned_body n)"
    by (simp add: task_returned_body_def LOG_MAX_LEN_def list_all_iff)
qed

text \<open>
  No message of the demo tasks is ever cut: whatever numbers a line carries, the buffer its task
  builds it in holds all of its text, and no literal message exceeds what one log call writes.
\<close>

theorem demo_messages_complete:
  assumes "(\<exists>buf st st'. logger_step buf ts st = Some (acts, st', ts')) \<or> task_l ts = Some (acts, ts') \<or>
           task_m ts = Some (acts, ts') \<or> task_h ts = Some (acts, ts') \<or> acts = task_rogue target \<or>
           acts = [probe_log_validation r] \<or> acts = task_returned_body n"
  shows "list_all complete acts"
  using assms logger_step_complete hml_complete helper_complete by auto

theorem demo_messages_complete_witness:
  "\<exists>acts ts'. task_l [4294967000, 4294967001, 4294967003, 4294967003] = Some (acts, ts') \<and> list_all complete acts"
proof -
  obtain acts ts' where t: "task_l [4294967000, 4294967001, 4294967003, 4294967003] = Some (acts, ts')"
    by (simp add: task_l_def)
  with demo_messages_complete [of _ acts ts'] show ?thesis by blast
qed

section \<open>Probes of the kernel\<close>

text \<open>The address the probe names lies in no range the kernel lets the task read.\<close>

lemma probe_rejected:
  assumes "may_log t" and "\<not> (\<exists>r \<in> set (readable_ranges pf t). in_range r (unat addr))"
  shows "outcome pf t k (LogBytes addr 16) = Some (Inl Fault)"
    and "probe_log_validation (Inl Fault) = LogText (''[probe] log of kernel memory rejected (EFAULT)'' @ nl)"
proof -
  have "min (16 :: usize) LOG_MAX_LEN = 16" by (simp add: LOG_MAX_LEN_def)
  moreover have "\<not> buffer_readable addr 16 (readable_ranges pf t)"
    using assms(2) readable_bytes [of addr 16 "readable_ranges pf t" 0] by auto
  ultimately show "outcome pf t k (LogBytes addr 16) = Some (Inl Fault)" using assms(1) by (simp add: Let_def)
qed (simp add: probe_log_validation_def)

text \<open>
  A flush of the logger lasts long enough for the sensor to be released inside it: between its first
  and its last clock reading there are two consecutive release ticks of the sensor's schedule, as long
  as the flush does not pass the wrap-around of the tick counter.
\<close>

theorem flush_spans_release:
  assumes "sorted (map unat ts)" and "burn FLUSH_WORK ts = Some ((start, stop), rest)"
    and "unat start + unat FLUSH_WORK < 2 ^ 32" and "t0 \<le> unat start"
  shows "\<exists>i. unat start \<le> t0 + i * unat PERIOD \<and> t0 + Suc i * unat PERIOD \<le> unat stop"
proof -
  have "unat start + 25 \<le> unat stop"
    using burn_length [OF assms(1,2,3)] by (simp add: FLUSH_WORK_def)
  moreover define i where "i = (unat start - t0 + 9) div 10"
  ultimately have "unat start \<le> t0 + i * 10" "t0 + Suc i * 10 \<le> unat stop"
    using assms(4) by (simp_all add: i_def)
  then show ?thesis by (intro exI [of _ i]) (simp add: PERIOD_def)
qed

theorem flush_spans_release_witness:
  "\<exists>i. 100 \<le> 7 + i * 10 \<and> 7 + Suc i * 10 \<le> (126 :: nat)"
  using flush_spans_release [of "[100, 110, 125, 126]" 100 126 "[]" 7]
  by (simp add: burn_def FLUSH_WORK_def PERIOD_def)

end
