(* ===== verification/Pipeline.thy ===== *)
theory Pipeline
  imports Demo_Tasks "HOL-Library.Sublist"
begin

text \<open>
  The pipeline of \<^verbatim>\<open>demo/pipeline.rs\<close> on the kernel: the loops of the three tasks, at the granularity of
  their channel calls, run on the kernel's step relation, with every other task free to do what it
  can. The theorem follows a reading from the sensor through both channels to the logger.
\<close>

section \<open>Calls as the tasks see them\<close>

text \<open>
  The running task issues \<open>call\<close> with the frame \<open>f\<close>. It sees a result when its saved frame is past the
  \<open>ecall\<close>; a call that has to wait leaves the frame at the \<open>ecall\<close>, which is executed again later.
\<close>

definition call_step :: "platform \<Rightarrow> nat \<Rightarrow> task_call \<Rightarrow> trap_frame \<Rightarrow> kernel \<Rightarrow> kernel \<Rightarrow> bool" where
  "call_step pf idle call f k k' \<longleftrightarrow>
     is_ecall f \<and> unat (current_task_idx k) \<noteq> idle \<and> (\<exists>rs. length rs = 32 \<and> regs f = issue call rs) \<and>
     (\<exists>hw frame. trap_handler pf hw (frame_of (current_task_idx k) k) (saved f k) = Inr (frame, k'))"

definition call_result :: "task_call \<Rightarrow> trap_frame \<Rightarrow> kernel \<Rightarrow> kernel \<Rightarrow> (sys_error + usize) option" where
  "call_result call f k k' =
     (case frames k' (frame_of (current_task_idx k) k) of
        None \<Rightarrow> None
      | Some g \<Rightarrow> if mepc g = mepc f then None else Some (result call (regs g ! REG_A0)))"

lemma issue_length: "length rs = 32 \<Longrightarrow> length (issue call rs) = 32"
  by (cases call) (simp_all add: issue_defs)

lemma call_step_kstep: "call_step pf idle call f k k' \<Longrightarrow> kstep pf idle k k'"
  by (auto simp: call_step_def issue_length intro: kstep.ecall)

text \<open>The state in which the dispatcher meets the call.\<close>

lemma call_dispatched:
  assumes "call_step pf idle call f k k'" and "live pf idle k" and "current_task k = Some task"
  obtains k2 frame where "dispatch pf (frame_of (current_task_idx k) k) k2 = Inr (frame, k')"
    and "kernel_inv pf k2" and "channels k2 = channels k" and "mem k2 = mem k"
    and "frames k2 (frame_of (current_task_idx k) k) = Some (f\<lparr>mepc := mepc f + 4\<rparr>)"
    and "frame_of (current_task_idx k) k = frame_of (current_task_idx k2) k2" and "current_task k2 = Some task"
proof -
  let ?frame = "frame_of (current_task_idx k) k"
  obtain hw frame where f: "is_ecall f" "length (regs f) = 32"
    and trap: "trap_handler pf hw ?frame (saved f k) = Inr (frame, k')"
    using assms(1) by (auto simp: call_step_def issue_length)
  have "kernel_inv pf k" using assms(2) by (simp add: live_def)
  from ecall_dispatches [OF this f, of hw] obtain k2 where k2: "dispatch pf ?frame k2 = Inr (frame, k')"
    "kernel_inv pf k2" "sched_same k k2" "channels k2 = channels k" "mem k2 = mem k"
    "frames k2 ?frame = Some (f\<lparr>mepc := mepc f + 4\<rparr>)" using trap by auto
  note st = sched_same_table [OF k2(3)]
  have "current_task_idx k2 = current_task_idx k" using k2(3) by (simp add: sched_same_def)
  with k2 assms(3) show thesis by (intro that [of k2 frame]) (simp_all add: st current_task_def)
qed

lemma answered_result:
  assumes "answered (frame_of (current_task_idx k) k) v k2 k'"
    and "frames k2 (frame_of (current_task_idx k) k) = Some (f\<lparr>mepc := mepc f + 4\<rparr>)" and "length (regs f) = 32"
  shows "call_result call f k k' = Some (result call v)"
  using assms by (auto simp: answered_def call_result_def)

text \<open>What a send does that its endpoint, length and buffer entitle to.\<close>

definition queues_send :: "nat \<Rightarrow> message \<Rightarrow> kernel \<Rightarrow> kernel \<Rightarrow> bool" where
  "queues_send c m k k' \<longleftrightarrow> (\<forall>c' < MAX_CHANNELS. queued c' k' = (if c' = c then queued c' k @ [m] else queued c' k))"

lemma send_call:
  assumes step: "call_step pf idle (SendMsg nb ch ptr len) f k k'" and live: "live pf idle k"
    and task: "current_task k = Some task" and ch: "unat ch < MAX_CHANNELS" "holds_endpoint (td_sends_mask task) ch"
    and buf: "unat len \<le> MSG_MAX" "buffer_readable ptr len (readable_ranges pf task)"
  shows "if ch_is_full (channels k ! unat ch)
         then channels k' = channels k \<and>
           call_result (SendMsg nb ch ptr len) f k k' = (if nb then Some (Inl WouldBlock) else None)
         else (\<exists>m. message_bytes m = Inr (read_bytes (mem k) ptr (unat len)) \<and> queues_send (unat ch) m k k') \<and>
           call_result (SendMsg nb ch ptr len) f k k' = Some (Inr 0)"
proof -
  let ?call = "SendMsg nb ch ptr len" and ?frame = "frame_of (current_task_idx k) k"
    and ?flags = "if nb then FLAG_NONBLOCK else 0"
  obtain hw frame rs where f: "is_ecall f" "unat (current_task_idx k) \<noteq> idle" "length rs = 32" "regs f = issue ?call rs"
    and trap: "trap_handler pf hw ?frame (saved f k) = Inr (frame, k')"
    using step by (auto simp: call_step_def)
  have len32: "length (regs f) = 32" using f by (metis issue_length)
  obtain k2 fr where k2: "dispatch pf ?frame k2 = Inr (fr, k')" "kernel_inv pf k2" "channels k2 = channels k" "mem k2 = mem k"
    "frames k2 ?frame = Some (f\<lparr>mepc := mepc f + 4\<rparr>)" "?frame = frame_of (current_task_idx k2) k2" "current_task k2 = Some task"
    using call_dispatched [OF step live task] by metis
  have d: "dispatch pf ?frame k2 = sys_send pf ?frame ch ptr len ?flags k2"
    using k2(5) f(3,4) by (simp add: dispatch_def frame_at_def issue_defs sys_numbers)
  have chs: "chan_inv (channels k)" "length (channels k) = MAX_CHANNELS"
    using live by (simp_all add: kernel_invs chan_inv_def)
  then have at: "channel_at (channels k2) (unat ch) = Some (channels k2 ! unat ch)"
    using ch(1) k2(3) by (simp add: channel_at_def)
  have nbf: "(?flags AND FLAG_NONBLOCK \<noteq> 0) = nb" by (simp add: FLAG_NONBLOCK_def)
  show ?thesis
  proof (cases "ch_is_full (channels k ! unat ch)")
    case full: True
    show ?thesis
    proof (cases nb)
      case True
      then have "sys_send pf ?frame ch ptr len ?flags k2 = ret ?frame EAGAIN k2"
        using k2(3,7) at ch buf full nbf by (simp add: sys_send_def)
      with ret_returns [OF k2(2,6), of EAGAIN] d k2(1) have "quiet k2 k'" "answered ?frame EAGAIN k2 k'"
        by (auto simp: returns_def)
      then show ?thesis using full True k2(3) answered_result [OF _ k2(5) len32, of EAGAIN k' ?call]
        by (simp add: quiet_def)
    next
      case False
      have "blocks_on pf task k f = Some (Send (ucast ch))"
        using f(3,4) ch buf full False
        by (simp add: blocks_on_def issue_defs sys_numbers Let_def)
      from ecall_blocks [OF live f(1) len32 f(2) task this, of hw] trap
      have "quiet k k'" "frames k' ?frame = Some f" by auto
      then show ?thesis using full False by (simp add: quiet_def call_result_def)
    qed
  next
    case room: False
    from sys_send_room [OF k2(2,6,7) at ch(2) buf, of ?flags] room k2(1,3) d obtain chan' m where
      m: "channels k' = (channels k)[unat ch := chan']" "ch_contents chan' = ch_contents (channels k ! unat ch) @ [m]"
        "message_bytes m = Inr (read_bytes (mem k) ptr (unat len))" "answered ?frame 0 k2 k'"
      using k2(4) by (auto simp: returns_def answered_def)
    then have "queues_send (unat ch) m k k'"
      using chs(2) by (auto simp: queues_send_def queued_def nth_list_update)
    with m answered_result [OF m(4) k2(5) len32, of ?call] room show ?thesis by auto
  qed
qed

text \<open>What a receive does that its endpoint and buffer entitle to.\<close>

definition queues_receive :: "nat \<Rightarrow> message \<Rightarrow> kernel \<Rightarrow> kernel \<Rightarrow> bool" where
  "queues_receive c m k k' \<longleftrightarrow>
     queued c k = m # queued c k' \<and> (\<forall>c' < MAX_CHANNELS. c' \<noteq> c \<longrightarrow> queued c' k' = queued c' k)"

lemma receive_call:
  assumes step: "call_step pf idle (ReceiveMsg False ch ptr cap) f k k'" and live: "live pf idle k"
    and task: "current_task k = Some task" and ch: "unat ch < MAX_CHANNELS" "holds_endpoint (td_receives_mask task) ch"
    and buf: "buffer_readable ptr cap (writable_ranges task)"
  shows "if queued (unat ch) k = []
         then channels k' = channels k \<and> call_result (ReceiveMsg False ch ptr cap) f k k' = None
         else \<exists>m bytes. message_bytes m = Inr bytes \<and> queues_receive (unat ch) m k k' \<and>
           mem k' = write_bytes ptr (take (unat cap) bytes) (mem k) \<and>
           call_result (ReceiveMsg False ch ptr cap) f k k' = Some (decode (of_nat (length bytes)))"
proof -
  let ?call = "ReceiveMsg False ch ptr cap" and ?frame = "frame_of (current_task_idx k) k"
  obtain hw frame rs where f: "is_ecall f" "unat (current_task_idx k) \<noteq> idle" "length rs = 32" "regs f = issue ?call rs"
    and trap: "trap_handler pf hw ?frame (saved f k) = Inr (frame, k')"
    using step by (auto simp: call_step_def)
  have len32: "length (regs f) = 32" using f by (metis issue_length)
  obtain k2 fr where k2: "dispatch pf ?frame k2 = Inr (fr, k')" "kernel_inv pf k2" "channels k2 = channels k" "mem k2 = mem k"
    "frames k2 ?frame = Some (f\<lparr>mepc := mepc f + 4\<rparr>)" "?frame = frame_of (current_task_idx k2) k2" "current_task k2 = Some task"
    using call_dispatched [OF step live task] by metis
  have d: "dispatch pf ?frame k2 = sys_receive pf ?frame ch ptr cap 0 k2"
    using k2(5) f(3,4) by (simp add: dispatch_def frame_at_def issue_defs sys_numbers)
  have chs: "chan_inv (channels k)" "length (channels k) = MAX_CHANNELS"
    using live by (simp_all add: kernel_invs chan_inv_def)
  then have at: "channel_at (channels k2) (unat ch) = Some (channels k2 ! unat ch)"
    "channel_at (channels k) (unat ch) = Some (channels k ! unat ch)"
    using ch(1) k2(3) by (simp_all add: channel_at_def)
  note c = channel_lookup [OF chs(1) at(2)]
  show ?thesis
  proof (cases "queued (unat ch) k")
    case Nil
    then have "ch_is_empty (channels k ! unat ch)"
      using ch_contents_length [of "channels k ! unat ch"] by (simp add: queued_def ch_is_empty_def)
    then have "blocks_on pf task k f = Some (Receive (ucast ch))"
      using f(3,4) ch buf by (simp add: blocks_on_def issue_defs sys_numbers Let_def)
    from ecall_blocks [OF live f(1) len32 f(2) task this, of hw] trap
    have "quiet k k'" "frames k' ?frame = Some f" by auto
    then show ?thesis using Nil by (simp add: quiet_def call_result_def)
  next
    case (Cons m rest)
    then have "msg_wf m" using c(6) by (simp add: queued_def)
    then obtain bytes where b: "message_bytes m = Inr bytes" using message_bytes_ok by blast
    have "ch_contents (channels k2 ! unat ch) = m # rest" using Cons k2(3) by (simp add: queued_def)
    from sys_receive_some [OF k2(2,6,7) at(1) ch(2) buf this b, of 0] k2(1,3,4) d obtain chan' where
      m: "channels k' = (channels k)[unat ch := chan']" "ch_contents chan' = rest"
        "mem k' = write_bytes ptr (take (min (length bytes) (unat cap)) bytes) (mem k)"
        "answered ?frame (of_nat (length bytes)) k2 k'"
      by (auto simp: returns_def answered_def)
    then have "queues_receive (unat ch) m k k'"
      using Cons chs(2) ch(1) by (auto simp: queues_receive_def queued_def)
    moreover have "take (min (length bytes) (unat cap)) bytes = take (unat cap) bytes"
      by (metis take_all_iff min_def nat_le_linear take_take)
    ultimately show ?thesis using Cons b m answered_result [OF m(4) k2(5) len32, of ?call] by auto
  qed
qed

section \<open>Steps that leave the channels alone\<close>

text \<open>A store, a timer interrupt, or a system call other than a send or a receive.\<close>

inductive plain_step :: "platform \<Rightarrow> nat \<Rightarrow> kernel \<Rightarrow> kernel \<Rightarrow> bool" for pf idle where
  store: "unat (current_task_idx k) \<noteq> idle \<Longrightarrow>
    (\<And>a. m a \<noteq> mem k a \<Longrightarrow> may_store k a \<and> \<not> kernel_data pf a) \<Longrightarrow> plain_step pf idle k (k\<lparr>mem := m\<rparr>)"
| ecall: "is_ecall f \<Longrightarrow> length (regs f) = 32 \<Longrightarrow> unat (current_task_idx k) \<noteq> idle \<Longrightarrow>
    regs f ! REG_A7 \<noteq> SYS_SEND \<Longrightarrow> regs f ! REG_A7 \<noteq> SYS_RECEIVE \<Longrightarrow>
    trap_handler pf hw (frame_of (current_task_idx k) k) (saved f k) = Inr (frame, k') \<Longrightarrow>
    plain_step pf idle k k'"
| timer: "is_timer f \<Longrightarrow> length (regs f) = 32 \<Longrightarrow>
    trap_handler pf hw (frame_of (current_task_idx k) k) (saved f k) = Inr (frame, k') \<Longrightarrow>
    plain_step pf idle k k'"

lemma plain_step_kstep: "plain_step pf idle k k' \<Longrightarrow> kstep pf idle k k'"
  by (induction rule: plain_step.induct) (blast intro: kstep.intros)+

lemma dispatch_quiet:
  assumes k: "kernel_inv pf k" and frame: "frame = frame_of (current_task_idx k) k"
    and idle: "available n k" "n \<noteq> unat (current_task_idx k)"
    and f: "frames k frame = Some f" "length (regs f) = 32" "regs f ! REG_A7 \<noteq> SYS_SEND" "regs f ! REG_A7 \<noteq> SYS_RECEIVE"
  shows "\<exists>k'. dispatch pf frame k = Inr (frame_of (current_task_idx k') k', k') \<and> quiet k k'"
proof -
  note rets = ret_returns [OF k frame] yield_returns [OF k frame] sleep_returns [OF k frame idle] log_returns [OF k frame]
  show ?thesis
    using f rets(1) [of ENOSYS] rets(1) [of "ticks (clint k)"] rets(2) [of 0] rets(3) [of 0 "regs f ! REG_A0"]
      rets(4) [of "regs f ! REG_A0" "min (regs f ! REG_A1) LOG_MAX_LEN"]
    by (simp add: dispatch_def frame_at_def returns_def) blast
qed

lemma plain_step_channels:
  assumes "plain_step pf idle k k'" and "live pf idle k"
  shows "channels k' = channels k"
  using assms(1)
proof (cases rule: plain_step.cases)
  case (ecall f hw frame)
  let ?frame = "frame_of (current_task_idx k) k"
  have k: "kernel_inv pf k" "available idle k" using assms(2) by (simp_all add: live_def)
  obtain k2 where k2: "trap_handler pf hw ?frame (saved f k) = dispatch pf ?frame k2"
    "kernel_inv pf k2" "sched_same k k2" "channels k2 = channels k" "frames k2 ?frame = Some (f\<lparr>mepc := mepc f + 4\<rparr>)"
    using ecall_dispatches [OF k(1) ecall(1,2), of hw] by blast
  note st = sched_same_table [OF k2(3)]
  have idx: "current_task_idx k2 = current_task_idx k" "task_count k2 = task_count k"
    using k2(3) by (simp_all add: sched_same_def)
  have "available idle k2" using k(2) by (simp add: available_def st idx)
  from dispatch_quiet [OF k2(2) _ this, of ?frame] k2(1,4,5) ecall show ?thesis
    by (auto simp: st idx quiet_def)
next
  case (timer f hw frame)
  with timer_inr_ok [of pf k f hw frame k'] assms(2) show ?thesis by (simp add: live_def timed_def)
qed simp

section \<open>The pipeline\<close>

text \<open>
  The kernel with the local variables of the three loops: the sensor's counters, the filter's window and
  the reading it has computed but not yet passed on. The last three fields record what the sensor offered,
  what entered channel 0 and what the logger took out of channel 1.
\<close>

record pipeline =
  pl_kernel :: kernel
  pl_sensor :: sensor_state
  pl_filter :: filter_state
  pl_pending :: "reading option"
  pl_offered :: "reading list"
  pl_accepted :: "reading list"
  pl_logged :: "reading list"

definition pipeline_start :: "u32 \<Rightarrow> kernel \<Rightarrow> pipeline" where
  "pipeline_start t0 k =
     \<lparr>pl_kernel = k, pl_sensor = sensor_init t0, pl_filter = filter_init, pl_pending = None,
      pl_offered = [], pl_accepted = [], pl_logged = []\<rparr>"

text \<open>
  What the loops do with the result of a channel call; \<open>None\<close> while the call waits. The sensor takes
  \<open>WouldBlock\<close> for a drop, the filter and the logger skip a failed \<open>receive\<close>, and the filter ignores the
  result of its \<open>send\<close>.
\<close>

definition sensor_sent :: "u32 \<Rightarrow> sys_error + usize \<Rightarrow> u32 \<Rightarrow> u32 \<Rightarrow> pipeline \<Rightarrow> pipeline" where
  "sensor_sent start res after t p =
     (let (r, nap, st) = sensor_step start res after t (pl_sensor p) in
      p\<lparr>pl_sensor := st, pl_offered := pl_offered p @ [r],
        pl_accepted := (if res = Inr 0 then pl_accepted p @ [r] else pl_accepted p)\<rparr>)"

definition filter_received :: "(sys_error + usize) option \<Rightarrow> u8 list \<Rightarrow> pipeline \<Rightarrow> pipeline" where
  "filter_received res buf p =
     (case res of
        Some (Inr n) \<Rightarrow>
          let (r, st) = filter_step (reading_decode buf) (pl_filter p) in p\<lparr>pl_filter := st, pl_pending := Some r\<rparr>
      | _ \<Rightarrow> p)"

definition filter_sent :: "(sys_error + usize) option \<Rightarrow> pipeline \<Rightarrow> pipeline" where
  "filter_sent res p = (case res of Some _ \<Rightarrow> p\<lparr>pl_pending := None\<rparr> | None \<Rightarrow> p)"

definition logger_received :: "(sys_error + usize) option \<Rightarrow> u8 list \<Rightarrow> pipeline \<Rightarrow> pipeline" where
  "logger_received res buf p =
     (case res of Some (Inr n) \<Rightarrow> p\<lparr>pl_logged := pl_logged p @ [reading_decode buf]\<rparr> | _ \<Rightarrow> p)"

text \<open>The message buffer is a local variable of the task, so it lies in memory of its own.\<close>

definition own_buffer :: "usize \<Rightarrow> kernel \<Rightarrow> bool" where
  "own_buffer ptr k \<longleftrightarrow>
     (\<exists>task. current_task k = Some task \<and> buffer_readable ptr 16 (writable_ranges task))"

text \<open>
  A step of the system: tasks outside the pipeline do anything the kernel lets them do; a task of the
  pipeline computes, makes calls that are no channel calls, is interrupted, or makes the channel call its
  loop is at.
\<close>

inductive pipeline_step :: "platform \<Rightarrow> nat \<Rightarrow> pipeline \<Rightarrow> pipeline \<Rightarrow> bool" for pf idle where
  other: "kstep pf idle (pl_kernel p) k' \<Longrightarrow> unat (current_task_idx (pl_kernel p)) \<notin> {0, 1, 2} \<Longrightarrow>
    pipeline_step pf idle p (p\<lparr>pl_kernel := k'\<rparr>)"
| plain: "plain_step pf idle (pl_kernel p) k' \<Longrightarrow> pipeline_step pf idle p (p\<lparr>pl_kernel := k'\<rparr>)"
| sensor: "unat (current_task_idx (pl_kernel p)) = 0 \<Longrightarrow> own_buffer ptr (pl_kernel p) \<Longrightarrow>
    call_step pf idle (SendMsg True 0 ptr 16) f (pl_kernel p) k' \<Longrightarrow>
    read_bytes (mem (pl_kernel p)) ptr 16 = reading_encode (fst (sensor_step start res after t (pl_sensor p))) \<Longrightarrow>
    call_result (SendMsg True 0 ptr 16) f (pl_kernel p) k' = Some res \<Longrightarrow>
    pipeline_step pf idle p ((sensor_sent start res after t p)\<lparr>pl_kernel := k'\<rparr>)"
| filter_receive: "unat (current_task_idx (pl_kernel p)) = 1 \<Longrightarrow> own_buffer ptr (pl_kernel p) \<Longrightarrow> pl_pending p = None \<Longrightarrow>
    call_step pf idle (ReceiveMsg False 0 ptr 16) f (pl_kernel p) k' \<Longrightarrow>
    res = call_result (ReceiveMsg False 0 ptr 16) f (pl_kernel p) k' \<Longrightarrow>
    pipeline_step pf idle p ((filter_received res (read_bytes (mem k') ptr 16) p)\<lparr>pl_kernel := k'\<rparr>)"
| filter_send: "unat (current_task_idx (pl_kernel p)) = 1 \<Longrightarrow> own_buffer ptr (pl_kernel p) \<Longrightarrow> pl_pending p = Some r \<Longrightarrow>
    call_step pf idle (SendMsg False 1 ptr 16) f (pl_kernel p) k' \<Longrightarrow>
    read_bytes (mem (pl_kernel p)) ptr 16 = reading_encode r \<Longrightarrow>
    res = call_result (SendMsg False 1 ptr 16) f (pl_kernel p) k' \<Longrightarrow>
    pipeline_step pf idle p ((filter_sent res p)\<lparr>pl_kernel := k'\<rparr>)"
| logger: "unat (current_task_idx (pl_kernel p)) = 2 \<Longrightarrow> own_buffer ptr (pl_kernel p) \<Longrightarrow>
    call_step pf idle (ReceiveMsg False 1 ptr 16) f (pl_kernel p) k' \<Longrightarrow>
    res = call_result (ReceiveMsg False 1 ptr 16) f (pl_kernel p) k' \<Longrightarrow>
    pipeline_step pf idle p ((logger_received res (read_bytes (mem k') ptr 16) p)\<lparr>pl_kernel := k'\<rparr>)"

lemma pipeline_step_kstep: "pipeline_step pf idle p p' \<Longrightarrow> kstep pf idle (pl_kernel p) (pl_kernel p')"
  by (induction rule: pipeline_step.induct)
    (auto simp: sensor_sent_def filter_received_def filter_sent_def logger_received_def Let_def
      intro: plain_step_kstep call_step_kstep split: prod.splits option.splits sum.splits)

section \<open>What the channels carry\<close>

definition pipeline_owners :: "task_descriptor option list \<Rightarrow> bool" where
  "pipeline_owners st \<longleftrightarrow> sends_on st 0 0 \<and> receives_on st 1 0 \<and> sends_on st 1 1 \<and> receives_on st 2 1"

definition carries :: "nat \<Rightarrow> kernel \<Rightarrow> reading list \<Rightarrow> bool" where
  "carries c k rs \<longleftrightarrow> map message_bytes (queued c k) = map (\<lambda>r. Inr (reading_encode r)) rs"

lemma carries_send:
  assumes "queues_send c m k k'" and "message_bytes m = Inr (reading_encode r)" and "c' < MAX_CHANNELS" and "carries c' k rs"
  shows "carries c' k' (if c' = c then rs @ [r] else rs)"
  using assms by (auto simp: carries_def queues_send_def)

lemma reading_encode_inj: "reading_encode r = reading_encode r' \<Longrightarrow> r = r'"
  by (metis reading_round_trip)

lemma carries_receive:
  assumes "queues_receive c m k k'" and "c < MAX_CHANNELS" and "carries c k rs"
  obtains r rs' where "rs = r # rs'" and "message_bytes m = Inr (reading_encode r)" and "carries c k' rs'"
    and "\<forall>c' < MAX_CHANNELS. c' \<noteq> c \<longrightarrow> queued c' k' = queued c' k"
  using assms by (cases rs) (auto simp: carries_def queues_receive_def)

lemma read_write_bytes:
  assumes "length bs \<le> 2 ^ 32"
  shows "read_bytes (write_bytes ptr bs m) ptr (length bs) = bs"
proof -
  show ?thesis using assms
  proof (induction bs arbitrary: ptr m)
    case (Cons b bs)
    have "ptr \<noteq> (ptr + 1) + of_nat i" if "i < length bs" for i
    proof
      assume "ptr = (ptr + 1) + of_nat i"
      then have "(of_nat (Suc i) :: usize) = 0" by (simp add: algebra_simps)
      then have "2 ^ 32 dvd Suc i" by (simp only: word_of_nat_eq_0_iff) simp
      with that Cons.prems show False by (auto dest: dvd_imp_le)
    qed
    then have "write_bytes (ptr + 1) bs (m(ptr := b)) ptr = b" using write_bytes_outside [of bs ptr "ptr + 1"] by simp
    moreover have "read_bytes m' q (Suc n) = m' q # read_bytes m' (q + 1) n" for m' q n
      unfolding read_bytes_def map_upt_Suc by (simp add: algebra_simps)
    ultimately show ?case using Cons by simp
  qed (simp add: read_bytes_def)
qed

text \<open>The kernel's part: a step of a task that holds neither end of a channel leaves it as it is.\<close>

lemma stranger_leaves_channel:
  assumes step: "kstep pf idle k k'" and live: "live pf idle k" and c: "c < MAX_CHANNELS"
    and own: "sends_on (statics k) i c" "receives_on (statics k) j c" "i < MAX_TASKS" "j < MAX_TASKS"
    and cur: "unat (current_task_idx k) \<noteq> i" "unat (current_task_idx k) \<noteq> j"
  shows "queued c k' = queued c k"
proof -
  have inv: "sched_inv k" "single_owner (statics k)" "length (channels k) = MAX_CHANNELS"
    using live by (auto simp: kernel_invs chan_inv_def)
  obtain t where t: "current_task k = Some t" using live_task [OF live] by blast
  have idx: "unat (current_task_idx k) < MAX_TASKS" using current_slot [OF inv(1)] by blast
  have "\<not> mask_has (td_sends_mask t) c" "\<not> mask_has (td_receives_mask t) c"
    using inv(2) own cur idx current_owner [OF inv(1) t, of c] by (auto simp: single_owner_def)
  with kstep_channels [OF step live t] inv(3) c show ?thesis
    by (auto simp: channel_moves_def queued_def nth_list_update split: if_splits)
qed

lemma task_endpoints:
  assumes "live pf idle k" and "current_task k = Some task"
  shows "sends_on (statics k) (unat (current_task_idx k)) (unat ch) \<Longrightarrow> unat ch < MAX_CHANNELS \<Longrightarrow>
           holds_endpoint (td_sends_mask task) ch"
    and "receives_on (statics k) (unat (current_task_idx k)) (unat ch) \<Longrightarrow> unat ch < MAX_CHANNELS \<Longrightarrow>
           holds_endpoint (td_receives_mask task) ch"
  using assms current_owner [of k task] by (auto simp: holds_endpoint_def kernel_invs)

lemma writable_readable: "buffer_readable ptr n (writable_ranges task) \<Longrightarrow> buffer_readable ptr n (readable_ranges pf task)"
  by (auto simp: buffer_readable_def writable_ranges_def readable_ranges_def split: if_splits option.splits)

text \<open>The channel calls of the loops.\<close>

lemma pipeline_send:
  assumes step: "call_step pf idle (SendMsg nb ch ptr 16) f k k'" and live: "live pf idle k"
    and own: "own_buffer ptr k" "sends_on (statics k) (unat (current_task_idx k)) (unat ch)" "unat ch < MAX_CHANNELS"
    and buf: "read_bytes (mem k) ptr 16 = reading_encode r"
  obtains "channels k' = channels k"
      "call_result (SendMsg nb ch ptr 16) f k k' = (if nb then Some (Inl WouldBlock) else None)"
  | m where "message_bytes m = Inr (reading_encode r)" "queues_send (unat ch) m k k'"
      "call_result (SendMsg nb ch ptr 16) f k k' = Some (Inr 0)"
proof -
  obtain task where task: "current_task k = Some task" "buffer_readable ptr 16 (writable_ranges task)"
    using own(1) by (auto simp: own_buffer_def)
  from send_call [OF step live task(1) own(3) task_endpoints(1) [OF live task(1) own(2,3)] _ writable_readable [OF task(2)]] buf that
  show thesis by (auto split: if_splits)
qed

lemma pipeline_receive:
  assumes step: "call_step pf idle (ReceiveMsg False ch ptr 16) f k k'" and live: "live pf idle k"
    and own: "own_buffer ptr k" "receives_on (statics k) (unat (current_task_idx k)) (unat ch)" "unat ch < MAX_CHANNELS"
    and car: "carries (unat ch) k rs"
  obtains "channels k' = channels k" "call_result (ReceiveMsg False ch ptr 16) f k k' = None"
  | r rs' where "rs = r # rs'" "carries (unat ch) k' rs'" "read_bytes (mem k') ptr 16 = reading_encode r"
      "\<forall>c' < MAX_CHANNELS. c' \<noteq> unat ch \<longrightarrow> queued c' k' = queued c' k"
      "call_result (ReceiveMsg False ch ptr 16) f k k' = Some (Inr 16)"
proof -
  obtain task where task: "current_task k = Some task" "buffer_readable ptr 16 (writable_ranges task)"
    using own(1) by (auto simp: own_buffer_def)
  note call = receive_call [OF step live task(1) own(3) task_endpoints(2) [OF live task(1) own(2,3)] task(2)]
  show thesis
  proof (cases "queued (unat ch) k")
    case Nil
    then show ?thesis using call that(1) by simp
  next
    case (Cons m' rest)
    then obtain m bytes where m: "message_bytes m = Inr bytes" "queues_receive (unat ch) m k k'"
      "mem k' = write_bytes ptr (take 16 bytes) (mem k)"
      "call_result (ReceiveMsg False ch ptr 16) f k k' = Some (decode (of_nat (length bytes)))"
      using call by auto
    obtain r rs' where r: "rs = r # rs'" "message_bytes m = Inr (reading_encode r)" "carries (unat ch) k' rs'"
      "\<forall>c' < MAX_CHANNELS. c' \<noteq> unat ch \<longrightarrow> queued c' k' = queued c' k"
      by (rule carries_receive [OF m(2) own(3) car])
    have b: "bytes = reading_encode r" "length bytes = 16" using r(2) m(1) reading_round_trip [of r] by auto
    then have "read_bytes (mem k') ptr 16 = reading_encode r" using read_write_bytes [of bytes ptr "mem k"] m(3) by simp
    moreover have "decode (of_nat (length bytes)) = Inr 16" using b(2) by (simp add: decode_def error_codes)
    ultimately show ?thesis using that(2) r m(4) by simp
  qed
qed

section \<open>Readings on their way\<close>

definition filter_after :: "reading list \<Rightarrow> filter_state \<Rightarrow> filter_state" where
  "filter_after rs st = fold (\<lambda>r s. snd (filter_step r s)) rs st"

lemma filter_run_append: "filter_run (rs @ rs') st = filter_run rs st @ filter_run rs' (filter_after rs st)"
  by (induction rs arbitrary: st) (simp_all add: filter_after_def Let_def case_prod_beta)

lemma length_filter_run [simp]: "length (filter_run rs st) = length rs"
  by (induction rs arbitrary: st) (simp_all add: Let_def case_prod_beta)

definition waiting :: "reading option \<Rightarrow> reading list" where
  "waiting pending = (case pending of None \<Rightarrow> [] | Some r \<Rightarrow> [r])"

text \<open>
  Every accepted reading is in channel 0 or has been filtered; every filtered one has been logged, is in
  channel 1, or is about to be sent there; all in order.
\<close>

definition flow_of :: "pipeline \<Rightarrow> reading list \<Rightarrow> reading list \<Rightarrow> reading list \<Rightarrow> bool" where
  "flow_of p got q0 q1 \<longleftrightarrow>
     carries 0 (pl_kernel p) q0 \<and> carries 1 (pl_kernel p) q1 \<and> pl_accepted p = got @ q0 \<and>
     pl_filter p = filter_after got filter_init \<and>
     filter_run got filter_init = pl_logged p @ q1 @ waiting (pl_pending p)"

definition flow :: "pipeline \<Rightarrow> bool" where
  "flow p \<longleftrightarrow> (\<exists>got q0 q1. flow_of p got q0 q1)"

definition journal :: "u32 \<Rightarrow> pipeline \<Rightarrow> bool" where
  "journal t0 p \<longleftrightarrow>
     (\<forall>i < length (pl_offered p). rd_seq (pl_offered p ! i) = of_nat i \<and>
        rd_release (pl_offered p ! i) = t0 + of_nat i * PERIOD) \<and>
     sn_seq (pl_sensor p) = of_nat (length (pl_offered p)) \<and>
     sn_release (pl_sensor p) = t0 + of_nat (length (pl_offered p)) * PERIOD \<and>
     subseq (pl_accepted p) (pl_offered p) \<and>
     unat (sn_dropped (pl_sensor p)) = min 65535 (length (pl_offered p) - length (pl_accepted p))"

lemma flowI: "flow_of p got q0 q1 \<Longrightarrow> flow p"
  unfolding flow_def by blast

lemma flowE:
  assumes "flow p"
  obtains got q0 q1 where "flow_of p got q0 q1"
  using assms by (auto simp: flow_def)

lemma same_queues_flow:
  assumes "flow p" and "queued 0 k' = queued 0 (pl_kernel p)" and "queued 1 k' = queued 1 (pl_kernel p)"
  shows "flow (p\<lparr>pl_kernel := k'\<rparr>)"
  using assms by (simp add: flow_def flow_of_def carries_def)

lemma same_channels_flow: "flow p \<Longrightarrow> channels k' = channels (pl_kernel p) \<Longrightarrow> flow (p\<lparr>pl_kernel := k'\<rparr>)"
  by (rule same_queues_flow) (simp_all add: queued_def)

text \<open>One lemma per channel call of the loops.\<close>

lemma sensor_flow:
  assumes call: "call_step pf idle (SendMsg True 0 ptr 16) f (pl_kernel p) k'" and live: "live pf idle (pl_kernel p)"
    and own: "own_buffer ptr (pl_kernel p)" "sends_on (statics (pl_kernel p)) (unat (current_task_idx (pl_kernel p))) 0"
    and buf: "read_bytes (mem (pl_kernel p)) ptr 16 = reading_encode (fst (sensor_step start res after t (pl_sensor p)))"
    and res: "call_result (SendMsg True 0 ptr 16) f (pl_kernel p) k' = Some res" and flow: "flow p"
  shows "flow ((sensor_sent start res after t p)\<lparr>pl_kernel := k'\<rparr>)"
proof (cases rule: pipeline_send [OF call live own(1) _ _ buf])
  case 3
  then have "flow (p\<lparr>pl_kernel := k'\<rparr>)" using same_channels_flow [OF flow] by simp
  then show ?thesis using 3 res by (simp add: sensor_sent_def flow_def flow_of_def Let_def case_prod_beta)
next
  case (4 m)
  let ?r = "fst (sensor_step start res after t (pl_sensor p))"
  from flow obtain got q0 q1 where q: "flow_of p got q0 q1" by (rule flowE)
  then have "carries 0 k' (q0 @ [?r])" "carries 1 k' q1"
    using carries_send [OF 4(2,1), of 0 q0] carries_send [OF 4(2,1), of 1 q1] by (auto simp: flow_of_def)
  moreover have "res = Inr 0" using 4(3) res by simp
  ultimately show ?thesis using q
    by (intro flowI [of _ got "q0 @ [?r]" q1]) (simp add: flow_of_def sensor_sent_def Let_def case_prod_beta)
qed (use own(2) in simp_all)

lemma filter_receive_flow:
  assumes call: "call_step pf idle (ReceiveMsg False 0 ptr 16) f (pl_kernel p) k'" and live: "live pf idle (pl_kernel p)"
    and own: "own_buffer ptr (pl_kernel p)" "receives_on (statics (pl_kernel p)) (unat (current_task_idx (pl_kernel p))) 0"
    and idle: "pl_pending p = None" and flow: "flow p"
  shows "flow ((filter_received (call_result (ReceiveMsg False 0 ptr 16) f (pl_kernel p) k')
           (read_bytes (mem k') ptr 16) p)\<lparr>pl_kernel := k'\<rparr>)"
proof -
  from flow obtain got q0 q1 where q: "flow_of p got q0 q1" by (rule flowE)
  then have car: "carries (unat (0 :: usize)) (pl_kernel p) q0" by (simp add: flow_of_def)
  show ?thesis
  proof (cases rule: pipeline_receive [OF call live own(1) _ _ car])
    case 3
    then show ?thesis using same_channels_flow [OF flow] by (simp add: filter_received_def)
  next
    case (4 r rs')
    have "carries 1 k' q1" using q 4(4) by (simp add: flow_of_def carries_def)
    then show ?thesis using 4 idle q reading_round_trip [of r]
      by (intro flowI [of _ "got @ [r]" rs' q1])
        (simp add: flow_of_def filter_received_def waiting_def filter_run_append filter_after_def Let_def case_prod_beta)
  qed (use own(2) in simp_all)
qed

lemma filter_send_flow:
  assumes call: "call_step pf idle (SendMsg False 1 ptr 16) f (pl_kernel p) k'" and live: "live pf idle (pl_kernel p)"
    and own: "own_buffer ptr (pl_kernel p)" "sends_on (statics (pl_kernel p)) (unat (current_task_idx (pl_kernel p))) 1"
    and r: "pl_pending p = Some r" "read_bytes (mem (pl_kernel p)) ptr 16 = reading_encode r" and flow: "flow p"
  shows "flow ((filter_sent (call_result (SendMsg False 1 ptr 16) f (pl_kernel p) k') p)\<lparr>pl_kernel := k'\<rparr>)"
proof (cases rule: pipeline_send [OF call live own(1) _ _ r(2)])
  case 3
  then show ?thesis using same_channels_flow [OF flow] by (simp add: filter_sent_def)
next
  case (4 m)
  from flow obtain got q0 q1 where q: "flow_of p got q0 q1" by (rule flowE)
  then have "carries 0 k' q0" "carries 1 k' (q1 @ [r])"
    using carries_send [OF 4(2,1), of 0 q0] carries_send [OF 4(2,1), of 1 q1] by (auto simp: flow_of_def)
  then show ?thesis using 4 r(1) q
    by (intro flowI [of _ got q0 "q1 @ [r]"]) (simp add: flow_of_def filter_sent_def waiting_def)
qed (use own(2) in simp_all)

lemma logger_flow:
  assumes call: "call_step pf idle (ReceiveMsg False 1 ptr 16) f (pl_kernel p) k'" and live: "live pf idle (pl_kernel p)"
    and own: "own_buffer ptr (pl_kernel p)" "receives_on (statics (pl_kernel p)) (unat (current_task_idx (pl_kernel p))) 1"
    and flow: "flow p"
  shows "flow ((logger_received (call_result (ReceiveMsg False 1 ptr 16) f (pl_kernel p) k')
           (read_bytes (mem k') ptr 16) p)\<lparr>pl_kernel := k'\<rparr>)"
proof -
  from flow obtain got q0 q1 where q: "flow_of p got q0 q1" by (rule flowE)
  then have car: "carries (unat (1 :: usize)) (pl_kernel p) q1" by (simp add: flow_of_def)
  show ?thesis
  proof (cases rule: pipeline_receive [OF call live own(1) _ _ car])
    case 3
    then show ?thesis using same_channels_flow [OF flow] by (simp add: logger_received_def)
  next
    case (4 r rs')
    have "carries 0 k' q0" using q 4(4) by (simp add: flow_of_def carries_def)
    then show ?thesis using 4 q reading_round_trip [of r]
      by (intro flowI [of _ got q0 rs']) (simp add: flow_of_def logger_received_def)
  qed (use own(2) in simp_all)
qed

lemma pipeline_step_flow:
  assumes step: "pipeline_step pf idle p p'" and live: "live pf idle (pl_kernel p)"
    and own: "pipeline_owners (statics (pl_kernel p))" and flow: "flow p"
  shows "flow p'"
proof -
  let ?k = "pl_kernel p"
  have o: "sends_on (statics ?k) 0 0" "receives_on (statics ?k) 1 0" "sends_on (statics ?k) 1 1" "receives_on (statics ?k) 2 1"
    using own by (simp_all add: pipeline_owners_def)
  from step show ?thesis
  proof (cases rule: pipeline_step.cases)
    case (other k')
    then have "queued 0 k' = queued 0 ?k" "queued 1 k' = queued 1 ?k"
      using stranger_leaves_channel [OF other(2) live _ o(1,2)] stranger_leaves_channel [OF other(2) live _ o(3,4)] by auto
    then show ?thesis using other(1) same_queues_flow [OF flow] by simp
  next
    case (plain k')
    then show ?thesis using plain_step_channels [OF plain(2) live] same_channels_flow [OF flow] by simp
  next
    case (sensor ptr f k' start res after t)
    then show ?thesis using o sensor_flow [OF _ live _ _ _ _ flow] by simp
  next
    case (filter_receive ptr f k' res)
    then show ?thesis using o filter_receive_flow [OF _ live _ _ _ flow] by simp
  next
    case (filter_send ptr r f k' res)
    then show ?thesis using o filter_send_flow [OF _ live _ _ _ _ flow] by simp
  next
    case (logger ptr f k' res)
    then show ?thesis using o logger_flow [OF _ live _ _ flow] by simp
  qed
qed

text \<open>The sensor's own bookkeeping.\<close>

lemma saturating_count: "unat d = min 65535 n \<Longrightarrow> unat (saturating_add_u16 d 1) = min 65535 (Suc n)"
proof (cases "unat d < 65535")
  case True
  assume "unat d = min 65535 n"
  with True have "n < 65535" "unat d = n" by auto
  then show ?thesis by (simp add: saturating_add_u16_def unat_word_ariths)
next
  case False
  assume "unat d = min 65535 n"
  with False show ?thesis by (simp add: saturating_add_u16_def unsigned_minus_1_eq_mask mask_eq_exp_minus_1)
qed

lemma sensor_sent_journal:
  assumes "journal t0 p" and "res = Inr 0 \<or> res = Inl WouldBlock"
  shows "journal t0 (sensor_sent start res after t p)"
proof -
  obtain r nap st where step: "sensor_step start res after t (pl_sensor p) = (r, nap, st)" by (metis prod_cases3)
  note nx = sensor_step_next(1-4) [OF step]
  have len: "length (pl_accepted p) \<le> length (pl_offered p)" using assms(1) by (auto simp: journal_def dest: list_emb_length)
  have "sn_dropped st = (if res = Inl WouldBlock then saturating_add_u16 (sn_dropped (pl_sensor p)) 1 else sn_dropped (pl_sensor p))"
    using step by (auto simp: sensor_step_def Let_def split: prod.splits)
  moreover have "Suc (length (pl_offered p)) - length (pl_accepted p) = Suc (length (pl_offered p) - length (pl_accepted p))"
    using len by simp
  ultimately have "unat (sn_dropped st) =
      min 65535 (length (pl_offered p @ [r]) - length (if res = Inr 0 then pl_accepted p @ [r] else pl_accepted p))"
    using assms saturating_count [of "sn_dropped (pl_sensor p)"] by (auto simp: journal_def)
  moreover have "subseq (if res = Inr 0 then pl_accepted p @ [r] else pl_accepted p) (pl_offered p @ [r])"
    using assms(1) by (auto simp: journal_def)
  ultimately show ?thesis
    using assms(1) nx step by (auto simp: journal_def sensor_sent_def nth_append less_Suc_eq algebra_simps)
qed

lemma journal_unchanged [simp]:
  "journal t0 (p\<lparr>pl_kernel := k'\<rparr>) = journal t0 p" "journal t0 (filter_received res buf p) = journal t0 p"
  "journal t0 (filter_sent res p) = journal t0 p" "journal t0 (logger_received res buf p) = journal t0 p"
  by (simp_all add: journal_def filter_received_def filter_sent_def logger_received_def Let_def case_prod_beta
      split: option.split sum.split)

lemma pipeline_step_journal:
  assumes step: "pipeline_step pf idle p p'" and live: "live pf idle (pl_kernel p)"
    and own: "pipeline_owners (statics (pl_kernel p))" and j: "journal t0 p"
  shows "journal t0 p'"
  using step
proof (cases rule: pipeline_step.cases)
  case (sensor ptr f k' start res after t)
  have "sends_on (statics (pl_kernel p)) (unat (current_task_idx (pl_kernel p))) (unat (0 :: usize))" "unat (0 :: usize) < MAX_CHANNELS"
    using own sensor(2) by (simp_all add: pipeline_owners_def)
  from pipeline_send [OF sensor(4) live sensor(3) this sensor(5)] sensor(6)
  have "res = Inr 0 \<or> res = Inl WouldBlock" by (metis option.inject)
  from sensor_sent_journal [OF j this] sensor(1) show ?thesis by simp
qed (use j in simp_all)

section \<open>From the sensor to the logger\<close>

definition pipeline_inv :: "platform \<Rightarrow> nat \<Rightarrow> u32 \<Rightarrow> pipeline \<Rightarrow> bool" where
  "pipeline_inv pf idle t0 p \<longleftrightarrow>
     live pf idle (pl_kernel p) \<and> pipeline_owners (statics (pl_kernel p)) \<and> flow p \<and> journal t0 p"

lemma pipeline_run_inv:
  "(pipeline_step pf idle)\<^sup>*\<^sup>* p p' \<Longrightarrow> pipeline_inv pf idle t0 p \<Longrightarrow> pipeline_inv pf idle t0 p'"
proof (induction rule: rtranclp_induct)
  case (step p1 p2)
  then have inv: "pipeline_inv pf idle t0 p1" by simp
  have "live pf idle (pl_kernel p2) \<and> statics (pl_kernel p2) = statics (pl_kernel p1)"
    using reachable_live [OF r_into_rtranclp [of "kstep pf idle", OF pipeline_step_kstep [OF step.hyps(2)]]] inv
    by (simp add: pipeline_inv_def)
  with inv pipeline_step_flow [OF step.hyps(2)] pipeline_step_journal [OF step.hyps(2)] show ?case
    by (simp add: pipeline_inv_def)
qed simp

lemma pipeline_boots:
  assumes "clean_reset pf r" and "kernel_main pf env (initial_kernel m r t fs) = Inr (frame, k)" and "\<not> demo_hml env"
  shows "pipeline_inv pf (length (boot_tasks env) - 1) t0 (pipeline_start t0 k)"
proof -
  have bd: "boot_done pf env m frame k"
    using kernel_main_boots [OF assms(1), of env m t fs] assms(2) by (auto split: if_splits)
  have "statics k ! i = Some (td_static ((boot_tasks env ! i)\<lparr>td_max_inherited_priority := boot_table env ! i\<rparr>))"
    if "i < 3" for i
    using bd that boot_tasks_length [of env] by (auto simp: boot_done_def)
  from this [of 0] this [of 1] this [of 2] have "pipeline_owners (statics k)"
    using assms(3)
    by (simp add: pipeline_owners_def sends_on_def receives_on_def td_static_sel task_set_defs mask_has_def Let_def)
  moreover have "queued c k = []" if "c < MAX_CHANNELS" for c
    using bd that by (simp add: boot_done_def channel_table_def queued_def ch_contents_def channel_new_def)
  ultimately show ?thesis
    using boot_done_live(1) [OF bd]
    by (simp add: pipeline_inv_def pipeline_start_def flow_def flow_of_def carries_def journal_def filter_after_def waiting_def sensor_init_def)
qed

lemma carried_at_most:
  assumes "live pf idle k" and "c < MAX_CHANNELS" and "carries c k rs"
  shows "length rs \<le> CHANNEL_CAPACITY"
proof -
  have "chan_inv (channels k)" using assms(1) by (simp add: kernel_invs)
  then have "channels k ! c \<in> set (channels k)" "ch_wf (channels k ! c)" "ch_capacity (channels k ! c) = CHANNEL_CAPACITY"
    using assms(2) by (auto simp: chan_inv_def)
  then have "length (queued c k) \<le> CHANNEL_CAPACITY" by (simp add: queued_def ch_contents_length ch_wf_def)
  then show ?thesis using arg_cong [OF assms(3) [unfolded carries_def], of length] by simp
qed

lemma pipeline_inv_delivers:
  assumes "pipeline_inv pf idle t0 p"
  shows "\<exists>rest. filter_run (pl_accepted p) filter_init = pl_logged p @ rest \<and> length rest \<le> 2 * CHANNEL_CAPACITY + 1"
proof -
  obtain got q0 q1 where q: "carries 0 (pl_kernel p) q0" "carries 1 (pl_kernel p) q1" "pl_accepted p = got @ q0"
    "filter_run got filter_init = pl_logged p @ q1 @ waiting (pl_pending p)" "live pf idle (pl_kernel p)"
    using assms by (auto simp: pipeline_inv_def flow_def flow_of_def)
  let ?rest = "q1 @ waiting (pl_pending p) @ filter_run q0 (filter_after got filter_init)"
  have "filter_run (pl_accepted p) filter_init = pl_logged p @ ?rest" by (simp add: q filter_run_append)
  moreover have "length (waiting x) \<le> 1" for x by (simp add: waiting_def split: option.split)
  then have "length ?rest \<le> 2 * CHANNEL_CAPACITY + 1"
    using carried_at_most [OF q(5) _ q(1)] carried_at_most [OF q(5) _ q(2)]
    by (auto intro: order_trans [OF add_mono] simp: add.commute)
  ultimately show ?thesis by blast
qed

text \<open>
  C16: the pipeline works end to end. In every run after a boot of the pipeline, whatever other tasks do and
  however the three are interleaved, the readings the logger has taken are the first of the filter's
  results on the readings that entered channel 0, in order, none lost, repeated or altered, with at most
  17 still under way; those are a subsequence of the readings the sensor took at ticks
  one period apart, the sensor's drop counter says how many are missing, and while none is missing
  every logged average is the mean of the last four samples.
\<close>

theorem pipeline_end_to_end:
  assumes "clean_reset pf r" and "kernel_main pf env (initial_kernel m r t fs) = Inr (frame, k)" and "\<not> demo_hml env"
    and "(pipeline_step pf (length (boot_tasks env) - 1))\<^sup>*\<^sup>* (pipeline_start t0 k) p"
  shows "(\<exists>rest. filter_run (pl_accepted p) filter_init = pl_logged p @ rest \<and> length rest \<le> 2 * CHANNEL_CAPACITY + 1) \<and>
    subseq (pl_accepted p) (pl_offered p) \<and>
    unat (sn_dropped (pl_sensor p)) = min 65535 (length (pl_offered p) - length (pl_accepted p)) \<and>
    (\<forall>i < length (pl_offered p). rd_seq (pl_offered p ! i) = of_nat i \<and>
       rd_release (pl_offered p ! i) = t0 + of_nat i * PERIOD) \<and>
    (pl_accepted p = pl_offered p \<longrightarrow> (\<forall>i < length (pl_logged p).
       unat (rd_avg (pl_logged p ! i)) = mean_of_last (\<lambda>j. rd_raw (pl_offered p ! j)) (Suc i)))"
proof -
  have inv: "pipeline_inv pf (length (boot_tasks env) - 1) t0 p"
    by (rule pipeline_run_inv [OF assms(4) pipeline_boots [OF assms(1-3)]])
  then have j: "journal t0 p" by (simp add: pipeline_inv_def)
  note d = pipeline_inv_delivers [OF inv]
  then obtain rest where rest: "filter_run (pl_accepted p) filter_init = pl_logged p @ rest" by blast
  have "unat (rd_avg (pl_logged p ! i)) = mean_of_last (\<lambda>j. rd_raw (pl_offered p ! j)) (Suc i)"
    if "pl_accepted p = pl_offered p" "i < length (pl_logged p)" for i
  proof -
    have "i < length (pl_offered p)" using arg_cong [OF rest, of length] that by simp
    moreover have "filter_run (pl_offered p) filter_init ! i = pl_logged p ! i"
      using rest that by (simp add: nth_append)
    ultimately show ?thesis using filter_is_moving_average [of "pl_offered p" i] j by (simp add: journal_def)
  qed
  with d j show ?thesis by (auto simp: journal_def)
qed

text \<open>
  Witness: the sensor puts its first reading into a buffer on its stack and sends it.
\<close>

definition first_reading :: reading where
  "first_reading = fst (sensor_step 0 (Inr 0) 0 0 (sensor_init 0))"

definition first_send :: trap_frame where
  "first_send = \<lparr>regs = issue (SendMsg True 0 0x800B8F00 16) (replicate 32 0), mepc = 0x80001000, mstatus = 0,
                 mcause = 8, mtval = 0\<rparr>"

definition first_buffer :: kernel where
  "first_buffer = booted\<lparr>mem := write_bytes 0x800B8F00 (reading_encode first_reading) (mem booted)\<rparr>"

lemma first_buffer_step: "plain_step demo_platform 3 booted first_buffer"
  unfolding first_buffer_def
proof (rule plain_step.store)
  show "unat (current_task_idx booted) \<noteq> 3" by (simp add: booted_current)
  fix a :: usize assume "write_bytes 0x800B8F00 (reading_encode first_reading) (mem booted) a \<noteq> mem booted a"
  then obtain i where "i < 16" "a = 0x800B8F00 + of_nat i"
    using write_bytes_outside [of "reading_encode first_reading" a] reading_round_trip [of first_reading] by fastforce
  then show "may_store booted a \<and> \<not> kernel_data demo_platform a"
    by (intro booted_may_store) (simp_all add: word_le_nat_alt word_less_nat_alt unat_word_ariths unat_of_nat)
qed

lemma first_buffer_live: "live demo_platform 3 first_buffer"
  using reachable_live [OF r_into_rtranclp [of "kstep demo_platform 3", OF plain_step_kstep [OF first_buffer_step]] booted_live]
  by blast

lemma first_reading_sent:
  "\<exists>k'. call_step demo_platform 3 (SendMsg True 0 0x800B8F00 16) first_send first_buffer k' \<and>
        call_result (SendMsg True 0 0x800B8F00 16) first_send first_buffer k' = Some (Inr 0)"
proof -
  let ?call = "SendMsg True 0 0x800B8F00 16"
  obtain t where t: "current_task first_buffer = Some t" "td_sends_mask t = 1" "td_memory_start t = 0x800B8000"
    "td_memory_end t = 0x800B9000"
    using booted_user by (auto simp: first_buffer_def current_task_def task_ptr_def booted_current)
  have k: "kernel_inv demo_platform first_buffer" "available 3 first_buffer" "current_task_idx first_buffer = 0"
    using first_buffer_live by (simp_all add: live_def first_buffer_def booted_current)
  have f: "length (regs first_send) = 32" "is_ecall first_send"
    by (simp_all add: first_send_def issue_length is_ecall_def del: issue.simps)
  from ecall_returns [OF k(1) f k(2) _ t(1), of undefined] k(3) obtain k' where
    "trap_handler demo_platform undefined (frame_of (current_task_idx first_buffer) first_buffer)
       (saved first_send first_buffer) = Inr (frame_of (current_task_idx k') k', k')"
    by (auto simp: returns_def)
  then have step: "call_step demo_platform 3 ?call first_send first_buffer k'"
    using f(2) k(3) by (auto simp: call_step_def first_send_def simp del: issue.simps intro!: exI [of _ "replicate 32 0"])
  moreover have "call_result ?call first_send first_buffer k' = Some (Inr 0)"
    using send_call [OF step first_buffer_live t(1)] t
    by (simp add: first_buffer_def booted_channels channel_table_def channel_new_def ch_is_full_def ch_capacity_def
        holds_endpoint_def mask_has_def buffer_readable_def checked_add_def readable_ranges_def)
  ultimately show ?thesis by blast
qed

lemma first_reading_run:
  "\<exists>k'. (pipeline_step demo_platform 3)\<^sup>*\<^sup>* (pipeline_start 0 booted)
          ((sensor_sent 0 (Inr 0) 0 0 (pipeline_start 0 first_buffer))\<lparr>pl_kernel := k'\<rparr>)"
proof -
  let ?p = "pipeline_start 0 first_buffer" and ?call = "SendMsg True 0 0x800B8F00 16"
  obtain k' where k': "call_step demo_platform 3 ?call first_send first_buffer k'"
    "call_result ?call first_send first_buffer k' = Some (Inr 0)" using first_reading_sent by blast
  have own: "own_buffer 0x800B8F00 first_buffer"
    using booted_user
    by (auto simp: own_buffer_def first_buffer_def current_task_def task_ptr_def booted_current buffer_readable_def
        checked_add_def writable_ranges_def)
  have buf: "read_bytes (mem first_buffer) 0x800B8F00 16 = reading_encode first_reading"
    using read_write_bytes [of "reading_encode first_reading" "0x800B8F00" "mem booted"] reading_round_trip [of first_reading]
    by (simp add: first_buffer_def)
  have cur: "unat (current_task_idx first_buffer) = 0" by (simp add: first_buffer_def booted_current)
  have p: "pl_kernel ?p = first_buffer" "pl_sensor ?p = sensor_init 0" by (simp_all add: pipeline_start_def)
  have "pipeline_step demo_platform 3 ?p ((sensor_sent 0 (Inr 0) 0 0 ?p)\<lparr>pl_kernel := k'\<rparr>)"
    by (rule pipeline_step.sensor [of ?p "0x800B8F00" demo_platform 3 first_send k' 0 "Inr 0" 0 0, unfolded p,
          folded first_reading_def, OF cur own k'(1) buf k'(2)])
  moreover have "pipeline_step demo_platform 3 (pipeline_start 0 booted) ?p"
    using pipeline_step.plain [of demo_platform 3 "pipeline_start 0 booted" first_buffer] first_buffer_step
    by (simp add: pipeline_start_def)
  ultimately show ?thesis by (blast intro: converse_rtranclp_into_rtranclp)
qed

theorem pipeline_end_to_end_witness:
  "\<exists>p :: pipeline. pl_offered p = [first_reading] \<and> pl_accepted p = [first_reading] \<and> rd_seq (pl_offered p ! 0) = 0 \<and>
       unat (sn_dropped (pl_sensor p)) = 0"
proof -
  obtain k' p where p_def: "p = (sensor_sent 0 (Inr 0) 0 0 (pipeline_start 0 first_buffer))\<lparr>pl_kernel := k'\<rparr>"
    and "(pipeline_step demo_platform 3)\<^sup>*\<^sup>* (pipeline_start 0 booted) p"
    using first_reading_run by blast
  then have run: "(pipeline_step demo_platform (length (boot_tasks demo_env) - 1))\<^sup>*\<^sup>* (pipeline_start 0 booted) p"
    by (simp add: boot_tasks_length demo_env_def)
  have p: "pl_offered p = [first_reading]" "pl_accepted p = [first_reading]"
    by (simp_all add: p_def sensor_sent_def pipeline_start_def first_reading_def Let_def case_prod_beta)
  have "\<not> demo_hml demo_env" by (simp add: demo_env_def)
  from pipeline_end_to_end [OF demo_clean demo_boots(1) [unfolded demo_reset_def] this run] p
  have "rd_seq (pl_offered p ! 0) = 0 \<and> unat (sn_dropped (pl_sensor p)) = 0" by simp
  with p show ?thesis by blast
qed

end
