(* ===== verification/Capability_Tokens.thy ===== *)
theory Capability_Tokens
  imports Ferret_Prelude
begin

text \<open>
  The zero-sized capability tokens (\<open>capability/types.rs\<close>, \<open>capability/wrappers.rs\<close>). They have no run-time
  content: what they promise is what the Rust compiler accepts. The theory models the types with the
  fields and the \<open>derive\<close> attributes the source gives them, the size and the traits that follow, and the
  programs over tokens that the compiler's ownership rules accept; it shows which tokens can be
  duplicated.
\<close>

section \<open>The types\<close>

datatype peripheral_cap =
    UartCapability usize
  | GpioCapability usize
  | SpiCapability usize
  | I2cCapability usize
  | ConsoleCapability

datatype rust_type =
    UnitType
  | PhantomData rust_type
  | Peripheral peripheral_cap
  | ExclusiveCapability rust_type
  | SharedCapability rust_type

text \<open>The field of each tuple struct; \<open>()\<close> and \<open>PhantomData\<close> have none.\<close>

fun fields :: "rust_type \<Rightarrow> rust_type list" where
  "fields UnitType = []"
| "fields (PhantomData T) = []"
| "fields (Peripheral p) = [PhantomData UnitType]"
| "fields (ExclusiveCapability T) = [PhantomData T]"
| "fields (SharedCapability T) = [PhantomData T]"

text \<open>\<open>core::mem::size_of\<close>: a struct takes the room of its fields.\<close>

function size_of :: "rust_type \<Rightarrow> nat" where
  "size_of T = sum_list (map size_of (fields T))"
  by auto
termination
proof (relation "measure (\<lambda>T. length (fields T))")
  show "(z, T) \<in> measure (\<lambda>T. length (fields T))" if "z \<in> set (fields T)" for z T
    using that by (cases T) auto
qed simp

declare size_of.simps [simp del]

definition types_zero_cost :: bool where
  "types_zero_cost \<longleftrightarrow>
     size_of (Peripheral (UartCapability 0)) = 0 \<and> size_of (Peripheral (GpioCapability 13)) = 0 \<and>
     size_of (Peripheral (SpiCapability 0)) = 0 \<and> size_of (Peripheral (I2cCapability 0)) = 0 \<and>
     size_of (Peripheral ConsoleCapability) = 0"

definition wrappers_zero_cost :: bool where
  "wrappers_zero_cost \<longleftrightarrow>
     size_of (ExclusiveCapability UnitType) = 0 \<and> size_of (SharedCapability UnitType) = 0"

text \<open>
  The traits: \<open>()\<close> and \<open>PhantomData\<close> are \<open>Copy\<close> for every parameter; the only attribute on a type of the two
  files is \<open>derive(Clone)\<close> on \<open>SharedCapability\<close>, which generates the implementation under the bound
  \<open>T: Clone\<close> on its parameter.
\<close>

fun implements_clone :: "rust_type \<Rightarrow> bool" where
  "implements_clone UnitType = True"
| "implements_clone (PhantomData T) = True"
| "implements_clone (Peripheral p) = False"
| "implements_clone (ExclusiveCapability T) = False"
| "implements_clone (SharedCapability T) = implements_clone T"

fun implements_copy :: "rust_type \<Rightarrow> bool" where
  "implements_copy UnitType = True"
| "implements_copy (PhantomData T) = True"
| "implements_copy T = False"

lemma copy_is_clone: "implements_copy T \<Longrightarrow> implements_clone T"
  by (cases T) simp_all

section \<open>Programs over tokens\<close>

text \<open>
  The live variables of a program with the type of the token each holds. A constructor call binds a
  fresh token; a move takes it out of its variable, unless the type is \<open>Copy\<close>; a \<open>clone\<close> needs the
  trait; \<open>None\<close> is a program the compiler rejects. The peripheral types have private fields and no
  constructor, so only the wrappers can be made.
\<close>

type_synonym bindings = "nat \<rightharpoonup> rust_type"

definition exclusive_new :: "nat \<Rightarrow> rust_type \<Rightarrow> bindings \<Rightarrow> bindings" where
  "exclusive_new x T b = b(x \<mapsto> ExclusiveCapability T)"

definition exclusive_default :: "nat \<Rightarrow> rust_type \<Rightarrow> bindings \<Rightarrow> bindings" where
  "exclusive_default = exclusive_new"

definition shared_new :: "nat \<Rightarrow> rust_type \<Rightarrow> bindings \<Rightarrow> bindings" where
  "shared_new x T b = b(x \<mapsto> SharedCapability T)"

definition shared_default :: "nat \<Rightarrow> rust_type \<Rightarrow> bindings \<Rightarrow> bindings" where
  "shared_default = shared_new"

definition move_token :: "nat \<Rightarrow> nat \<Rightarrow> bindings \<Rightarrow> bindings option" where
  "move_token x y b =
     (case b x of None \<Rightarrow> None
      | Some T \<Rightarrow> Some (if implements_copy T then b(y \<mapsto> T) else (b(x := None))(y \<mapsto> T)))"

definition clone_token :: "nat \<Rightarrow> nat \<Rightarrow> bindings \<Rightarrow> bindings option" where
  "clone_token x y b =
     (case b x of None \<Rightarrow> None | Some T \<Rightarrow> if implements_clone T then Some (b(y \<mapsto> T)) else None)"

datatype token_op =
    NewExclusive nat rust_type
  | DefaultExclusive nat rust_type
  | NewShared nat rust_type
  | DefaultShared nat rust_type
  | MoveToken nat nat
  | CloneToken nat nat
  | DropToken nat

fun token_step :: "token_op \<Rightarrow> bindings \<Rightarrow> bindings option" where
  "token_step (NewExclusive x T) b = Some (exclusive_new x T b)"
| "token_step (DefaultExclusive x T) b = Some (exclusive_default x T b)"
| "token_step (NewShared x T) b = Some (shared_new x T b)"
| "token_step (DefaultShared x T) b = Some (shared_default x T b)"
| "token_step (MoveToken x y) b = move_token x y b"
| "token_step (CloneToken x y) b = clone_token x y b"
| "token_step (DropToken x) b = (if b x = None then None else Some (b(x := None)))"

fun token_run :: "token_op list \<Rightarrow> bindings \<Rightarrow> bindings option" where
  "token_run [] b = Some b"
| "token_run (op # ops) b = Option.bind (token_step op b) (token_run ops)"

text \<open>The type a constructor call makes, and the variables that hold a token of a type.\<close>

fun made :: "token_op \<Rightarrow> rust_type option" where
  "made (NewExclusive x T) = Some (ExclusiveCapability T)"
| "made (DefaultExclusive x T) = Some (ExclusiveCapability T)"
| "made (NewShared x T) = Some (SharedCapability T)"
| "made (DefaultShared x T) = Some (SharedCapability T)"
| "made _ = None"

definition holders :: "rust_type \<Rightarrow> bindings \<Rightarrow> nat set" where
  "holders T b = {x. b x = Some T}"

lemmas token_defs = exclusive_new_def exclusive_default_def shared_new_def shared_default_def
  move_token_def clone_token_def holders_def

section \<open>What the types promise\<close>

text \<open>Every capability type is zero-sized, so the compile-time assertions of both files hold.\<close>

theorem tokens_are_zero_sized:
  "size_of T = 0 \<and> types_zero_cost \<and> wrappers_zero_cost"
proof -
  have "size_of T = 0" for T
    by (subst size_of.simps) (cases T; simp add: size_of.simps [of "PhantomData _"])
  then show ?thesis by (simp add: types_zero_cost_def wrappers_zero_cost_def)
qed

text \<open>One accepted step adds a holder of a type that is not \<open>Clone\<close> only by constructing it.\<close>

lemma token_step_holders:
  assumes "token_step op b = Some b'" and "\<not> implements_clone T"
  obtains (new) x where "made op = Some T" and "holders T b' \<subseteq> insert x (holders T b)"
        | (move) x y where "x \<in> holders T b" and "holders T b' \<subseteq> insert y (holders T b - {x})"
        | (rest) "holders T b' \<subseteq> holders T b"
proof -
  consider x y where "op = MoveToken x y" "b x = Some T" | "made op = Some T"
    | "\<forall>x y. op = MoveToken x y \<longrightarrow> b x \<noteq> Some T" "made op \<noteq> Some T" by blast
  then show thesis
  proof cases
    case (1 x y)
    with assms show thesis
      by (intro move [of x y]) (auto simp: token_defs dest: copy_is_clone split: if_splits)
  next
    case 2
    then have "\<exists>x. holders T b' \<subseteq> insert x (holders T b)"
      using assms(1) by (cases op) (auto simp: token_defs)
    with 2 new show thesis by blast
  next
    case 3
    then have "holders T b' \<subseteq> holders T b"
      using assms by (cases op) (auto simp: token_defs split: if_splits option.splits)
    then show thesis by (rule rest)
  qed
qed

lemma token_step_card:
  assumes "token_step op b = Some b'" and "\<not> implements_clone T" and fin: "finite (holders T b)"
  shows "finite (holders T b') \<and>
         card (holders T b') \<le> card (holders T b) + (if made op = Some T then 1 else 0)"
  using assms(1,2)
proof (cases rule: token_step_holders)
  case (new x)
  from card_mono [OF _ new(2)] fin new finite_subset [OF new(2)] show ?thesis
    by (simp add: card_insert_if split: if_splits)
next
  case (move x y)
  have "card (holders T b') \<le> card (insert y (holders T b - {x}))" using move(2) fin by (intro card_mono) auto
  also have "\<dots> \<le> Suc (card (holders T b - {x}))" using fin by (simp add: card_insert_if)
  also have "\<dots> = card (holders T b)" using fin move(1) by (simp only: card_Suc_Diff1)
  finally show ?thesis using move(2) fin by (auto intro: finite_subset)
next
  case rest
  with card_mono [OF fin rest] finite_subset [OF rest fin] show ?thesis by simp
qed

text \<open>
  In an accepted program the tokens of a type that is not \<open>Clone\<close> never outnumber the calls of its
  constructors. The exclusive wrapper is such a type for every parameter, so a second owner needs a
  second call of \<open>new\<close> or \<open>default\<close>, which the compiler does not prevent. The shared wrapper of a
  peripheral is such a type as well, because the derived implementation asks the peripheral to be
  \<open>Clone\<close> and none is.
\<close>

theorem tokens_only_from_new:
  assumes "token_run ops Map.empty = Some b"
    and "T = ExclusiveCapability U \<or> T = SharedCapability (Peripheral p)"
  shows "card (holders T b) \<le> length (filter (\<lambda>op. made op = Some T) ops)"
proof -
  have T: "\<not> implements_clone T" using assms(2) by auto
  have "card (holders T b) \<le> card (holders T b0) + length (filter (\<lambda>op. made op = Some T) ops)"
    if "token_run ops b0 = Some b" "finite (holders T b0)" for b0
    using that
  proof (induction ops arbitrary: b0)
    case (Cons op ops)
    then obtain b1 where b1: "token_step op b0 = Some b1" "token_run ops b1 = Some b"
      by (auto simp: bind_eq_Some_conv)
    with Cons token_step_card [OF b1(1) T] show ?case by (fastforce split: if_splits)
  qed simp
  from this [OF assms(1)] show ?thesis by (simp add: holders_def)
qed

text \<open>A second exclusive token is one more call of the constructor away; a clone is rejected.\<close>

theorem tokens_only_from_new_witness:
  "\<exists>b. token_run [NewExclusive 0 (Peripheral (UartCapability 0)), MoveToken 0 1] Map.empty = Some b \<and>
       card (holders (ExclusiveCapability (Peripheral (UartCapability 0))) b) \<le> 1"
  using tokens_only_from_new [of "[NewExclusive 0 (Peripheral (UartCapability 0)), MoveToken 0 1]" _
      "ExclusiveCapability (Peripheral (UartCapability 0))"]
  by (fastforce simp: exclusive_new_def move_token_def)

lemma shared_peripheral_not_cloned:
  "b x = Some (SharedCapability (Peripheral p)) \<Longrightarrow> token_step (CloneToken x y) b = None"
  by (simp add: clone_token_def)

lemma exclusive_made_twice:
  assumes "x \<noteq> y"
  shows "\<exists>b. token_run [NewExclusive x T, DefaultExclusive y T] Map.empty = Some b \<and>
             holders (ExclusiveCapability T) b = {x, y}"
  using assms by (auto simp: token_defs)

end
