(* ===== verification/Static_Checks.thy ===== *)
theory Static_Checks
  imports Demo_Tasks Capability_Tokens
begin

text \<open>
  The assertions the compiler evaluates when it builds the kernel, \<open>const _: () = assert!(...)\<close>, one
  definition per file that has them: a build exists only if they hold, and they do.
\<close>

text \<open>\<open>boot.rs\<close>: the task regions of neighbouring slots do not overlap.\<close>

definition task_slots_disjoint :: bool where
  "task_slots_disjoint \<longleftrightarrow>
     assert_no_overlap 0x800B8000 0x800B9000 0x800B9000 0x800BA000 \<and>
     assert_no_overlap 0x800B9000 0x800BA000 0x800BA000 0x800BB000 \<and>
     assert_no_overlap 0x800BA000 0x800BB000 0x800BB000 0x800BC000"

text \<open>\<open>config.rs\<close>: a peripheral number is a bit of a 32-bit mask.\<close>

definition peripherals_fit_mask :: bool where
  "peripherals_fit_mask \<longleftrightarrow> MAX_PERIPHERALS \<le> 32"

text \<open>\<open>context/mod.rs\<close>: the frame has the size the trap entry stub reserves, and keeps the stack aligned.\<close>

definition frame_size_matches_stub :: bool where
  "frame_size_matches_stub \<longleftrightarrow> TRAP_FRAME_SIZE = 144 \<and> TRAP_FRAME_SIZE mod 16 = 0"

text \<open>\<open>syscall.rs\<close>: the error codes are distinct and above every byte count a \<open>log\<close> call returns.\<close>

definition error_codes_ordered :: bool where
  "error_codes_ordered \<longleftrightarrow>
     (ENOSYS > EPERM \<and> EPERM > EFAULT \<and> EFAULT > EAGAIN \<and> EAGAIN > EINVAL) \<and> EINVAL > LOG_MAX_LEN"

text \<open>\<open>demo/pipeline.rs\<close>: a flush spans a release of the sensor, and the logger keeps up with it on average.\<close>

definition logger_keeps_up :: bool where
  "logger_keeps_up \<longleftrightarrow>
     FLUSH_WORK > PERIOD \<and> FLUSH_EVERY * LOGGER_WORK + FLUSH_WORK < FLUSH_EVERY * PERIOD"

theorem static_assertions_hold:
  "task_slots_disjoint \<and> peripherals_fit_mask \<and> frame_size_matches_stub \<and> error_codes_ordered \<and>
   logger_keeps_up \<and> types_zero_cost \<and> wrappers_zero_cost"
  using tokens_are_zero_sized
  by (simp add: task_slots_disjoint_def assert_no_overlap_def peripherals_fit_mask_def
      frame_size_matches_stub_def TRAP_FRAME_SIZE_def error_codes_ordered_def ENOSYS_def EPERM_def EFAULT_def
      EAGAIN_def EINVAL_def LOG_MAX_LEN_def logger_keeps_up_def FLUSH_WORK_def PERIOD_def FLUSH_EVERY_def
      LOGGER_WORK_def)

end
