(* ===== verification/Graph_Search.thy ===== *)
theory Graph_Search
  imports Ferret_Prelude
begin

text \<open>
  Breadth-first search over successor lists, the search that both implementations of the
  inherited-priority computation perform. The result lists the nodes in the order in which they
  leave the work list; the locale shows that they are exactly the reachable ones.
\<close>

definition mark :: "nat list \<Rightarrow> bool list \<Rightarrow> bool list" where
  "mark js vis = fold (\<lambda>j v. v[j := True]) js vis"

definition fresh :: "bool list \<Rightarrow> nat list \<Rightarrow> nat list" where
  "fresh vis js = filter (\<lambda>j. j < length vis \<and> \<not> vis ! j) js"

abbreviation unvisited :: "bool list \<Rightarrow> nat" where
  "unvisited vis \<equiv> length (filter Not vis)"

lemma mark_simps [simp]: "mark [] vis = vis" "mark (j # js) vis = mark js (vis[j := True])"
  by (simp_all add: mark_def)

lemma length_mark [simp]: "length (mark js vis) = length vis"
  by (induction js arbitrary: vis) auto

lemma nth_mark: "i < length vis \<Longrightarrow> mark js vis ! i \<longleftrightarrow> i \<in> set js \<or> vis ! i"
proof (induction js arbitrary: vis)
  case (Cons a js)
  then show ?case by (cases "a = i") auto
qed simp

lemma unvisited_update:
  "j < length vis \<Longrightarrow> \<not> vis ! j \<Longrightarrow> Suc (unvisited (vis[j := True])) = unvisited vis"
proof (induction vis arbitrary: j)
  case (Cons v vis)
  then show ?case by (cases j) auto
qed simp

lemma unvisited_mark:
  "distinct js \<Longrightarrow> \<forall>j \<in> set js. j < length vis \<and> \<not> vis ! j \<Longrightarrow>
   unvisited (mark js vis) + length js = unvisited vis"
proof (induction js arbitrary: vis)
  case (Cons j js)
  then have "unvisited (mark js (vis[j := True])) + length js = unvisited (vis[j := True])"
    by (intro Cons.IH) (auto simp: nth_list_update)
  with Cons.prems unvisited_update [of j vis] show ?case by simp
qed simp

lemma unvisited_fresh:
  "distinct js \<Longrightarrow> unvisited (mark (fresh vis js) vis) + length (fresh vis js) = unvisited vis"
  by (rule unvisited_mark) (auto simp: fresh_def)

function bfs :: "(nat \<Rightarrow> nat list) \<Rightarrow> nat list \<Rightarrow> bool list \<Rightarrow> nat list" where
  "bfs succs [] vis = []"
| "bfs succs (c # q) vis =
     (let new = fresh vis (remdups (succs c)) in c # bfs succs (q @ new) (mark new vis))"
  by pat_completeness auto
termination
proof (relation "measure (\<lambda>(succs, q, vis). length q + unvisited vis)", goal_cases)
  case (2 succs c q vis new)
  then show ?case using unvisited_fresh [of "remdups (succs c)" vis] by simp
qed simp

declare bfs.simps(2) [simp del]

lemma bfs_Cons:
  "bfs succs (c # q) vis =
   c # bfs succs (q @ fresh vis (remdups (succs c))) (mark (fresh vis (remdups (succs c))) vis)"
  by (simp add: bfs.simps(2) Let_def)

lemma bfs_invariant:
  assumes "\<forall>i \<in> set q. P i" and "\<And>i j. P i \<Longrightarrow> j \<in> set (succs i) \<Longrightarrow> P j"
  shows "\<forall>i \<in> set (bfs succs q vis). P i"
  using assms
proof (induction succs q vis rule: bfs.induct)
  case (2 succs c q vis)
  have "P c" and new: "\<forall>i \<in> set (q @ fresh vis (remdups (succs c))). P i"
    using "2.prems"(1) "2.prems"(2) [of c] by (auto simp: fresh_def)
  with "2.IH" [OF refl new "2.prems"(2)] show ?case by (simp add: bfs_Cons)
qed simp

lemma bfs_closed:
  assumes "\<forall>i \<in> set q. i < length vis \<and> vis ! i"
    and "\<And>i j. i < length vis \<Longrightarrow> j \<in> set (succs i) \<Longrightarrow> j < length vis"
  shows "set q \<subseteq> set (bfs succs q vis) \<and>
         (\<forall>i \<in> set (bfs succs q vis). \<forall>j \<in> set (succs i).
            j \<in> set (bfs succs q vis) \<or> (vis ! j \<and> j \<notin> set q))"
  using assms
proof (induction succs q vis rule: bfs.induct)
  case (2 succs c q vis)
  let ?new = "fresh vis (remdups (succs c))"
  let ?R = "set (bfs succs (q @ ?new) (mark ?new vis))"
  have "\<forall>i \<in> set (q @ ?new). i < length (mark ?new vis) \<and> mark ?new vis ! i"
    using "2.prems"(1) by (auto simp: nth_mark fresh_def)
  from "2.IH" [OF refl this] "2.prems"(2)
  have sub: "set q \<subseteq> ?R" "set ?new \<subseteq> ?R"
    and closed: "\<And>i j. i \<in> ?R \<Longrightarrow> j \<in> set (succs i) \<Longrightarrow>
                  j \<in> ?R \<or> mark ?new vis ! j \<and> j \<notin> set q \<union> set ?new"
    by auto
  have "\<forall>i \<in> ?R. i < length vis"
    by (rule bfs_invariant [OF _ "2.prems"(2)]) (use "2.prems"(1) in \<open>auto simp: fresh_def\<close>)
  then have less: "i \<in> ?R \<Longrightarrow> i < length vis" for i by blast
  have c: "j \<in> insert c ?R \<or> (vis ! j \<and> j \<notin> set (c # q))" if "j \<in> set (succs c)" for j
    using that sub "2.prems" by (auto simp: fresh_def)
  have R: "j \<in> insert c ?R \<or> (vis ! j \<and> j \<notin> set (c # q))" if "i \<in> ?R" "j \<in> set (succs i)" for i j
    using closed [OF that] "2.prems"(2) [OF less [OF that(1)] that(2)]
    by (auto simp: nth_mark)
  show ?case unfolding bfs_Cons using c R sub by auto
qed simp

locale successor_graph =
  fixes succs :: "nat \<Rightarrow> nat list" and n :: nat
  assumes succs_less: "i < n \<Longrightarrow> j \<in> set (succs i) \<Longrightarrow> j < n"
begin

definition edge :: "nat \<Rightarrow> nat \<Rightarrow> bool" where
  "edge i j \<longleftrightarrow> j \<in> set (succs i)"

lemma reach_less: "edge\<^sup>*\<^sup>* i j \<Longrightarrow> i < n \<Longrightarrow> j < n"
  by (induction rule: rtranclp_induct) (auto simp: edge_def succs_less)

theorem bfs_reachable:
  assumes "s < n"
  shows "set (bfs succs [s] ((replicate n False)[s := True])) = {i. edge\<^sup>*\<^sup>* s i}"
proof
  let ?vis = "(replicate n False)[s := True]"
  have "\<forall>i \<in> set (bfs succs [s] ?vis). edge\<^sup>*\<^sup>* s i"
    by (rule bfs_invariant) (auto simp: edge_def intro: rtranclp.rtrancl_into_rtrancl)
  then show "set (bfs succs [s] ?vis) \<subseteq> {i. edge\<^sup>*\<^sup>* s i}" by blast
  have less: "\<forall>i \<in> set (bfs succs [s] ?vis). i < n"
    by (rule bfs_invariant [OF _ succs_less]) (use assms in auto)
  have unmarked: "\<not> (?vis ! j \<and> j \<notin> set [s])" if "j < n" for j
    using that assms by (simp add: nth_list_update)
  have closed: "set [s] \<subseteq> set (bfs succs [s] ?vis) \<and>
      (\<forall>i \<in> set (bfs succs [s] ?vis). \<forall>j \<in> set (succs i).
         j \<in> set (bfs succs [s] ?vis) \<or> (?vis ! j \<and> j \<notin> set [s]))"
    by (rule bfs_closed) (use assms succs_less in \<open>auto simp: nth_list_update\<close>)
  then have R: "s \<in> set (bfs succs [s] ?vis)"
    "\<And>i j. i \<in> set (bfs succs [s] ?vis) \<Longrightarrow> edge i j \<Longrightarrow> j \<in> set (bfs succs [s] ?vis)"
    using less unmarked succs_less unfolding edge_def by (simp, blast)
  have "i \<in> set (bfs succs [s] ?vis)" if "edge\<^sup>*\<^sup>* s i" for i
    using that by (induction rule: rtranclp_induct) (use R in auto)
  then show "{i. edge\<^sup>*\<^sup>* s i} \<subseteq> set (bfs succs [s] ?vis)" by blast
qed

text \<open>The largest value of a node function over what a node reaches.\<close>

definition best :: "(nat \<Rightarrow> 'b :: linorder) \<Rightarrow> nat \<Rightarrow> 'b" where
  "best f s = Max (f ` {i. edge\<^sup>*\<^sup>* s i})"

lemma finite_reach: "s < n \<Longrightarrow> finite {i. edge\<^sup>*\<^sup>* s i}"
  by (rule finite_subset [of _ "{..<n}"]) (auto dest: reach_less)

lemma fold_max_bfs:
  assumes "s < n"
  shows "fold (\<lambda>i. max (f i)) (bfs succs [s] ((replicate n False)[s := True])) (f s) = best f s"
proof -
  let ?b = "bfs succs [s] ((replicate n False)[s := True])"
  have "fold (\<lambda>i. max (f i)) xs m = Max (insert m (f ` set xs))" for xs m
  proof (induction xs arbitrary: m)
    case (Cons a xs)
    have "Max (insert (max (f a) m) (f ` set xs)) = Max (insert m (insert (f a) (f ` set xs)))"
      by (cases "set xs = {}") (simp_all add: Max_insert ac_simps)
    with Cons show ?case by simp
  qed simp
  moreover have "f s \<in> f ` set ?b" using bfs_reachable [OF assms] by auto
  ultimately show ?thesis
    by (simp add: best_def bfs_reachable [OF assms] insert_absorb)
qed

lemma best_ge: "s < n \<Longrightarrow> edge\<^sup>*\<^sup>* s i \<Longrightarrow> f i \<le> best f s"
  unfolding best_def by (intro Max_ge) (auto simp: finite_reach)

lemma best_attained: "s < n \<Longrightarrow> \<exists>i. edge\<^sup>*\<^sup>* s i \<and> best f s = f i"
proof -
  assume "s < n"
  then have "Max (f ` {i. edge\<^sup>*\<^sup>* s i}) \<in> f ` {i. edge\<^sup>*\<^sup>* s i}"
    using finite_reach by (intro Max_in) blast+
  then show ?thesis unfolding best_def by blast
qed

lemma best_mono: "s < n \<Longrightarrow> edge s i \<Longrightarrow> best f i \<le> best f s"
proof -
  assume s: "s < n" and e: "edge s i"
  then have "i < n" using succs_less by (simp add: edge_def)
  then obtain k where "edge\<^sup>*\<^sup>* i k" and k: "best f i = f k" using best_attained by blast
  then have "edge\<^sup>*\<^sup>* s k" using e by (meson converse_rtranclp_into_rtranclp)
  then show ?thesis unfolding k by (rule best_ge [OF s])
qed

end

end
