(* ===== verification/Contention_Graph.thy ===== *)
theory Contention_Graph
  imports Task_Registry Graph_Search
begin

text \<open>
  The capability contention graph and the inherited priorities the kernel computes from it
  (\<^verbatim>\<open>kernel/src/scheduler/ccg.rs\<close>, \<^verbatim>\<open>kernel/src/scheduler/mip.rs\<close>). The breadth-first search
  runs on the fixed arrays of the source, every access checked.
\<close>

section \<open>Model\<close>

record ccg =
  ccg_edges :: "bool list list"
  ccg_task_count :: nat

text \<open>
  \<open>indices\<close> and \<open>count\<close> of \<open>build\<close>: the occupied slots, collected in an array of \<open>MAX_TASKS\<close> entries.
\<close>

definition build_indices :: "task_descriptor option list \<Rightarrow> (nat list \<times> nat) res" where
  "build_indices reg =
     fold_res (\<lambda>(i, slot) (indices, count).
         if slot \<noteq> None then bind_res (arr_set indices count i) (\<lambda>indices'. Inr (indices', count + 1))
         else Inr (indices, count))
       (enumerate 0 reg) (replicate MAX_TASKS 0, 0)"

text \<open>\<open>registry[idx].as_ref().unwrap()\<close>, and the body of the double loop.\<close>

definition unwrap_slot :: "task_descriptor option list \<Rightarrow> nat \<Rightarrow> task_descriptor res" where
  "unwrap_slot reg idx =
     bind_res (arr_get reg idx) (\<lambda>slot. case slot of None \<Rightarrow> Inl UnwrapOfNone | Some t \<Rightarrow> Inr t)"

definition add_edge ::
  "task_descriptor option list \<Rightarrow> task_descriptor \<Rightarrow> nat \<Rightarrow> nat \<Rightarrow> bool list list \<Rightarrow> bool list list res" where
  "add_edge reg l l_idx h_idx edges =
     bind_res (unwrap_slot reg h_idx) (\<lambda>h.
       if td_exclusive_cap_mask l AND td_required_cap_mask h \<noteq> 0
       then bind_res (arr_get edges l_idx) (\<lambda>row.
            bind_res (arr_set row h_idx True) (\<lambda>row'. arr_set edges l_idx row'))
       else Inr edges)"

definition ccg_build :: "task_descriptor option list \<Rightarrow> ccg res" where
  "ccg_build reg =
     bind_res (build_indices reg) (\<lambda>(indices, count).
       if length indices < count then Inl IndexOutOfBounds
       else bind_res (fold_res (\<lambda>(li, l_idx) edges.
              bind_res (unwrap_slot reg l_idx) (\<lambda>l.
                fold_res (\<lambda>(hi, h_idx) edges. if li = hi then Inr edges else add_edge reg l l_idx h_idx edges)
                  (enumerate 0 (take count indices)) edges))
              (enumerate 0 (take count indices)) (replicate MAX_TASKS (replicate MAX_TASKS False)))
            (\<lambda>edges. Inr \<lparr>ccg_edges = edges, ccg_task_count = count\<rparr>))"

text \<open>The graph it should build, over lists of occupied slots and without array bounds.\<close>

definition mark_edge ::
  "task_descriptor option list \<Rightarrow> nat \<Rightarrow> nat \<Rightarrow> bool list list \<Rightarrow> bool list list" where
  "mark_edge reg l_idx h_idx edges =
     (case (reg ! l_idx, reg ! h_idx) of
        (Some l, Some h) \<Rightarrow>
          if td_exclusive_cap_mask l AND td_required_cap_mask h \<noteq> 0
          then edges[l_idx := (edges ! l_idx)[h_idx := True]] else edges
      | _ \<Rightarrow> edges)"

definition slots_of :: "task_descriptor option list \<Rightarrow> nat list" where
  "slots_of reg = filter (\<lambda>i. reg ! i \<noteq> None) [0..<length reg]"

definition ccg_of :: "task_descriptor option list \<Rightarrow> ccg" where
  "ccg_of reg =
     (let indices = slots_of reg in
      \<lparr>ccg_edges =
         fold (\<lambda>(li, l_idx). fold (\<lambda>(hi, h_idx) edges.
             if li = hi then edges else mark_edge reg l_idx h_idx edges) (enumerate 0 indices))
           (enumerate 0 indices) (replicate MAX_TASKS (replicate MAX_TASKS False)),
       ccg_task_count = length indices\<rparr>)"

definition has_edge :: "ccg \<Rightarrow> nat \<Rightarrow> nat \<Rightarrow> bool" where
  "has_edge g frm to \<longleftrightarrow> frm < MAX_TASKS \<and> to < MAX_TASKS \<and> ccg_edges g ! frm ! to"

definition successors :: "ccg \<Rightarrow> nat \<Rightarrow> nat list res" where
  "successors g frm =
     bind_res (arr_get (ccg_edges g) frm) (\<lambda>row. Inr (filter (\<lambda>j. row ! j) [0..<MAX_TASKS]))"

text \<open>The state of one search: the queue array, the visited flags and the write position.\<close>

type_synonym bfs_state = "nat list \<times> bool list \<times> nat"

definition bfs_visit :: "task_descriptor option list \<Rightarrow> nat \<Rightarrow> bfs_state \<Rightarrow> bfs_state res" where
  "bfs_visit reg succ = (\<lambda>(queue, visited, tail).
     bind_res (arr_get visited succ) (\<lambda>seen.
     bind_res (arr_get reg succ) (\<lambda>slot.
       if \<not> seen \<and> slot \<noteq> None then
         bind_res (arr_set visited succ True) (\<lambda>visited'.
         bind_res (arr_set queue tail succ) (\<lambda>queue'.
           Inr (queue', visited', tail + 1)))
       else Inr (queue, visited, tail))))"

lemma bfs_visit_length:
  "bfs_visit reg succ (q, v, t) = Inr (q', v', t') \<Longrightarrow> length q' = length q"
  by (auto simp: bfs_visit_def bind_res_eq_Inr_iff arr_set_def arr_get_def split: if_splits)

lemma fold_bfs_visit_length:
  assumes "fold_res (bfs_visit reg) xs (q, v, t) = Inr (q', v', t')"
  shows "length q' = length q"
proof -
  have "(case (q', v', t') of (r, _) \<Rightarrow> length r = length q)"
    by (rule fold_res_invariant [OF _ _ assms]) (auto dest: bfs_visit_length)
  then show ?thesis by simp
qed

function mip_bfs ::
  "ccg \<Rightarrow> task_descriptor option list \<Rightarrow> nat list \<Rightarrow> bool list \<Rightarrow> nat \<Rightarrow> nat \<Rightarrow> u8 \<Rightarrow> u8 res" where
  "mip_bfs g reg queue visited head tail mip =
     (if head < tail then
        bind_res (arr_get queue head) (\<lambda>cur.
        bind_res (arr_get reg cur) (\<lambda>slot.
        bind_res (successors g cur) (\<lambda>succs.
        bind_res (fold_res (bfs_visit reg) succs (queue, visited, tail)) (\<lambda>st.
          mip_bfs g reg (fst st) (fst (snd st)) (head + 1) (snd (snd st))
            (case slot of Some t \<Rightarrow> max mip (td_priority t) | None \<Rightarrow> mip)))))
      else Inr mip)"
  by pat_completeness auto
termination
proof (relation "measure (\<lambda>(g, reg, queue, visited, head, tail, mip). length queue - head)", goal_cases)
  case (2 g reg queue visited head tail mip cur slot succs st)
  obtain q v t where "st = (q, v, t)" by (cases st) auto
  with 2 fold_bfs_visit_length [of reg succs queue visited tail q v t] show ?case
    by (auto simp: arr_get_def split: if_splits)
qed simp

declare mip_bfs.simps [simp del]

text \<open>One iteration of the outer loop: an empty slot keeps its zero.\<close>

definition mip_source :: "ccg \<Rightarrow> task_descriptor option list \<Rightarrow> nat \<Rightarrow> u8 list \<Rightarrow> u8 list res" where
  "mip_source g reg src mip =
     bind_res (arr_get reg src) (\<lambda>slot.
       (case slot of
          None \<Rightarrow> Inr mip
        | Some src_task \<Rightarrow>
            bind_res (arr_set (replicate MAX_TASKS 0) 0 src) (\<lambda>queue.
            bind_res (arr_set (replicate MAX_TASKS False) src True) (\<lambda>visited.
            bind_res (mip_bfs g reg queue visited 0 1 (td_priority src_task)) (\<lambda>m.
              arr_set mip src m)))))"

definition compute_mip_values :: "ccg \<Rightarrow> task_descriptor option list \<Rightarrow> u8 list res" where
  "compute_mip_values g reg = fold_res (mip_source g reg) [0..<MAX_TASKS] (replicate MAX_TASKS 0)"

text \<open>\<open>mip.iter().enumerate().take(task_count())\<close>: only the first \<open>task_count\<close> slots are written.\<close>

definition store_mip :: "u8 list \<Rightarrow> nat \<Rightarrow> task_descriptor option list \<Rightarrow> task_descriptor option list" where
  "store_mip mip cnt reg =
     fold (\<lambda>(i, m) r. case r ! i of
             Some d \<Rightarrow> r[i := Some (d\<lparr>td_max_inherited_priority := m\<rparr>)] | None \<Rightarrow> r)
       (take cnt (enumerate 0 mip)) reg"

definition compute_and_store_mip :: "ccg \<Rightarrow> 'z task_table_scheme \<Rightarrow> 'z task_table_scheme res" where
  "compute_and_store_mip g tt =
     bind_res (compute_mip_values g (registry tt)) (\<lambda>mip.
       Inr (tt\<lparr>registry := store_mip mip (task_count tt) (registry tt)\<rparr>))"

text \<open>The task set of the scheduler tests: L holds UART0, M holds nothing, H requires UART0.\<close>

definition UART0_BIT :: u32 where "UART0_BIT = push_bit 0 1"

definition demo_registry :: "task_descriptor option list" where
  "demo_registry =
     (replicate MAX_TASKS None)
       [0 := Some (with_capabilities 0 1 0x20000000 4096 0x20001000 0x20002000 UART0_BIT 0 0),
        1 := Some (with_capabilities 1 2 0x20002000 4096 0x20003000 0x20004000 0 0 0),
        2 := Some (with_capabilities 2 3 0x20004000 4096 0x20005000 0x20006000 0 0 UART0_BIT)]"

section \<open>Edges\<close>

text \<open>Slot \<open>i\<close> holds an exclusive peripheral that slot \<open>j\<close> requires.\<close>

definition contends :: "task_descriptor option list \<Rightarrow> nat \<Rightarrow> nat \<Rightarrow> bool" where
  "contends reg i j \<longleftrightarrow>
     i < length reg \<and> j < length reg \<and> i \<noteq> j \<and>
     (case (reg ! i, reg ! j) of
        (Some l, Some h) \<Rightarrow> td_exclusive_cap_mask l AND td_required_cap_mask h \<noteq> 0
      | _ \<Rightarrow> False)"

definition square :: "bool list list \<Rightarrow> bool" where
  "square E \<longleftrightarrow> length E = MAX_TASKS \<and> (\<forall>row \<in> set E. length row = MAX_TASKS)"

lemma square_nth: "square E \<Longrightarrow> i < MAX_TASKS \<Longrightarrow> length (E ! i) = MAX_TASKS"
  by (simp add: square_def)

lemma mark_edge_nth:
  assumes "square E" and "l < MAX_TASKS" and "h < MAX_TASKS" and "length reg = MAX_TASKS" and "l \<noteq> h"
  shows "square (mark_edge reg l h E) \<and>
         (\<forall>i < MAX_TASKS. \<forall>j < MAX_TASKS.
            mark_edge reg l h E ! i ! j \<longleftrightarrow> E ! i ! j \<or> (i = l \<and> j = h \<and> contends reg l h))"
proof -
  have len: "length E = MAX_TASKS" "\<And>i. i < MAX_TASKS \<Longrightarrow> length (E ! i) = MAX_TASKS"
    using assms(1) by (auto simp: square_def)
  have "set (E[l := (E ! l)[h := True]]) \<subseteq> insert ((E ! l)[h := True]) (set E)"
    by (rule set_update_subset_insert)
  then have sq: "square (E[l := (E ! l)[h := True]])"
    using assms len by (auto simp: square_def)
  show ?thesis
    using assms sq len
    by (auto simp: mark_edge_def contends_def nth_list_update split: option.splits)
qed

lemma fold_add_row:
  assumes "square E" and "l < MAX_TASKS" and "length reg = MAX_TASKS"
    and "\<forall>(hi, h) \<in> set hs. h < MAX_TASKS \<and> (hi = li \<longleftrightarrow> h = l)"
  defines "E' \<equiv> fold (\<lambda>(hi, h) E. if li = hi then E else mark_edge reg l h E) hs E"
  shows "square E' \<and>
         (\<forall>i < MAX_TASKS. \<forall>j < MAX_TASKS.
            E' ! i ! j \<longleftrightarrow> E ! i ! j \<or> (i = l \<and> j \<in> snd ` set hs \<and> contends reg l j))"
  using assms(1,4) unfolding E'_def
proof (induction hs arbitrary: E)
  case (Cons x hs)
  obtain hi h where x: "x = (hi, h)" by (cases x)
  define E1 where "E1 = (if li = hi then E else mark_edge reg l h E)"
  have E1: "square E1 \<and> (\<forall>i < MAX_TASKS. \<forall>j < MAX_TASKS.
      E1 ! i ! j \<longleftrightarrow> E ! i ! j \<or> (i = l \<and> j = h \<and> contends reg l h))"
    using mark_edge_nth [OF Cons.prems(1) assms(2) _ assms(3), of h] Cons.prems x
    by (auto simp: E1_def contends_def)
  with Cons.IH [of E1] Cons.prems(2) x show ?case
    by (auto simp: E1_def [symmetric])
qed simp

lemma fold_add_rows:
  assumes "square E" and "length reg = MAX_TASKS"
    and "\<forall>(li, l) \<in> set ls. l < MAX_TASKS \<and>
           (\<forall>(hi, h) \<in> set hs. h < MAX_TASKS \<and> (hi = li \<longleftrightarrow> h = l))"
  defines "E' \<equiv> fold (\<lambda>(li, l). fold (\<lambda>(hi, h) E. if li = hi then E else mark_edge reg l h E) hs) ls E"
  shows "square E' \<and>
         (\<forall>i < MAX_TASKS. \<forall>j < MAX_TASKS.
            E' ! i ! j \<longleftrightarrow> E ! i ! j \<or> (i \<in> snd ` set ls \<and> j \<in> snd ` set hs \<and> contends reg i j))"
  using assms(1,3) unfolding E'_def
proof (induction ls arbitrary: E)
  case (Cons x ls)
  obtain li l where x: "x = (li, l)" by (cases x)
  define E1 where "E1 = fold (\<lambda>(hi, h) E. if li = hi then E else mark_edge reg l h E) hs E"
  have "square E1 \<and> (\<forall>i < MAX_TASKS. \<forall>j < MAX_TASKS.
      E1 ! i ! j \<longleftrightarrow> E ! i ! j \<or> (i = l \<and> j \<in> snd ` set hs \<and> contends reg l j))"
    unfolding E1_def using Cons.prems x by (intro fold_add_row assms(2)) auto
  with Cons.IH [of E1] Cons.prems(2) x show ?case
    by (auto simp: E1_def [symmetric])
qed simp

lemma slots_of_enumerate:
  assumes "x \<in> set (enumerate 0 (slots_of reg))"
  shows "snd x < length reg \<and> reg ! snd x \<noteq> None"
    and "y \<in> set (enumerate 0 (slots_of reg)) \<Longrightarrow> fst x = fst y \<longleftrightarrow> snd x = snd y"
proof -
  have "distinct (slots_of reg)" by (simp add: slots_of_def)
  then show "y \<in> set (enumerate 0 (slots_of reg)) \<Longrightarrow> fst x = fst y \<longleftrightarrow> snd x = snd y"
    using assms by (auto simp: in_set_enumerate_eq) (metis nth_eq_iff_index_eq)
  have "snd x \<in> set (slots_of reg)"
    using assms by (simp add: in_set_enumerate_eq) (metis nth_mem)
  then show "snd x < length reg \<and> reg ! snd x \<noteq> None"
    by (simp add: slots_of_def)
qed

lemma snd_enumerate_indices:
  "snd ` set (enumerate 0 (slots_of reg)) = {i. i < length reg \<and> reg ! i \<noteq> None}"
  unfolding set_map [symmetric] map_snd_enumerate by (auto simp: slots_of_def)

lemma ccg_of_edges:
  assumes "length reg = MAX_TASKS"
  shows "square (ccg_edges (ccg_of reg)) \<and>
         (\<forall>i < MAX_TASKS. \<forall>j < MAX_TASKS. ccg_edges (ccg_of reg) ! i ! j \<longleftrightarrow> contends reg i j)"
proof -
  let ?xs = "enumerate 0 (slots_of reg)"
  have sq: "square (replicate MAX_TASKS (replicate MAX_TASKS False))" by (simp add: square_def)
  have pre: "\<forall>(li, l) \<in> set ?xs. l < MAX_TASKS \<and>
      (\<forall>(hi, h) \<in> set ?xs. h < MAX_TASKS \<and> (hi = li \<longleftrightarrow> h = l))"
    using slots_of_enumerate [of _ reg] assms by fastforce
  have "contends reg i j \<Longrightarrow> i \<in> snd ` set ?xs \<and> j \<in> snd ` set ?xs" for i j
    unfolding snd_enumerate_indices by (auto simp: contends_def split: option.splits)
  with fold_add_rows [OF sq assms pre] show ?thesis
    by (auto simp: ccg_of_def Let_def)
qed

text \<open>The construction on the fixed arrays never leaves them and builds this graph.\<close>

lemma build_indices_slots:
  assumes "length reg \<le> MAX_TASKS"
  shows "build_indices reg =
         Inr (slots_of reg @ replicate (MAX_TASKS - length (slots_of reg)) 0, length (slots_of reg))"
proof -
  let ?f = "\<lambda>(i, slot) (indices, count). if slot \<noteq> None then bind_res (arr_set indices count i)
      (\<lambda>indices'. Inr (indices', count + 1)) else Inr (indices, count)"
  let ?s = "\<lambda>n. filter (\<lambda>i. reg ! i \<noteq> None) [0..<n]"
  have "fold_res ?f (take n (enumerate 0 reg)) (replicate MAX_TASKS 0, 0) =
      Inr (?s n @ replicate (MAX_TASKS - length (?s n)) 0, length (?s n))" if "n \<le> length reg" for n
    using that
  proof (induction n)
    case (Suc n)
    have "length (?s n) \<le> n" using length_filter_le [of _ "[0..<n]"] by simp
    then obtain m where m: "MAX_TASKS - length (?s n) = Suc m" using Suc.prems assms
      by (metis Suc_diff_Suc Suc_le_lessD le_trans order_le_less_trans)
    then have "arr_set (?s n @ replicate (MAX_TASKS - length (?s n)) 0) (length (?s n)) n =
        Inr ((?s n @ [n]) @ replicate m 0)" by (simp add: arr_set_def list_update_append)
    moreover have "take (Suc n) (enumerate 0 reg) = take n (enumerate 0 reg) @ [(n, reg ! n)]"
      using Suc.prems by (simp add: take_Suc_conv_app_nth nth_enumerate_eq)
    moreover have "MAX_TASKS - Suc (length (?s n)) = m" using m by simp
    ultimately show ?case using Suc m by (simp add: fold_res_append)
  qed simp
  from this [of "length reg"] show ?thesis by (simp add: build_indices_def slots_of_def)
qed

lemma add_edge_marks:
  assumes "square E" and "length reg = MAX_TASKS" and "l < MAX_TASKS" and "h < MAX_TASKS"
    and "reg ! l = Some lt" and "reg ! h \<noteq> None"
  shows "add_edge reg lt l h E = Inr (mark_edge reg l h E)"
  using assms square_nth [OF assms(1,3)]
  by (auto simp: add_edge_def mark_edge_def unwrap_slot_def square_def)

lemma ccg_build_total:
  assumes reg: "length reg = MAX_TASKS"
  shows "ccg_build reg = Inr (ccg_of reg)"
proof -
  let ?xs = "enumerate 0 (slots_of reg)"
  let ?row = "\<lambda>li l (hi, h) E. if li = hi then E else mark_edge reg l h E"
  have xs: "l < MAX_TASKS" "reg ! l \<noteq> None" if "(li, l) \<in> set ?xs" for li l
    using slots_of_enumerate(1) [OF that] reg by simp_all
  have row: "fold_res (\<lambda>(hi, h) E. if li = hi then Inr E else add_edge reg t l h E) ?xs E =
      Inr (fold (?row li l) ?xs E) \<and> square (fold (?row li l) ?xs E)"
    if "(li, l) \<in> set ?xs" "reg ! l = Some t" "square E" for li l t E
  proof (rule fold_res_total [where P = square, OF _ that(3)])
    fix x E assume x: "x \<in> set ?xs" and E: "square E"
    obtain hi h where h: "x = (hi, h)" by (cases x)
    have "li = hi \<longleftrightarrow> l = h" using slots_of_enumerate(2) [OF that(1), of "(hi, h)"] x by (simp add: h)
    with add_edge_marks [OF E reg _ _ that(2)] mark_edge_nth [OF E _ _ reg] xs that(1) x E
    show "(case x of (hi, h) \<Rightarrow> \<lambda>E. if li = hi then Inr E else add_edge reg t l h E) E = Inr (?row li l x E) \<and>
        square (?row li l x E)"
      by (auto simp: h)
  qed
  have "fold_res (\<lambda>(li, l) E. bind_res (unwrap_slot reg l) (\<lambda>t.
        fold_res (\<lambda>(hi, h) E. if li = hi then Inr E else add_edge reg t l h E) ?xs E)) ?xs E =
      Inr (fold (\<lambda>(li, l). fold (?row li l) ?xs) ?xs E)" if "square E" for E
  proof (rule conjunct1 [OF fold_res_total [where P = square, OF _ that]])
    fix x E assume x: "x \<in> set ?xs" and E: "square E"
    obtain li l where l: "x = (li, l)" by (cases x)
    obtain t where t: "reg ! l = Some t" using xs(2) x by (auto simp: l)
    have "unwrap_slot reg l = Inr t" using xs(1) x t reg by (auto simp: l unwrap_slot_def)
    with row [OF _ t E, of li] x show "(case x of (li, l) \<Rightarrow> \<lambda>E. bind_res (unwrap_slot reg l) (\<lambda>t.
          fold_res (\<lambda>(hi, h) E. if li = hi then Inr E else add_edge reg t l h E) ?xs E)) E =
        Inr ((case x of (li, l) \<Rightarrow> fold (?row li l) ?xs) E) \<and> square ((case x of (li, l) \<Rightarrow> fold (?row li l) ?xs) E)"
      by (simp add: l)
  qed
  moreover have "square (replicate MAX_TASKS (replicate MAX_TASKS False))" by (simp add: square_def)
  ultimately show ?thesis
    using build_indices_slots [of reg] reg by (simp add: ccg_build_def ccg_of_def Let_def)
qed

lemma ccg_of_has_edge: "length reg = MAX_TASKS \<Longrightarrow> has_edge (ccg_of reg) i j \<longleftrightarrow> contends reg i j"
  using ccg_of_edges [of reg] by (auto simp: has_edge_def contends_def)

text \<open>
  The contention graph has an edge between two registry slots exactly when they are
  different, both hold a task, and the first task holds an exclusive peripheral the second
  requires.
\<close>

theorem ccg_has_edge_iff:
  assumes "length reg = MAX_TASKS"
  shows "\<exists>g. ccg_build reg = Inr g \<and> (has_edge g i j \<longleftrightarrow> contends reg i j)"
  by (simp add: ccg_build_total [OF assms] ccg_of_has_edge [OF assms])

lemma demo_registry_facts:
  "length demo_registry = MAX_TASKS"
  "demo_registry ! 0 = Some (with_capabilities 0 1 0x20000000 4096 0x20001000 0x20002000 1 0 0)"
  "demo_registry ! 2 = Some (with_capabilities 2 3 0x20004000 4096 0x20005000 0x20006000 0 0 1)"
  by (simp_all add: demo_registry_def UART0_BIT_def nth_list_update)

theorem ccg_has_edge_iff_witness:
  "\<exists>g. ccg_build demo_registry = Inr g \<and> has_edge g 0 2 \<and> \<not> has_edge g 2 0"
  using ccg_has_edge_iff [OF demo_registry_facts(1), of 0 2] ccg_has_edge_iff [OF demo_registry_facts(1), of 2 0]
  by (auto simp: contends_def demo_registry_facts with_capabilities_def)

section \<open>Inherited priorities\<close>

definition contention_succs :: "task_descriptor option list \<Rightarrow> nat \<Rightarrow> nat list" where
  "contention_succs reg i = filter (contends reg i) [0..<MAX_TASKS]"

interpretation contention: successor_graph "contention_succs reg" MAX_TASKS for reg
  by unfold_locales (simp add: contention_succs_def)

lemma contention_edge: "length reg = MAX_TASKS \<Longrightarrow> contention.edge reg i j \<longleftrightarrow> contends reg i j"
  by (auto simp: contention.edge_def contention_succs_def contends_def)

lemma successors_build:
  assumes "length reg = MAX_TASKS" and "i < MAX_TASKS"
  shows "successors (ccg_of reg) i = Inr (contention_succs reg i)"
proof -
  have "i < length (ccg_edges (ccg_of reg))"
    using ccg_of_edges [OF assms(1)] assms(2) by (simp add: square_def)
  moreover have "filter (\<lambda>j. ccg_edges (ccg_of reg) ! i ! j) [0..<MAX_TASKS] = contention_succs reg i"
    using ccg_of_edges [OF assms(1)] assms(2) unfolding contention_succs_def
    by (intro filter_cong) auto
  ultimately show ?thesis by (simp add: successors_def)
qed

text \<open>
  The array search follows the abstract one: the live part of the queue array is the work list,
  and the write position counts the visited nodes, so it never leaves the array.
\<close>

definition bfs_rel :: "nat list \<Rightarrow> bool list \<Rightarrow> nat \<Rightarrow> nat \<Rightarrow> nat list \<Rightarrow> bool" where
  "bfs_rel queue visited head tail q \<longleftrightarrow>
     length queue = MAX_TASKS \<and> length visited = MAX_TASKS \<and> head \<le> tail \<and>
     tail + unvisited visited = MAX_TASKS \<and> take (tail - head) (drop head queue) = q"

lemma bfs_visit_fresh:
  assumes "bfs_rel queue visited head tail q" and "succ < MAX_TASKS" and "length reg = MAX_TASKS"
    and "reg ! succ \<noteq> None"
  shows "\<exists>queue' tail'.
           bfs_visit reg succ (queue, visited, tail) =
             Inr (queue', mark (fresh visited [succ]) visited, tail') \<and>
           bfs_rel queue' (mark (fresh visited [succ]) visited) head tail' (q @ fresh visited [succ])"
proof (cases "visited ! succ")
  case True
  with assms show ?thesis by (auto simp: bfs_visit_def bfs_rel_def fresh_def)
next
  case False
  have r: "length queue = MAX_TASKS" "length visited = MAX_TASKS" "head \<le> tail"
    "tail + unvisited visited = MAX_TASKS" "take (tail - head) (drop head queue) = q"
    using assms(1) by (simp_all add: bfs_rel_def)
  have u: "Suc (unvisited (visited[succ := True])) = unvisited visited"
    using False assms(2) r by (intro unvisited_update) auto
  then have tail: "tail < MAX_TASKS" using r(4) by linarith
  have "take (Suc tail - head) (drop head (queue[tail := succ])) = q @ [succ]"
    using r tail by (simp add: Suc_diff_le take_Suc_conv_app_nth drop_update_swap)
  with False assms r u tail show ?thesis
    by (auto simp: bfs_visit_def bfs_rel_def fresh_def)
qed

lemma fold_bfs_visit:
  assumes "bfs_rel queue visited head tail q" and "length reg = MAX_TASKS" and "distinct succs"
    and "\<forall>j \<in> set succs. j < MAX_TASKS \<and> reg ! j \<noteq> None"
  shows "\<exists>queue' tail'.
           fold_res (bfs_visit reg) succs (queue, visited, tail) =
             Inr (queue', mark (fresh visited succs) visited, tail') \<and>
           bfs_rel queue' (mark (fresh visited succs) visited) head tail' (q @ fresh visited succs)"
  using assms(1,3,4)
proof (induction succs arbitrary: queue visited tail q)
  case (Cons j js)
  let ?v = "mark (fresh visited [j]) visited"
  obtain queue1 tail1 where 1:
    "bfs_visit reg j (queue, visited, tail) = Inr (queue1, ?v, tail1)"
    "bfs_rel queue1 ?v head tail1 (q @ fresh visited [j])"
    using bfs_visit_fresh [OF Cons.prems(1) _ assms(2), of j] Cons.prems(3) by auto
  have "fresh ?v js = fresh visited js"
    using Cons.prems(2) by (auto simp: fresh_def nth_list_update intro!: filter_cong)
  moreover have "fresh visited (j # js) = fresh visited [j] @ fresh visited js"
    by (simp add: fresh_def)
  moreover have "mark (xs @ ys) v = mark ys (mark xs v)" for xs ys v
    by (simp add: mark_def)
  ultimately show ?case
    using 1 Cons.IH [OF 1(2)] Cons.prems by auto
qed (simp add: fresh_def)

definition slot_priority :: "task_descriptor option list \<Rightarrow> nat \<Rightarrow> u8" where
  "slot_priority reg i = (case reg ! i of Some t \<Rightarrow> td_priority t | None \<Rightarrow> 0)"

lemma mip_bfs_correct:
  assumes "length reg = MAX_TASKS" and "bfs_rel queue visited head tail q"
    and "\<forall>i \<in> set q. i < MAX_TASKS"
  shows "mip_bfs (ccg_of reg) reg queue visited head tail m =
         Inr (fold (\<lambda>i. max (slot_priority reg i)) (bfs (contention_succs reg) q visited) m)"
  using assms
proof (induction "contention_succs reg" q visited arbitrary: queue head tail m rule: bfs.induct)
  case (1 vis)
  then have "head = tail"
    by (auto simp: bfs_rel_def)
  then show ?case by (subst mip_bfs.simps) simp
next
  case (2 c q vis)
  have c: "c < MAX_TASKS" and r: "bfs_rel queue vis head tail (c # q)" using "2.prems" by auto
  let ?ss = "contention_succs reg c"
  have ss: "distinct ?ss" "\<forall>j \<in> set ?ss. j < MAX_TASKS \<and> reg ! j \<noteq> None"
    by (auto simp: contention_succs_def contends_def split: option.splits)
  have lt: "head < tail" "head < MAX_TASKS" "length queue = MAX_TASKS"
    using r by (auto simp: bfs_rel_def intro: ccontr)
  have hd: "queue ! head = c" "take (tail - Suc head) (drop (Suc head) queue) = q"
    using r lt by (simp_all add: bfs_rel_def take_Cons' split: if_splits)
     (auto simp: Cons_nth_drop_Suc [symmetric] take_Cons')
  obtain queue' tail' where st:
    "fold_res (bfs_visit reg) ?ss (queue, vis, tail) = Inr (queue', mark (fresh vis ?ss) vis, tail')"
    "bfs_rel queue' (mark (fresh vis ?ss) vis) (Suc head) tail' (q @ fresh vis ?ss)"
    using fold_bfs_visit [of queue vis "Suc head" tail q reg ?ss] hd lt r ss "2.prems"(1)
    by (auto simp: bfs_rel_def)
  have "\<forall>i \<in> set (q @ fresh vis ?ss). i < MAX_TASKS"
    using "2.prems"(3) ss by (auto simp: fresh_def)
  with "2.hyps" [OF refl "2.prems"(1)] st lt hd c "2.prems"(1) show ?case
    by (subst mip_bfs.simps)
      (simp add: successors_build bfs_Cons slot_priority_def max.commute
        distinct_remdups_id [OF ss(1)] split: option.splits)
qed

lemma mip_source_correct:
  assumes "length reg = MAX_TASKS" and "i < MAX_TASKS" and "length mip = MAX_TASKS"
  shows "mip_source (ccg_of reg) reg i mip =
         Inr (if reg ! i = None then mip
              else mip[i := contention.best reg (slot_priority reg) i])"
proof (cases "reg ! i")
  case (Some t)
  let ?q = "(replicate MAX_TASKS 0)[0 := i]" and ?v = "(replicate MAX_TASKS False)[i := True]"
  have "Suc (unvisited ?v) = unvisited (replicate MAX_TASKS False)"
    using assms(2) by (intro unvisited_update) simp_all
  then have rel: "bfs_rel ?q ?v 0 1 [i]"
    by (simp add: bfs_rel_def take_Suc hd_conv_nth)
  have "td_priority t = slot_priority reg i" using Some by (simp add: slot_priority_def)
  then have "mip_bfs (ccg_of reg) reg ?q ?v 0 1 (td_priority t) =
      Inr (contention.best reg (slot_priority reg) i)"
    using mip_bfs_correct [OF assms(1) rel, of "td_priority t"] assms(2)
      contention.fold_max_bfs [OF assms(2), of "slot_priority reg" reg]
    by simp
  with Some assms show ?thesis by (simp add: mip_source_def)
qed (use assms in \<open>simp add: mip_source_def\<close>)

definition mip_of :: "task_descriptor option list \<Rightarrow> nat \<Rightarrow> u8" where
  "mip_of reg i = (if reg ! i = None then 0 else contention.best reg (slot_priority reg) i)"

lemma compute_mip_values_correct:
  assumes "length reg = MAX_TASKS"
  shows "compute_mip_values (ccg_of reg) reg = Inr (map (mip_of reg) [0..<MAX_TASKS])"
proof -
  have "fold_res (mip_source (ccg_of reg) reg) [0..<k] (replicate MAX_TASKS 0) =
        Inr (map (mip_of reg) [0..<k] @ replicate (MAX_TASKS - k) 0)" if "k \<le> MAX_TASKS" for k
    using that
  proof (induction k)
    case (Suc k)
    have rep: "replicate (MAX_TASKS - k) (0::u8) = 0 # replicate (MAX_TASKS - Suc k) 0"
      using Suc.prems by (simp flip: Suc_diff_Suc replicate_Suc add: Suc_diff_Suc)
    let ?m = "map (mip_of reg) [0..<k] @ replicate (MAX_TASKS - k) 0"
    have "mip_source (ccg_of reg) reg k ?m = Inr (?m[k := mip_of reg k])"
      using mip_source_correct [OF assms, of k ?m] Suc.prems
      by (auto simp: mip_of_def rep list_update_append)
    with Suc rep show ?case by (simp add: fold_res_append list_update_append)
  qed simp
  from this [of MAX_TASKS] show ?thesis by (simp add: compute_mip_values_def)
qed

text \<open>
  C19: the inherited priority the kernel computes for a registry slot is the highest base
  priority among all tasks reachable from it in the contention graph, the task itself included;
  empty slots get zero. The search always ends and no array access leaves its bounds.
\<close>

theorem mip_values_max_reachable:
  assumes "length reg = MAX_TASKS"
  shows "bind_res (ccg_build reg) (\<lambda>g. compute_mip_values g reg) =
         Inr (map (\<lambda>i. if reg ! i = None then 0
                       else Max (slot_priority reg ` {j. (contends reg)\<^sup>*\<^sup>* i j})) [0..<MAX_TASKS])"
proof -
  have "contention.edge reg = contends reg" using contention_edge [OF assms] by blast
  then show ?thesis
    using compute_mip_values_correct [OF assms]
    by (simp add: ccg_build_total [OF assms] mip_of_def [abs_def] contention.best_def)
qed

theorem mip_values_max_reachable_witness:
  "bind_res (ccg_build demo_registry) (\<lambda>g. compute_mip_values g demo_registry) =
   Inr (map (\<lambda>i. if demo_registry ! i = None then 0
     else Max (slot_priority demo_registry ` {j. (contends demo_registry)\<^sup>*\<^sup>* i j})) [0..<MAX_TASKS])"
  by (rule mip_values_max_reachable [OF demo_registry_facts(1)])

lemma store_mip_nth:
  assumes "length mip = length reg" and "cnt \<le> length reg"
  shows "length (store_mip mip cnt reg) = length reg \<and>
         (\<forall>i < length reg. store_mip mip cnt reg ! i =
            (if i < cnt then map_option (\<lambda>d. d\<lparr>td_max_inherited_priority := mip ! i\<rparr>) (reg ! i)
             else reg ! i))"
  using assms(2)
proof (induction cnt)
  case (Suc k)
  then have k: "k < length reg" by simp
  have "take (Suc k) (enumerate 0 mip) = take k (enumerate 0 mip) @ [(k, mip ! k)]"
    using k assms(1) by (simp add: take_Suc_conv_app_nth nth_enumerate_eq)
  then have "store_mip mip (Suc k) reg =
      (case store_mip mip k reg ! k of
         Some d \<Rightarrow> (store_mip mip k reg)[k := Some (d\<lparr>td_max_inherited_priority := mip ! k\<rparr>)]
       | None \<Rightarrow> store_mip mip k reg)"
    by (simp add: store_mip_def split: option.splits)
  with Suc k show ?case
    by (auto simp: nth_list_update less_Suc_eq split: option.splits)
qed (simp add: store_mip_def)

lemma compute_and_store_mip_correct:
  assumes "table_wf tt"
  shows "\<exists>reg'. bind_res (ccg_build (registry tt)) (\<lambda>g. compute_and_store_mip g tt) = Inr (tt\<lparr>registry := reg'\<rparr>) \<and>
           length reg' = MAX_TASKS \<and>
           (\<forall>i < MAX_TASKS. reg' ! i =
              map_option (\<lambda>d. d\<lparr>td_max_inherited_priority := mip_of (registry tt) i\<rparr>) (registry tt ! i))"
proof -
  have wf: "length (registry tt) = MAX_TASKS" "task_count tt \<le> MAX_TASKS"
    "\<And>i. i < MAX_TASKS \<Longrightarrow> \<not> i < task_count tt \<Longrightarrow> registry tt ! i = None"
    using assms by (auto simp: table_wf_def)
  let ?mip = "map (mip_of (registry tt)) [0..<MAX_TASKS]"
  have "compute_and_store_mip (ccg_of (registry tt)) tt =
        Inr (tt\<lparr>registry := store_mip ?mip (task_count tt) (registry tt)\<rparr>)"
    by (simp add: compute_and_store_mip_def compute_mip_values_correct [OF wf(1)])
  with store_mip_nth [of ?mip "registry tt" "task_count tt"] wf show ?thesis by (auto simp: ccg_build_total)
qed

text \<open>
  The stack-resource-policy ceiling of a peripheral: the highest base priority among the tasks
  that require it (\<open>srp_ceiling\<close> of the scheduler tests).
\<close>

definition srp_ceiling :: "task_descriptor option list \<Rightarrow> u32 \<Rightarrow> u8" where
  "srp_ceiling reg cap =
     foldr max (map td_priority (filter (\<lambda>t. td_required_cap_mask t AND cap \<noteq> 0)
       (map the (filter (\<lambda>s. s \<noteq> None) reg)))) 0"

lemma foldr_max_le: "foldr max xs (0 :: u8) \<le> b \<longleftrightarrow> (\<forall>x \<in> set xs. x \<le> b)"
  by (induction xs) auto

lemma mip_of_ge_waiter:
  assumes "length reg = MAX_TASKS" and "i < MAX_TASKS" and "reg ! i = Some l"
    and "j < MAX_TASKS" and "reg ! j = Some w"
    and "td_exclusive_cap_mask l AND td_required_cap_mask w \<noteq> 0"
  shows "td_priority w \<le> mip_of reg i"
proof -
  have "contention.edge reg i j \<or> i = j"
    using assms by (auto simp: contention_edge contends_def)
  then have "(contention.edge reg)\<^sup>*\<^sup>* i j" by auto
  from contention.best_ge [OF assms(2) this, of "slot_priority reg"] assms show ?thesis
    by (simp add: mip_of_def slot_priority_def)
qed

text \<open>
  C20: the priority a task inherits is at least the stack-resource-policy ceiling of every
  peripheral set it holds exclusively, so no task that requires such a peripheral outranks its
  holder.
\<close>

theorem mip_dominates_srp_ceiling:
  assumes "length reg = MAX_TASKS" and "i < MAX_TASKS" and "reg ! i = Some l"
  shows "\<exists>mip. bind_res (ccg_build reg) (\<lambda>g. compute_mip_values g reg) = Inr mip \<and>
               srp_ceiling reg (td_exclusive_cap_mask l) \<le> mip ! i"
proof -
  have "td_priority w \<le> mip_of reg i"
    if "Some w \<in> set reg" "td_required_cap_mask w AND td_exclusive_cap_mask l \<noteq> 0" for w
    using that mip_of_ge_waiter [OF assms] assms(1) by (auto simp: in_set_conv_nth and.commute)
  then have "srp_ceiling reg (td_exclusive_cap_mask l) \<le> mip_of reg i"
    unfolding srp_ceiling_def foldr_max_le by auto
  with assms(2) show ?thesis by (simp add: ccg_build_total [OF assms(1)] compute_mip_values_correct [OF assms(1)])
qed

theorem mip_dominates_srp_ceiling_witness:
  "\<exists>mip. bind_res (ccg_build demo_registry) (\<lambda>g. compute_mip_values g demo_registry) = Inr mip \<and> 3 \<le> mip ! 0"
proof -
  have "srp_ceiling demo_registry 1 = 3" by code_simp
  with mip_dominates_srp_ceiling [OF demo_registry_facts(1) _ demo_registry_facts(2)]
  show ?thesis by (simp add: with_capabilities_def)
qed

end
