(* ===== verification/Ccg_Generator.thy ===== *)
theory Ccg_Generator
  imports Contention_Graph
begin

text \<open>
  The host-side generator of inherited priorities (\<^verbatim>\<open>kernel/build/ccg_gen.rs\<close>), which the build
  script runs instead of the in-kernel computation, and its agreement with the latter. \<open>Vec\<close> and
  \<open>VecDeque\<close> are lists; indexing is checked.
\<close>

section \<open>Model\<close>

record task_config =
  tc_priority :: u8
  tc_exclusive_cap_mask :: u32
  tc_required_cap_mask :: u32

definition build_edges :: "task_config list \<Rightarrow> bool list list" where
  "build_edges tasks =
     (let n = length tasks in
      fold (\<lambda>(l, t_l). fold (\<lambda>(h, t_h) edges.
          if l \<noteq> h \<and> tc_exclusive_cap_mask t_l AND tc_required_cap_mask t_h \<noteq> 0
          then edges[l := (edges ! l)[h := True]] else edges) (enumerate 0 tasks))
        (enumerate 0 tasks) (replicate n (replicate n False)))"

text \<open>The inner loop over one row of the matrix: mark and enqueue the new successors.\<close>

definition gen_visit :: "nat \<times> bool \<Rightarrow> nat list \<times> bool list \<Rightarrow> (nat list \<times> bool list) res" where
  "gen_visit = (\<lambda>(succ, is_edge) (queue, visited).
     if is_edge then
       bind_res (arr_get visited succ) (\<lambda>seen.
         if \<not> seen
         then bind_res (arr_set visited succ True) (\<lambda>visited'. Inr (queue @ [succ], visited'))
         else Inr (queue, visited))
     else Inr (queue, visited))"

lemma fold_gen_visit_measure:
  assumes "fold_res gen_visit xs (q, v) = Inr (q', v')"
  shows "length q' + unvisited v' = length q + unvisited v"
proof -
  have "(case (q', v') of (r, w) \<Rightarrow> length r + unvisited w = length q + unvisited v)"
  proof (rule fold_res_invariant [OF _ _ assms], goal_cases)
    case (1 x s s')
    obtain r w j e where "s = (r, w)" "x = (j, e)" by (cases s, cases x) auto
    with 1 unvisited_update [of j w] show ?case
      by (auto simp: gen_visit_def arr_get_def arr_set_def bind_res_eq_Inr_iff split: if_splits)
  qed simp
  then show ?thesis by simp
qed

function gen_bfs ::
  "task_config list \<Rightarrow> bool list list \<Rightarrow> nat list \<Rightarrow> bool list \<Rightarrow> u8 \<Rightarrow> u8 res" where
  "gen_bfs tasks edges [] visited mip = Inr mip"
| "gen_bfs tasks edges (cur # queue) visited mip =
     bind_res (arr_get tasks cur) (\<lambda>t.
     bind_res (arr_get edges cur) (\<lambda>row.
     bind_res (fold_res gen_visit (enumerate 0 row) (queue, visited)) (\<lambda>st.
       gen_bfs tasks edges (fst st) (snd st) (max mip (tc_priority t)))))"
  by pat_completeness auto
termination
proof (relation "measure (\<lambda>(tasks, edges, q, v, m). length q + unvisited v)", goal_cases)
  case (2 tasks edges cur queue visited mip t row st)
  then show ?case using fold_gen_visit_measure [of "enumerate 0 row" queue visited "fst st" "snd st"]
    by simp
qed simp

declare gen_bfs.simps(2) [simp del]

definition compute_mip :: "task_config list \<Rightarrow> u8 list res" where
  "compute_mip tasks =
     (let n = length tasks; edges = build_edges tasks in
      fold_res (\<lambda>src mip.
          bind_res (arr_set (replicate n False) src True) (\<lambda>visited.
          bind_res (arr_get mip src) (\<lambda>m.
          bind_res (gen_bfs tasks edges [src] visited m) (\<lambda>m'. arr_set mip src m'))))
        [0..<n] (map tc_priority tasks))"

text \<open>The array \<open>render_ccg_constants\<close> emits: the values, zero-padded to \<open>max_tasks\<close>.\<close>

definition mip_array :: "u8 list \<Rightarrow> nat \<Rightarrow> u8 list" where
  "mip_array mip max_tasks = take max_tasks mip @ replicate (max_tasks - length mip) 0"

section \<open>Edges\<close>

definition gen_edge :: "task_config list \<Rightarrow> nat \<Rightarrow> nat \<Rightarrow> bool" where
  "gen_edge tasks i j \<longleftrightarrow>
     i < length tasks \<and> j < length tasks \<and> i \<noteq> j \<and>
     tc_exclusive_cap_mask (tasks ! i) AND tc_required_cap_mask (tasks ! j) \<noteq> 0"

definition sized :: "nat \<Rightarrow> bool list list \<Rightarrow> bool" where
  "sized n E \<longleftrightarrow> length E = n \<and> (\<forall>i < n. length (E ! i) = n)"

lemma build_edges_row:
  fixes t_l :: task_config and hs :: "(nat \<times> task_config) list"
  assumes "sized n E" and "l < n" and "\<forall>(h, t_h) \<in> set hs. h < n"
  defines "E' \<equiv> fold (\<lambda>(h, t_h) E.
      if l \<noteq> h \<and> tc_exclusive_cap_mask t_l AND tc_required_cap_mask t_h \<noteq> 0
      then E[l := (E ! l)[h := True]] else E) hs E"
  shows "sized n E' \<and> (\<forall>i < n. \<forall>j < n. E' ! i ! j \<longleftrightarrow> E ! i ! j \<or>
           (i = l \<and> i \<noteq> j \<and> (\<exists>t_h. (j, t_h) \<in> set hs \<and>
              tc_exclusive_cap_mask t_l AND tc_required_cap_mask t_h \<noteq> 0)))"
  using assms(1,3) unfolding E'_def
proof (induction hs arbitrary: E)
  case (Cons x hs)
  obtain h t_h where x: "x = (h, t_h)" by (cases x)
  define E1 where "E1 = (if l \<noteq> h \<and> tc_exclusive_cap_mask t_l AND tc_required_cap_mask t_h \<noteq> 0
                         then E[l := (E ! l)[h := True]] else E)"
  have E1: "sized n E1 \<and> (\<forall>i < n. \<forall>j < n. E1 ! i ! j \<longleftrightarrow> E ! i ! j \<or>
      (i = l \<and> i \<noteq> j \<and> j = h \<and> tc_exclusive_cap_mask t_l AND tc_required_cap_mask t_h \<noteq> 0))"
    using Cons.prems assms(2) x by (auto simp: E1_def sized_def nth_list_update)
  with Cons.IH [of E1] Cons.prems(2) x show ?case
    by (auto simp: E1_def [symmetric])
qed simp

lemma build_edges_rows:
  fixes ls hs :: "(nat \<times> task_config) list"
  assumes "sized n E" and "\<forall>(l, t_l) \<in> set ls. l < n" and "\<forall>(h, t_h) \<in> set hs. h < n"
  defines "E' \<equiv> fold (\<lambda>(l, t_l). fold (\<lambda>(h, t_h) E.
      if l \<noteq> h \<and> tc_exclusive_cap_mask t_l AND tc_required_cap_mask t_h \<noteq> 0
      then E[l := (E ! l)[h := True]] else E) hs) ls E"
  shows "sized n E' \<and> (\<forall>i < n. \<forall>j < n. E' ! i ! j \<longleftrightarrow> E ! i ! j \<or>
           (i \<noteq> j \<and> (\<exists>t_l t_h. (i, t_l) \<in> set ls \<and> (j, t_h) \<in> set hs \<and>
              tc_exclusive_cap_mask t_l AND tc_required_cap_mask t_h \<noteq> 0)))"
  using assms(1,2) unfolding E'_def
proof (induction ls arbitrary: E)
  case (Cons x ls)
  obtain l t_l where x: "x = (l, t_l)" by (cases x)
  define E1 where "E1 = fold (\<lambda>(h, t_h) E.
      if l \<noteq> h \<and> tc_exclusive_cap_mask t_l AND tc_required_cap_mask t_h \<noteq> 0
      then E[l := (E ! l)[h := True]] else E) hs E"
  have "sized n E1 \<and> (\<forall>i < n. \<forall>j < n. E1 ! i ! j \<longleftrightarrow> E ! i ! j \<or>
      (i = l \<and> i \<noteq> j \<and> (\<exists>t_h. (j, t_h) \<in> set hs \<and>
         tc_exclusive_cap_mask t_l AND tc_required_cap_mask t_h \<noteq> 0)))"
    unfolding E1_def using Cons.prems x by (intro build_edges_row [OF _ _ assms(3)]) auto
  with Cons.IH [of E1] Cons.prems(2) x show ?case
    by (auto simp: E1_def [symmetric])
qed simp

lemma build_edges_nth:
  "sized (length tasks) (build_edges tasks) \<and>
   (\<forall>i < length tasks. \<forall>j < length tasks. build_edges tasks ! i ! j \<longleftrightarrow> gen_edge tasks i j)"
proof -
  let ?n = "length tasks"
  have mem: "(i, t) \<in> set (enumerate 0 tasks) \<longleftrightarrow> i < ?n \<and> t = tasks ! i" for i t
    by (auto simp: in_set_enumerate_eq)
  have "sized ?n (replicate ?n (replicate ?n False))" by (simp add: sized_def)
  moreover have "\<forall>(l, t) \<in> set (enumerate 0 tasks). l < ?n" using mem by auto
  ultimately show ?thesis
    using build_edges_rows [of ?n "replicate ?n (replicate ?n False)" "enumerate 0 tasks"
        "enumerate 0 tasks"]
    unfolding build_edges_def Let_def mem gen_edge_def by simp
qed

section \<open>The search\<close>

definition gen_succs :: "task_config list \<Rightarrow> nat \<Rightarrow> nat list" where
  "gen_succs tasks i = filter (gen_edge tasks i) [0..<length tasks]"

interpretation generated: successor_graph "gen_succs tasks" "length tasks" for tasks
  by unfold_locales (simp add: gen_succs_def)

lemma generated_edge: "generated.edge tasks = gen_edge tasks"
  by (auto simp: fun_eq_iff generated.edge_def gen_succs_def gen_edge_def)

lemma fold_gen_visit:
  assumes "\<forall>(j, e) \<in> set xs. j < length v" and "distinct (map fst xs)"
  shows "fold_res gen_visit xs (q, v) =
         Inr (q @ fresh v (map fst (filter snd xs)), mark (fresh v (map fst (filter snd xs))) v)"
  using assms
proof (induction xs arbitrary: q v)
  case (Cons x xs)
  obtain j e where x: "x = (j, e)" by (cases x)
  show ?case
  proof (cases "e \<and> \<not> v ! j")
    case True
    have "fresh (v[j := True]) (map fst (filter snd xs)) = fresh v (map fst (filter snd xs))"
      unfolding fresh_def using Cons.prems(2) x
      by (intro filter_cong) (auto simp: nth_list_update image_iff)
    with Cons.IH [of "v[j := True]" "q @ [j]"] Cons.prems x True show ?thesis
      by (simp add: gen_visit_def fresh_def)
  next
    case False
    with Cons.IH [of v q] Cons.prems x show ?thesis
      by (auto simp: gen_visit_def fresh_def)
  qed
qed (simp add: fresh_def)

lemma row_successors:
  assumes "i < length tasks"
  shows "map fst (filter snd (enumerate 0 (build_edges tasks ! i))) = gen_succs tasks i"
proof -
  have len: "length (build_edges tasks ! i) = length tasks"
    using build_edges_nth [of tasks] assms by (simp add: sized_def)
  have "enumerate 0 xs = map (\<lambda>j. (j, xs ! j)) [0..<length xs]" for xs :: "bool list"
    by (rule nth_equalityI) (auto simp: nth_enumerate_eq)
  then show ?thesis
    using build_edges_nth [of tasks] assms
    by (simp add: gen_succs_def filter_map comp_def len) (intro filter_cong, auto)
qed

lemma gen_bfs_correct:
  assumes "length v = length tasks" and "\<forall>i \<in> set q. i < length tasks"
  shows "gen_bfs tasks (build_edges tasks) q v m =
         Inr (fold (\<lambda>i. max (tc_priority (tasks ! i))) (bfs (gen_succs tasks) q v) m)"
  using assms
proof (induction "gen_succs tasks" q v arbitrary: m rule: bfs.induct)
  case (2 c q vis)
  have c: "c < length tasks" using "2.prems" by simp
  let ?row = "build_edges tasks ! c"
  have E: "c < length (build_edges tasks)" "length ?row = length tasks"
    using build_edges_nth [of tasks] c by (simp_all add: sized_def)
  have st: "fold_res gen_visit (enumerate 0 ?row) (q, vis) =
      Inr (q @ fresh vis (gen_succs tasks c), mark (fresh vis (gen_succs tasks c)) vis)"
    using fold_gen_visit [of "enumerate 0 ?row" vis q] row_successors [OF c] E(2) "2.prems"(1)
    by (simp add: in_set_enumerate_eq split_beta map_fst_enumerate)
  have "\<forall>i \<in> set (q @ fresh vis (gen_succs tasks c)). i < length tasks"
    using "2.prems"(2) by (auto simp: fresh_def gen_succs_def)
  moreover have "distinct (gen_succs tasks c)" by (simp add: gen_succs_def)
  ultimately show ?case
    using "2.hyps" [OF refl] st E c "2.prems"(1)
    by (simp add: gen_bfs.simps(2) bfs_Cons max.commute distinct_remdups_id)
qed simp

lemma compute_mip_correct:
  "compute_mip tasks =
   Inr (map (generated.best tasks (\<lambda>i. tc_priority (tasks ! i))) [0..<length tasks])"
proof -
  let ?n = "length tasks" and ?f = "\<lambda>i. tc_priority (tasks ! i)"
  let ?body = "\<lambda>src mip.
      bind_res (arr_set (replicate ?n False) src True) (\<lambda>visited.
      bind_res (arr_get mip src) (\<lambda>m.
      bind_res (gen_bfs tasks (build_edges tasks) [src] visited m) (\<lambda>m'. arr_set mip src m')))"
  have "fold_res ?body [0..<k] (map tc_priority tasks) =
        Inr (map (generated.best tasks ?f) [0..<k] @ map ?f [k..<?n])" if "k \<le> ?n" for k
    using that
  proof (induction k)
    case 0
    have "map tc_priority tasks = map ?f [0..<?n]" by (intro nth_equalityI) auto
    then show ?case by simp
  next
    case (Suc k)
    then have k: "k < ?n" by simp
    have "gen_bfs tasks (build_edges tasks) [k] ((replicate ?n False)[k := True]) (?f k) =
        Inr (generated.best tasks ?f k)"
      using k gen_bfs_correct [of "(replicate ?n False)[k := True]" tasks "[k]"]
        generated.fold_max_bfs [OF k] by simp
    moreover have "[k..<?n] = k # [Suc k..<?n]" using k by (simp add: upt_conv_Cons)
    ultimately show ?case
      using Suc k by (simp add: fold_res_append nth_append list_update_append)
  qed
  from this [of ?n] show ?thesis by (simp add: compute_mip_def)
qed

section \<open>Agreement with the kernel\<close>

text \<open>A registry whose leading slots hold the scheduling fields of a task set, the rest empty.\<close>

definition registry_of :: "task_config list \<Rightarrow> task_descriptor option list \<Rightarrow> bool" where
  "registry_of tasks reg \<longleftrightarrow>
     length reg = MAX_TASKS \<and> length tasks \<le> MAX_TASKS \<and>
     (\<forall>i < MAX_TASKS.
        (case reg ! i of
           None \<Rightarrow> length tasks \<le> i
         | Some d \<Rightarrow> i < length tasks \<and> td_priority d = tc_priority (tasks ! i) \<and>
             td_exclusive_cap_mask d = tc_exclusive_cap_mask (tasks ! i) \<and>
             td_required_cap_mask d = tc_required_cap_mask (tasks ! i)))"

lemma registry_of_slot:
  assumes "registry_of tasks reg" and "i < MAX_TASKS"
  obtains "reg ! i = None" "length tasks \<le> i"
  | d where "reg ! i = Some d" "i < length tasks" "td_priority d = tc_priority (tasks ! i)"
      "td_exclusive_cap_mask d = tc_exclusive_cap_mask (tasks ! i)"
      "td_required_cap_mask d = tc_required_cap_mask (tasks ! i)"
proof -
  have "case reg ! i of
           None \<Rightarrow> length tasks \<le> i
         | Some d \<Rightarrow> i < length tasks \<and> td_priority d = tc_priority (tasks ! i) \<and>
             td_exclusive_cap_mask d = tc_exclusive_cap_mask (tasks ! i) \<and>
             td_required_cap_mask d = tc_required_cap_mask (tasks ! i)"
    using assms by (simp add: registry_of_def)
  with that show thesis by (cases "reg ! i") auto
qed

lemma registry_of_edges:
  assumes "registry_of tasks reg" shows "contends reg = gen_edge tasks"
proof (intro ext)
  fix i j
  have len: "length reg = MAX_TASKS" "length tasks \<le> MAX_TASKS"
    using assms by (simp_all add: registry_of_def)
  show "contends reg i j = gen_edge tasks i j"
  proof (cases "i < MAX_TASKS \<and> j < MAX_TASKS")
    case True
    with len show ?thesis
      by (auto simp: contends_def gen_edge_def elim!: registry_of_slot [OF assms, of i]
          registry_of_slot [OF assms, of j])
  next
    case False
    with len show ?thesis by (auto simp: contends_def gen_edge_def)
  qed
qed

text \<open>
  C21: for every task set of at most \<open>MAX_TASKS\<close> tasks the build-time generator terminates and
  emits exactly the array the in-kernel computation produces for the registered tasks.
\<close>

theorem generator_agrees_with_kernel:
  assumes "registry_of tasks reg"
  shows "\<exists>mip. compute_mip tasks = Inr mip \<and>
               bind_res (ccg_build reg) (\<lambda>g. compute_mip_values g reg) = Inr (mip_array mip MAX_TASKS)"
proof -
  have len: "length reg = MAX_TASKS" "length tasks \<le> MAX_TASKS"
    using assms by (simp_all add: registry_of_def)
  let ?f = "\<lambda>i. tc_priority (tasks ! i)"
  have edge: "contention.edge reg = generated.edge tasks"
    using contention_edge [OF len(1)] registry_of_edges [OF assms]
    by (simp add: fun_eq_iff generated_edge)
  have best: "mip_of reg i = generated.best tasks ?f i" if "i < length tasks" for i
  proof -
    have "slot_priority reg j = ?f j" if "(generated.edge tasks)\<^sup>*\<^sup>* i j" for j
    proof -
      have "j < length tasks" using generated.reach_less [OF that \<open>i < length tasks\<close>] .
      then show ?thesis using len(2)
        by (cases rule: registry_of_slot [OF assms, of j]) (auto simp: slot_priority_def)
    qed
    then have "slot_priority reg ` {j. (generated.edge tasks)\<^sup>*\<^sup>* i j} =
        ?f ` {j. (generated.edge tasks)\<^sup>*\<^sup>* i j}" by (intro image_cong) auto
    moreover have "reg ! i \<noteq> None"
      using that len(2) by (cases rule: registry_of_slot [OF assms, of i]) auto
    ultimately show ?thesis
      by (auto simp: mip_of_def contention.best_def generated.best_def edge)
  qed
  have none: "mip_of reg i = 0" if "length tasks \<le> i" "i < MAX_TASKS" for i
    using that by (cases rule: registry_of_slot [OF assms, of i]) (auto simp: mip_of_def)
  have "map (mip_of reg) [0..<MAX_TASKS] =
      mip_array (map (generated.best tasks ?f) [0..<length tasks]) MAX_TASKS"
    using len(2) best none
    by (intro nth_equalityI) (auto simp: mip_array_def nth_append)
  then show ?thesis
    by (simp add: compute_mip_correct ccg_build_total [OF len(1)] compute_mip_values_correct [OF len(1)])
qed

theorem generator_agrees_with_kernel_witness:
  "\<exists>mip. compute_mip [\<lparr>tc_priority = 1, tc_exclusive_cap_mask = 1, tc_required_cap_mask = 0\<rparr>,
                      \<lparr>tc_priority = 2, tc_exclusive_cap_mask = 0, tc_required_cap_mask = 0\<rparr>,
                      \<lparr>tc_priority = 3, tc_exclusive_cap_mask = 0, tc_required_cap_mask = 1\<rparr>] =
           Inr mip \<and>
         bind_res (ccg_build demo_registry) (\<lambda>g. compute_mip_values g demo_registry) = Inr (mip_array mip MAX_TASKS)"
proof (rule generator_agrees_with_kernel)
  show "registry_of [\<lparr>tc_priority = 1, tc_exclusive_cap_mask = 1, tc_required_cap_mask = 0\<rparr>,
                      \<lparr>tc_priority = 2, tc_exclusive_cap_mask = 0, tc_required_cap_mask = 0\<rparr>,
                      \<lparr>tc_priority = 3, tc_exclusive_cap_mask = 0, tc_required_cap_mask = 1\<rparr>]
         demo_registry"
    by (auto simp: registry_of_def demo_registry_def UART0_BIT_def with_capabilities_def
        nth_list_update nth_Cons' split: if_splits)
qed

end
