(* ===== verification/Cycle_Detection.thy ===== *)
theory Cycle_Detection
  imports Ccg_Generator
begin

text \<open>
  The two cycle detectors: the iterative depth-first search of the kernel (\<open>detect_cycle\<close> of
  \<^verbatim>\<open>kernel/src/scheduler/ccg.rs\<close>) on fixed arrays, and the recursive one of the build-time generator
  (\<open>find_cycle_back_edges\<close> of \<^verbatim>\<open>kernel/build/ccg_gen.rs\<close>). Both rest on the same fact about depth-first
  search: a node that is left without having met a back edge lies on no cycle.
\<close>

section \<open>The iterative search\<close>

text \<open>The scan of the inner loop, which stops at the first edge.\<close>

definition next_edge :: "bool list \<Rightarrow> nat \<Rightarrow> nat option" where
  "next_edge row next_succ = List.find (\<lambda>succ. row ! succ) [next_succ..<MAX_TASKS]"

lemma next_edge_Some:
  assumes "next_edge row k = Some s"
  shows "k \<le> s" "s < MAX_TASKS" "row ! s" "k \<le> j \<Longrightarrow> j < s \<Longrightarrow> \<not> row ! j"
proof -
  obtain i where i: "i < length [k..<MAX_TASKS]" "s = [k..<MAX_TASKS] ! i" "row ! s"
    "\<forall>j < i. \<not> row ! ([k..<MAX_TASKS] ! j)"
    using assms unfolding next_edge_def find_Some_iff by auto
  then have s: "s = k + i" "i < MAX_TASKS - k" by auto
  then show "k \<le> s" "s < MAX_TASKS" "row ! s" using i by auto
  show "\<not> row ! j" if "k \<le> j" "j < s"
    using i(4) [rule_format, of "j - k"] that s by simp
qed

lemma next_edge_None: "next_edge row k = None \<Longrightarrow> k \<le> j \<Longrightarrow> j < MAX_TASKS \<Longrightarrow> \<not> row ! j"
  by (auto simp: next_edge_def find_None_iff)

lemma next_edge_progress: "next_edge row k = Some s \<Longrightarrow> 15 - s < 16 - k"
  using next_edge_Some(1,2) [of row k s] by simp

lemma unvisited_less: "j < length vis \<Longrightarrow> \<not> vis ! j \<Longrightarrow> unvisited (vis[j := True]) < unvisited vis"
  using unvisited_update [of j vis] by simp

function cycle_loop ::
  "ccg \<Rightarrow> bool list \<Rightarrow> bool list \<Rightarrow> (nat \<times> nat) list \<Rightarrow> nat \<Rightarrow>
   ((nat \<times> nat) option \<times> bool list \<times> bool list) res" where
  "cycle_loop g visited rec_stack dfs depth =
     bind_res (arr_get dfs depth) (\<lambda>e.
     bind_res (arr_get (ccg_edges g) (fst e)) (\<lambda>row.
       case next_edge row (snd e) of
         Some succ \<Rightarrow>
           bind_res (arr_set dfs depth (fst e, succ + 1)) (\<lambda>dfs1.
           bind_res (arr_get rec_stack succ) (\<lambda>on_path.
             if on_path then Inr (Some (fst e, succ), visited, rec_stack)
             else
               bind_res (arr_get visited succ) (\<lambda>seen.
                 if \<not> seen then
                   bind_res (arr_set visited succ True) (\<lambda>visited1.
                   bind_res (arr_set rec_stack succ True) (\<lambda>rec1.
                   bind_res (arr_set dfs1 (depth + 1) (succ, 0)) (\<lambda>dfs2.
                     cycle_loop g visited1 rec1 dfs2 (depth + 1))))
                 else cycle_loop g visited rec_stack dfs1 depth)))
       | None \<Rightarrow>
           bind_res (arr_set rec_stack (fst e) False) (\<lambda>rec1.
             if depth = 0 then Inr (None, visited, rec1)
             else cycle_loop g visited rec1 dfs (depth - 1))))"
  by pat_completeness auto
termination
  by (relation "measures [\<lambda>(g, v, r, d, n). unvisited v, \<lambda>(g, v, r, d, n). n,
        \<lambda>(g, v, r, d, n). MAX_TASKS - snd (d ! n)]")
    (auto simp: arr_get_def arr_set_def unvisited_less next_edge_progress split: if_splits)

declare cycle_loop.simps [simp del]

fun detect_from :: "ccg \<Rightarrow> nat list \<Rightarrow> bool list \<Rightarrow> bool list \<Rightarrow> (nat \<times> nat) option res" where
  "detect_from g [] visited rec_stack = Inr None"
| "detect_from g (start # starts) visited rec_stack =
     bind_res (arr_get visited start) (\<lambda>seen.
       if seen then detect_from g starts visited rec_stack
       else
         bind_res (arr_set (replicate MAX_TASKS (0, 0)) 0 (start, 0)) (\<lambda>dfs.
         bind_res (arr_set visited start True) (\<lambda>visited1.
         bind_res (arr_set rec_stack start True) (\<lambda>rec1.
         bind_res (cycle_loop g visited1 rec1 dfs 0) (\<lambda>(found, visited2, rec2).
           case found of Some e \<Rightarrow> Inr (Some e) | None \<Rightarrow> detect_from g starts visited2 rec2)))))"

definition detect_cycle :: "ccg \<Rightarrow> (nat \<times> nat) option res" where
  "detect_cycle g =
     detect_from g [0..<ccg_task_count g] (replicate MAX_TASKS False) (replicate MAX_TASKS False)"

section \<open>The recursive search\<close>

text \<open>Visited flags, flags of the nodes on the call stack, and the back edges found so far.\<close>

type_synonym dfs_state = "bool list \<times> bool list \<times> (nat \<times> nat) list"

definition dfs_enter :: "nat \<Rightarrow> dfs_state \<Rightarrow> dfs_state res" where
  "dfs_enter u = (\<lambda>(visited, on_stack, out).
     bind_res (arr_set visited u True) (\<lambda>visited1.
     bind_res (arr_set on_stack u True) (\<lambda>on_stack1. Inr (visited1, on_stack1, out))))"

definition dfs_leave :: "nat \<Rightarrow> dfs_state \<Rightarrow> dfs_state res" where
  "dfs_leave u = (\<lambda>(visited, on_stack, out).
     bind_res (arr_set on_stack u False) (\<lambda>on_stack1. Inr (visited, on_stack1, out)))"

text \<open>The loop of \<open>dfs\<close> over the targets \<open>v\<close> of \<open>u\<close>, with the recursive call inlined.\<close>

function dfs_scan :: "bool list list \<Rightarrow> nat \<Rightarrow> nat \<Rightarrow> dfs_state \<Rightarrow> dfs_state res" where
  "dfs_scan edges u v st =
     bind_res (arr_get edges u) (\<lambda>row.
       if v < length row then
         if \<not> row ! v then dfs_scan edges u (v + 1) st
         else
           bind_res (arr_get (fst st) v) (\<lambda>seen.
             if \<not> seen then
               bind_res (dfs_enter v st) (\<lambda>st1.
               bind_res (dfs_scan edges v 0 st1) (\<lambda>st2.
               bind_res (dfs_leave v st2) (\<lambda>st3. dfs_scan edges u (v + 1) st3)))
             else
               bind_res (arr_get (fst (snd st)) v) (\<lambda>on_path.
                 dfs_scan edges u (v + 1)
                   (if on_path then (fst st, fst (snd st), snd (snd st) @ [(u, v)]) else st)))
       else Inr st)"
  by pat_completeness auto

lemma dfs_enter_unvisited:
  assumes "dfs_enter v st = Inr st1" and "arr_get (fst st) v = Inr False"
  shows "unvisited (fst st1) < unvisited (fst st)"
  using assms unvisited_update [of v "fst st"]
  by (cases st) (auto simp: dfs_enter_def arr_get_def arr_set_def bind_res_eq_Inr_iff split: if_splits)

lemma dfs_leave_visited: "dfs_leave v st = Inr st1 \<Longrightarrow> fst st1 = fst st"
  by (cases st) (auto simp: dfs_leave_def bind_res_eq_Inr_iff)

lemma dfs_scan_unvisited:
  assumes "dfs_scan_dom (edges, u, v, st)" and "dfs_scan edges u v st = Inr st'"
  shows "unvisited (fst st') \<le> unvisited (fst st)"
  using assms
proof (induction edges u v st arbitrary: st' rule: dfs_scan.pinduct)
  case (1 edges u v st)
  note step = "1.prems" [unfolded dfs_scan.psimps [OF "1.hyps"]]
  then obtain row where row: "arr_get edges u = Inr row" by (rule bind_res_InrE)
  show ?case
  proof (cases "v < length row \<and> row ! v")
    case False
    with step row "1.IH"(1) [OF row] show ?thesis by (auto split: if_splits)
  next
    case True
    with step row obtain seen where seen: "arr_get (fst st) v = Inr seen" by (auto simp: bind_res_eq_Inr_iff)
    show ?thesis
    proof (cases seen)
      case False
      with step row True seen obtain st1 st2 st3 where s: "dfs_enter v st = Inr st1"
        "dfs_scan edges v 0 st1 = Inr st2" "dfs_leave v st2 = Inr st3" "dfs_scan edges u (v + 1) st3 = Inr st'"
        by (auto simp: bind_res_eq_Inr_iff)
      have "unvisited (fst st2) \<le> unvisited (fst st1)"
        using "1.IH"(2) [OF row _ _ seen _ s(1,2)] True False by simp
      moreover have "unvisited (fst st') \<le> unvisited (fst st3)"
        using "1.IH"(3) [OF row _ _ seen _ s(1,2,3,4)] True False by simp
      ultimately show ?thesis
        using dfs_enter_unvisited [OF s(1)] seen False dfs_leave_visited [OF s(3)] by simp
    next
      case seenT: True
      with step row True seen obtain on_path where on: "arr_get (fst (snd st)) v = Inr on_path"
        "dfs_scan edges u (v + 1)
           (if on_path then (fst st, fst (snd st), snd (snd st) @ [(u, v)]) else st) = Inr st'"
        by (auto simp: bind_res_eq_Inr_iff)
      from "1.IH"(4) [OF row _ _ seen _ on] True seenT show ?thesis by (simp split: if_splits)
    qed
  qed
qed

termination dfs_scan
proof (relation "measures [\<lambda>(edges, u, v, st). unvisited (fst st), \<lambda>(edges, u, v, st). length (edges ! u) - v]",
    goal_cases)
  case (4 edges u v st row seen st1 st2 st3)
  then have "unvisited (fst st2) \<le> unvisited (fst st1)" by (intro dfs_scan_unvisited) auto
  with 4 dfs_enter_unvisited [of v st st1] dfs_leave_visited [of v st2 st3] show ?case by simp
qed (auto simp: arr_get_def dest: dfs_enter_unvisited split: if_splits)

declare dfs_scan.simps [simp del]

definition dfs_visit :: "bool list list \<Rightarrow> nat \<Rightarrow> dfs_state \<Rightarrow> dfs_state res" where
  "dfs_visit edges u st =
     bind_res (dfs_enter u st) (\<lambda>st1. bind_res (dfs_scan edges u 0 st1) (dfs_leave u))"

definition find_cycle_back_edges :: "task_config list \<Rightarrow> (nat \<times> nat) list res" where
  "find_cycle_back_edges tasks =
     (let n = length tasks; edges = build_edges tasks in
      bind_res (fold_res (\<lambda>start st.
          bind_res (arr_get (fst st) start) (\<lambda>seen. if \<not> seen then dfs_visit edges start st else Inr st))
        [0..<n] (replicate n False, replicate n False, [])) (\<lambda>st. Inr (snd (snd st))))"

section \<open>Left nodes\<close>

context successor_graph
begin

text \<open>A set without a way out and without a cycle.\<close>

definition clean :: "nat set \<Rightarrow> bool" where
  "clean F \<longleftrightarrow> (\<forall>i \<in> F. \<forall>j. edge i j \<longrightarrow> j \<in> F) \<and> (\<forall>i \<in> F. \<not> edge\<^sup>+\<^sup>+ i i)"

lemma clean_reach:
  assumes "clean F" and "edge\<^sup>*\<^sup>* i j" and "i \<in> F"
  shows "j \<in> F"
  using assms(2,3) by (induction rule: rtranclp_induct) (use assms(1) in \<open>auto simp: clean_def\<close>)

lemma clean_insert:
  assumes "clean F" and "\<And>j. edge u j \<Longrightarrow> j \<in> F" and "u \<notin> F"
  shows "clean (insert u F)"
proof -
  have "\<not> edge\<^sup>+\<^sup>+ u u"
  proof
    assume "edge\<^sup>+\<^sup>+ u u"
    then obtain j where "edge u j" "edge\<^sup>*\<^sup>* j u" by (meson tranclpD)
    with assms clean_reach show False by blast
  qed
  with assms(1,2) show ?thesis by (auto simp: clean_def)
qed

lemma clean_empty [simp]: "clean {}"
  by (simp add: clean_def)

lemma clean_all: "clean {..<n} \<Longrightarrow> \<not> edge\<^sup>+\<^sup>+ i i" if "\<And>i j. edge i j \<Longrightarrow> i < n"
proof
  assume "clean {..<n}" "edge\<^sup>+\<^sup>+ i i"
  moreover have "i < n" using that \<open>edge\<^sup>+\<^sup>+ i i\<close> by (meson tranclpD)
  ultimately show False by (simp add: clean_def)
qed

text \<open>
  A search path, deepest node first. Each node comes with the first target not yet tried; the tried
  ones are left nodes or the next node of the path.
\<close>

fun path_ok :: "nat set \<Rightarrow> nat option \<Rightarrow> (nat \<times> nat) list \<Rightarrow> bool" where
  "path_ok F ab [] \<longleftrightarrow> True"
| "path_ok F ab ((u, k) # ss) \<longleftrightarrow>
     (\<forall>j < k. edge u j \<longrightarrow> j \<in> F \<or> ab = Some j) \<and> (\<forall>a. ab = Some a \<longrightarrow> edge u a) \<and>
     path_ok F (Some u) ss"

lemma path_ok_mono: "path_ok F ab ss \<Longrightarrow> F \<subseteq> F' \<Longrightarrow> path_ok F' ab ss"
proof (induction ss arbitrary: ab)
  case (Cons x ss)
  then show ?case by (cases x) (simp, blast)
qed simp

lemma path_ok_reach: "path_ok F (Some a) ss \<Longrightarrow> u \<in> fst ` set ss \<Longrightarrow> edge\<^sup>+\<^sup>+ u a"
proof (induction ss arbitrary: a)
  case (Cons x ss)
  obtain w k where x: "x = (w, k)" by (cases x)
  then have w: "edge w a" "path_ok F (Some w) ss" using Cons.prems(1) by auto
  show ?case
  proof (cases "u = w")
    case False
    then have "edge\<^sup>+\<^sup>+ u w" using Cons.IH [OF w(2)] Cons.prems(2) x by auto
    then show ?thesis using w(1) by (rule tranclp.trancl_into_trancl)
  qed (use w in blast)
qed simp

lemma path_ok_back:
  assumes "path_ok F None ((u, k) # ss)" and "edge u s" and "s \<in> fst ` set ((u, k) # ss)"
  shows "edge\<^sup>*\<^sup>* s u"
  using assms path_ok_reach [of F u ss s] by (auto dest: tranclp_into_rtranclp)

lemma path_ok_push:
  assumes "path_ok F None ((u, k) # ss)" and "edge u s" and "\<And>j. k \<le> j \<Longrightarrow> j < s \<Longrightarrow> \<not> edge u j"
  shows "path_ok F None ((s, 0) # (u, Suc s) # ss)"
proof -
  have "\<forall>j < Suc s. edge u j \<longrightarrow> j \<in> F \<or> j = s"
    using assms by (auto simp: less_Suc_eq) (meson not_less)
  then show ?thesis using assms(1,2) by auto
qed

lemma path_ok_skip:
  assumes "path_ok F None ((u, k) # ss)" and "s \<in> F" and "\<And>j. k \<le> j \<Longrightarrow> j < s \<Longrightarrow> \<not> edge u j"
  shows "path_ok F None ((u, Suc s) # ss)"
proof -
  have "\<forall>j < Suc s. edge u j \<longrightarrow> j \<in> F"
    using assms by (auto simp: less_Suc_eq) (meson not_less)
  then show ?thesis using assms(1) by auto
qed

lemma path_ok_pop:
  assumes "path_ok F None ((u, k) # ss)"
  shows "path_ok (insert u F) None ss"
proof (cases ss)
  case (Cons x ss')
  then show ?thesis using assms path_ok_mono [of F _ ss' "insert u F"] by (cases x) auto
qed simp

lemma path_ok_leave:
  assumes "path_ok F None ((u, k) # ss)" and "clean F" and "u \<notin> F" and "\<And>j. k \<le> j \<Longrightarrow> \<not> edge u j"
  shows "clean (insert u F)"
proof (rule clean_insert [OF assms(2) _ assms(3)])
  fix j assume "edge u j"
  then show "j \<in> F" using assms(1,4) by (cases "j < k") auto
qed

end

section \<open>The kernel's detector\<close>

definition left_nodes :: "bool list \<Rightarrow> bool list \<Rightarrow> nat set" where
  "left_nodes visited rec_stack = {i. i < MAX_TASKS \<and> visited ! i \<and> \<not> rec_stack ! i}"

definition cycle_inv ::
  "task_descriptor option list \<Rightarrow> bool list \<Rightarrow> bool list \<Rightarrow> (nat \<times> nat) list \<Rightarrow> nat \<Rightarrow> bool" where
  "cycle_inv reg visited rec_stack dfs depth \<longleftrightarrow>
     length visited = MAX_TASKS \<and> length rec_stack = MAX_TASKS \<and> length dfs = MAX_TASKS \<and> depth < MAX_TASKS \<and>
     distinct (map fst (take (Suc depth) dfs)) \<and>
     (\<forall>i < MAX_TASKS. rec_stack ! i \<longleftrightarrow> i \<in> fst ` set (take (Suc depth) dfs)) \<and>
     fst ` set (take (Suc depth) dfs) \<subseteq> {i. i < MAX_TASKS \<and> visited ! i} \<and>
     contention.path_ok reg (left_nodes visited rec_stack) None (rev (take (Suc depth) dfs)) \<and>
     contention.clean reg (left_nodes visited rec_stack)"

lemma rev_take_Suc: "n < length xs \<Longrightarrow> rev (take (Suc n) xs) = xs ! n # rev (take n xs)"
  by (simp add: take_Suc_conv_app_nth)

lemma left_nodes_push:
  "length visited = MAX_TASKS \<Longrightarrow> length rec_stack = MAX_TASKS \<Longrightarrow> s < MAX_TASKS \<Longrightarrow> \<not> visited ! s \<Longrightarrow>
   left_nodes (visited[s := True]) (rec_stack[s := True]) = left_nodes visited rec_stack"
  by (auto simp: left_nodes_def nth_list_update)

lemma left_nodes_pop:
  "u < MAX_TASKS \<Longrightarrow> length rec_stack = MAX_TASKS \<Longrightarrow> visited ! u \<Longrightarrow>
   left_nodes visited (rec_stack[u := False]) = insert u (left_nodes visited rec_stack)"
  by (auto simp: left_nodes_def nth_list_update split: if_splits)

lemma cycle_inv_path:
  assumes "cycle_inv reg visited rec_stack dfs depth" and "dfs ! depth = (u, k)"
  shows "take (Suc depth) dfs = take depth dfs @ [(u, k)]"
    and "contention.path_ok reg (left_nodes visited rec_stack) None ((u, k) # rev (take depth dfs))"
    and "contention.clean reg (left_nodes visited rec_stack)"
    and "u < MAX_TASKS" and "visited ! u" and "rec_stack ! u"
proof -
  show path: "take (Suc depth) dfs = take depth dfs @ [(u, k)]"
    using assms by (simp add: cycle_inv_def take_Suc_conv_app_nth)
  have inv: "contention.path_ok reg (left_nodes visited rec_stack) None (rev (take (Suc depth) dfs))"
    using assms(1) unfolding cycle_inv_def by blast
  from this [unfolded path]
  show "contention.path_ok reg (left_nodes visited rec_stack) None ((u, k) # rev (take depth dfs))"
    by (simp only: rev_append rev.simps append.simps)
  show "contention.clean reg (left_nodes visited rec_stack)" using assms(1) unfolding cycle_inv_def by blast
  show "u < MAX_TASKS" "visited ! u" "rec_stack ! u" using assms path by (auto simp: cycle_inv_def)
qed

lemma cycle_inv_push:
  assumes inv: "cycle_inv reg visited rec_stack dfs depth" and e: "dfs ! depth = (u, k)"
    and s: "s < MAX_TASKS" "\<not> visited ! s" "contention.edge reg u s"
    and tried: "\<And>j. k \<le> j \<Longrightarrow> j < s \<Longrightarrow> \<not> contention.edge reg u j"
  shows "depth + 1 < MAX_TASKS"
    and "cycle_inv reg (visited[s := True]) (rec_stack[s := True])
           (dfs[depth := (u, s + 1), depth + 1 := (s, 0)]) (depth + 1)"
proof -
  let ?path = "take (Suc depth) dfs"
  have len: "length visited = MAX_TASKS" "length rec_stack = MAX_TASKS" "length dfs = MAX_TASKS" "depth < MAX_TASKS"
    using inv by (simp_all add: cycle_inv_def)
  have sub: "fst ` set ?path \<subseteq> {i. i < MAX_TASKS \<and> visited ! i}" and dist: "distinct (map fst ?path)"
    using inv by (simp_all add: cycle_inv_def)
  have new: "s \<notin> fst ` set ?path" using sub s(2) by auto
  have "card (insert s (fst ` set ?path)) \<le> card {..<MAX_TASKS}"
    by (rule card_mono) (use sub s(1) in auto)
  moreover have "card (fst ` set ?path) = Suc depth"
    using distinct_card [OF dist] len by simp
  ultimately show d: "depth + 1 < MAX_TASKS" using new by simp
  let ?dfs = "dfs[depth := (u, s + 1), depth + 1 := (s, 0)]"
  have path: "take (Suc (depth + 1)) ?dfs = take depth dfs @ [(u, s + 1), (s, 0)]"
    using len d by (simp add: take_Suc_conv_app_nth)
  have old: "?path = take depth dfs @ [(u, k)]" using len e by (simp add: take_Suc_conv_app_nth)
  have "contention.path_ok reg (left_nodes visited rec_stack) None ((s, 0) # (u, Suc s) # rev (take depth dfs))"
    by (rule contention.path_ok_push [OF _ s(3) tried]) (use inv old in \<open>simp_all add: cycle_inv_def\<close>)
  then show "cycle_inv reg (visited[s := True]) (rec_stack[s := True]) ?dfs (depth + 1)"
    unfolding cycle_inv_def path left_nodes_push [OF len(1,2) s(1,2)]
    using inv old len d s new by (auto simp: cycle_inv_def nth_list_update)
qed

lemma cycle_inv_skip:
  assumes inv: "cycle_inv reg visited rec_stack dfs depth" and e: "dfs ! depth = (u, k)"
    and s: "s < MAX_TASKS" "visited ! s" "\<not> rec_stack ! s"
    and tried: "\<And>j. k \<le> j \<Longrightarrow> j < s \<Longrightarrow> \<not> contention.edge reg u j"
  shows "cycle_inv reg visited rec_stack (dfs[depth := (u, s + 1)]) depth"
proof -
  note old = cycle_inv_path [OF inv e]
  have path: "take (Suc depth) (dfs[depth := (u, s + 1)]) = take depth dfs @ [(u, s + 1)]"
    using inv by (simp add: cycle_inv_def take_Suc_conv_app_nth)
  have "s \<in> left_nodes visited rec_stack" using s by (simp add: left_nodes_def)
  from contention.path_ok_skip [OF old(2) this tried] show ?thesis
    using inv old(1) path by (simp add: cycle_inv_def del: contention.path_ok.simps)
qed

lemma cycle_inv_pop:
  assumes inv: "cycle_inv reg visited rec_stack dfs depth" and e: "dfs ! depth = (u, k)"
    and tried: "\<And>j. k \<le> j \<Longrightarrow> \<not> contention.edge reg u j"
  shows "contention.clean reg (left_nodes visited (rec_stack[u := False]))"
    and "depth \<noteq> 0 \<Longrightarrow> cycle_inv reg visited (rec_stack[u := False]) dfs (depth - 1)"
    and "depth = 0 \<Longrightarrow> i < MAX_TASKS \<Longrightarrow> \<not> rec_stack[u := False] ! i"
proof -
  note old = cycle_inv_path [OF inv e]
  have len: "length rec_stack = MAX_TASKS" "u \<notin> fst ` set (take depth dfs)"
    using inv old(1) by (simp_all add: cycle_inv_def)
  note left = left_nodes_pop [OF old(4) len(1) old(5)]
  have "u \<notin> left_nodes visited rec_stack" using old(6) by (simp add: left_nodes_def)
  from contention.path_ok_leave [OF old(2,3) this tried]
  show clean: "contention.clean reg (left_nodes visited (rec_stack[u := False]))" unfolding left .
  show "cycle_inv reg visited (rec_stack[u := False]) dfs (depth - 1)" if "depth \<noteq> 0"
  proof -
    have d: "Suc (depth - 1) = depth" using that by simp
    show ?thesis
      unfolding cycle_inv_def d using contention.path_ok_pop [OF old(2)] clean inv old(1) len
      by (auto simp: cycle_inv_def left nth_list_update)
  qed
  show "\<not> rec_stack[u := False] ! i" if "depth = 0" "i < MAX_TASKS"
    using that inv old(1,4) len by (auto simp: cycle_inv_def nth_list_update)
qed

definition closes_cycle :: "task_descriptor option list \<Rightarrow> nat \<times> nat \<Rightarrow> bool" where
  "closes_cycle reg = (\<lambda>(u, v). contends reg u v \<and> (contends reg)\<^sup>*\<^sup>* v u)"

lemma contention_edge_eq: "length reg = MAX_TASKS \<Longrightarrow> contention.edge reg = contends reg"
  by (simp add: fun_eq_iff contention_edge)

text \<open>What a finished search says, and the order in which its iterations come closer to the end.\<close>

definition cycle_outcome ::
  "task_descriptor option list \<Rightarrow> bool list \<Rightarrow> (nat \<times> nat) option \<Rightarrow> bool list \<Rightarrow> bool list \<Rightarrow> bool" where
  "cycle_outcome reg visited found v r \<longleftrightarrow>
     (case found of
        Some e \<Rightarrow> closes_cycle reg e
      | None \<Rightarrow> length v = MAX_TASKS \<and> length r = MAX_TASKS \<and> (\<forall>i < MAX_TASKS. \<not> r ! i) \<and>
          contention.clean reg (left_nodes v r) \<and> (\<forall>i < MAX_TASKS. visited ! i \<longrightarrow> v ! i))"

definition cycle_order :: "((bool list \<times> (nat \<times> nat) list \<times> nat) \<times> (bool list \<times> (nat \<times> nat) list \<times> nat)) set" where
  "cycle_order = measures [\<lambda>(v, d, n). unvisited v, \<lambda>(v, d, n). n, \<lambda>(v, d, n). MAX_TASKS - snd (d ! n)]"

lemma cycle_outcome_grows:
  "cycle_outcome reg v found v' r \<Longrightarrow> \<forall>i < MAX_TASKS. visited ! i \<longrightarrow> v ! i \<Longrightarrow> cycle_outcome reg visited found v' r"
  by (auto simp: cycle_outcome_def split: option.splits)

lemma cycle_row:
  assumes "length reg = MAX_TASKS" and "cycle_inv reg visited rec_stack dfs depth" and "dfs ! depth = (u, k)"
  shows "arr_get dfs depth = Inr (u, k)"
    and "arr_get (ccg_edges (ccg_of reg)) u = Inr (ccg_edges (ccg_of reg) ! u)"
    and "j < MAX_TASKS \<Longrightarrow> ccg_edges (ccg_of reg) ! u ! j \<longleftrightarrow> contention.edge reg u j"
  using assms cycle_inv_path(4) [OF assms(2,3)] ccg_of_edges [OF assms(1)]
  by (auto simp: cycle_inv_def square_def contention_edge_eq)

text \<open>An iteration that finds no further edge leaves the node on top of the stack.\<close>

lemma cycle_iteration_pop:
  assumes reg: "length reg = MAX_TASKS" and inv: "cycle_inv reg visited rec_stack dfs depth"
    and e: "dfs ! depth = (u, k)" and none: "next_edge (ccg_edges (ccg_of reg) ! u) k = None"
  shows "if depth = 0
         then cycle_loop (ccg_of reg) visited rec_stack dfs depth = Inr (None, visited, rec_stack[u := False]) \<and>
              cycle_outcome reg visited None visited (rec_stack[u := False])
         else cycle_loop (ccg_of reg) visited rec_stack dfs depth =
                cycle_loop (ccg_of reg) visited (rec_stack[u := False]) dfs (depth - 1) \<and>
              cycle_inv reg visited (rec_stack[u := False]) dfs (depth - 1)"
proof -
  note row = cycle_row [OF reg inv e] and u = cycle_inv_path(4) [OF inv e]
  have len: "length visited = MAX_TASKS" "length rec_stack = MAX_TASKS" using inv by (simp_all add: cycle_inv_def)
  have "contention.edge reg u j \<Longrightarrow> j < MAX_TASKS" for j
    using contention_edge_eq [OF reg] reg by (simp add: contends_def)
  then have tried: "\<not> contention.edge reg u j" if "k \<le> j" for j
    using next_edge_None [OF none that] row(3) by blast
  have "cycle_loop (ccg_of reg) visited rec_stack dfs depth =
      (if depth = 0 then Inr (None, visited, rec_stack[u := False])
       else cycle_loop (ccg_of reg) visited (rec_stack[u := False]) dfs (depth - 1))"
    using len u row none by (subst cycle_loop.simps) simp
  with cycle_inv_pop [OF inv e tried] len show ?thesis by (cases "depth = 0") (simp_all add: cycle_outcome_def)
qed

text \<open>An iteration that finds an edge reports it, passes over it, or enters its target.\<close>

lemma cycle_iteration_edge:
  assumes reg: "length reg = MAX_TASKS" and inv: "cycle_inv reg visited rec_stack dfs depth"
    and e: "dfs ! depth = (u, k)" and edge: "next_edge (ccg_edges (ccg_of reg) ! u) k = Some s"
  obtains "cycle_loop (ccg_of reg) visited rec_stack dfs depth = Inr (Some (u, s), visited, rec_stack)"
      "closes_cycle reg (u, s)"
  | "cycle_loop (ccg_of reg) visited rec_stack dfs depth =
       cycle_loop (ccg_of reg) visited rec_stack (dfs[depth := (u, s + 1)]) depth"
      "cycle_inv reg visited rec_stack (dfs[depth := (u, s + 1)]) depth"
  | "\<not> visited ! s" "cycle_loop (ccg_of reg) visited rec_stack dfs depth =
       cycle_loop (ccg_of reg) (visited[s := True]) (rec_stack[s := True])
         (dfs[depth := (u, s + 1), depth + 1 := (s, 0)]) (depth + 1)"
      "cycle_inv reg (visited[s := True]) (rec_stack[s := True])
         (dfs[depth := (u, s + 1), depth + 1 := (s, 0)]) (depth + 1)"
proof -
  note row = cycle_row [OF reg inv e] and s = next_edge_Some [OF edge] and path = cycle_inv_path [OF inv e]
  have len: "length visited = MAX_TASKS" "length rec_stack = MAX_TASKS" "length dfs = MAX_TASKS" "depth < MAX_TASKS"
    using inv by (simp_all add: cycle_inv_def)
  have us: "contention.edge reg u s" using s row(3) by blast
  have tried: "\<not> contention.edge reg u j" if "k \<le> j" "j < s" for j
    using s(4) [OF that] row(3) [of j] s(2) that by simp
  consider "rec_stack ! s" | "\<not> rec_stack ! s" "visited ! s" | "\<not> visited ! s" "\<not> rec_stack ! s"
    by blast
  then show thesis
  proof cases
    case 1
    then have "s \<in> fst ` set ((u, k) # rev (take depth dfs))" using inv path(1) s(2) by (auto simp: cycle_inv_def)
    from contention.path_ok_back [OF path(2) us this] us have "closes_cycle reg (u, s)"
      by (simp add: closes_cycle_def contention_edge_eq [OF reg])
    moreover have "cycle_loop (ccg_of reg) visited rec_stack dfs depth = Inr (Some (u, s), visited, rec_stack)"
      using 1 len row edge s(2) by (subst cycle_loop.simps) simp
    ultimately show thesis using that(1) by blast
  next
    case 2
    have "cycle_loop (ccg_of reg) visited rec_stack dfs depth =
        cycle_loop (ccg_of reg) visited rec_stack (dfs[depth := (u, s + 1)]) depth"
      using 2 len row edge s(2) by (subst cycle_loop.simps) simp
    with that(2) cycle_inv_skip [OF inv e s(2) 2(2,1) tried] show thesis by blast
  next
    case 3
    note push = cycle_inv_push [OF inv e s(2) 3(1) us tried]
    have "cycle_loop (ccg_of reg) visited rec_stack dfs depth =
        cycle_loop (ccg_of reg) (visited[s := True]) (rec_stack[s := True])
          (dfs[depth := (u, s + 1), depth + 1 := (s, 0)]) (depth + 1)"
      using 3 len row edge s(2) push(1) by (subst cycle_loop.simps) simp
    with that(3) 3(1) push(2) show thesis by blast
  qed
qed

lemma cycle_iteration:
  assumes reg: "length reg = MAX_TASKS" and inv: "cycle_inv reg visited rec_stack dfs depth"
  obtains found r where "cycle_loop (ccg_of reg) visited rec_stack dfs depth = Inr (found, visited, r)"
      "cycle_outcome reg visited found visited r"
  | v r d n where "cycle_loop (ccg_of reg) visited rec_stack dfs depth = cycle_loop (ccg_of reg) v r d n"
      "cycle_inv reg v r d n" "((v, d, n), (visited, dfs, depth)) \<in> cycle_order" "\<forall>i < MAX_TASKS. visited ! i \<longrightarrow> v ! i"
proof -
  obtain u k where e: "dfs ! depth = (u, k)" by (cases "dfs ! depth")
  have len: "length visited = MAX_TASKS" "length dfs = MAX_TASKS" "depth < MAX_TASKS"
    using inv by (simp_all add: cycle_inv_def)
  show thesis
  proof (cases "next_edge (ccg_edges (ccg_of reg) ! u) k")
    case None
    from cycle_iteration_pop [OF reg inv e None] show thesis
    proof (cases "depth = 0")
      case False
      then have "((visited, dfs, depth - 1), (visited, dfs, depth)) \<in> cycle_order" by (simp add: cycle_order_def)
      with False cycle_iteration_pop [OF reg inv e None] that(2) show thesis by simp
    qed (use that(1) in simp)
  next
    case (Some s)
    note s = next_edge_Some(2) [OF Some] next_edge_progress [OF Some]
    from reg inv e Some show thesis
    proof (cases rule: cycle_iteration_edge)
      case 1
      then show thesis using that(1) by (simp add: cycle_outcome_def)
    next
      case 2
      moreover have "((visited, dfs[depth := (u, s + 1)], depth), (visited, dfs, depth)) \<in> cycle_order"
        using e len s by (simp add: cycle_order_def)
      ultimately show thesis using that(2) by blast
    next
      case 3
      moreover have "((visited[s := True], dfs[depth := (u, s + 1), depth + 1 := (s, 0)], depth + 1),
          (visited, dfs, depth)) \<in> cycle_order"
        using 3(1) len s(1) unvisited_less by (simp add: cycle_order_def)
      moreover have "\<forall>i < MAX_TASKS. visited ! i \<longrightarrow> visited[s := True] ! i" using len s(1) by (simp add: nth_list_update)
      ultimately show thesis using that(2) by blast
    qed
  qed
qed

lemma cycle_loop_correct:
  assumes reg: "length reg = MAX_TASKS" and inv: "cycle_inv reg visited rec_stack dfs depth"
  shows "\<exists>found v r. cycle_loop (ccg_of reg) visited rec_stack dfs depth = Inr (found, v, r) \<and>
           cycle_outcome reg visited found v r"
proof -
  have "wf cycle_order" by (simp add: cycle_order_def)
  then have "\<forall>visited dfs depth rec_stack. x = (visited, dfs, depth) \<longrightarrow> cycle_inv reg visited rec_stack dfs depth \<longrightarrow>
      (\<exists>found v r. cycle_loop (ccg_of reg) visited rec_stack dfs depth = Inr (found, v, r) \<and>
         cycle_outcome reg visited found v r)" for x
  proof (induction x rule: wf_induct_rule)
    case (less x)
    show ?case
    proof (intro allI impI)
      fix visited dfs depth rec_stack assume x: "x = (visited, dfs, depth)" and inv: "cycle_inv reg visited rec_stack dfs depth"
      from reg inv show "\<exists>found v r. cycle_loop (ccg_of reg) visited rec_stack dfs depth = Inr (found, v, r) \<and>
          cycle_outcome reg visited found v r"
      proof (cases rule: cycle_iteration)
        case (2 v r d n)
        with less.IH [of "(v, d, n)"] x obtain found v' r' where
          "cycle_loop (ccg_of reg) v r d n = Inr (found, v', r')" "cycle_outcome reg v found v' r'" by blast
        with 2 cycle_outcome_grows show ?thesis by fastforce
      qed blast
    qed
  qed
  with inv show ?thesis by blast
qed

lemma detect_from_correct:
  assumes reg: "length reg = MAX_TASKS"
    and "length visited = MAX_TASKS" and "length rec_stack = MAX_TASKS" and "\<forall>i < MAX_TASKS. \<not> rec_stack ! i"
    and "contention.clean reg (left_nodes visited rec_stack)" and "\<forall>s \<in> set starts. s < MAX_TASKS"
  shows "\<exists>found. detect_from (ccg_of reg) starts visited rec_stack = Inr found \<and>
           (case found of
              Some e \<Rightarrow> closes_cycle reg e
            | None \<Rightarrow> \<exists>F. {i. i < MAX_TASKS \<and> visited ! i} \<union> set starts \<subseteq> F \<and> contention.clean reg F)"
  using assms(2-)
proof (induction starts arbitrary: visited rec_stack)
  case Nil
  have "left_nodes visited rec_stack = {i. i < MAX_TASKS \<and> visited ! i}"
    using Nil.prems(3) by (auto simp: left_nodes_def)
  with Nil.prems(4) show ?case by auto
next
  case (Cons start starts)
  note len = Cons.prems(1,2)
  have start: "start < MAX_TASKS" using Cons.prems(5) by simp
  show ?case
  proof (cases "visited ! start")
    case True
    have "\<forall>s \<in> set starts. s < MAX_TASKS" using Cons.prems(5) by simp
    from Cons.IH [OF Cons.prems(1-4) this] obtain found where
      found: "detect_from (ccg_of reg) starts visited rec_stack = Inr found"
      and res: "case found of Some e \<Rightarrow> closes_cycle reg e
        | None \<Rightarrow> \<exists>F. {i. i < MAX_TASKS \<and> visited ! i} \<union> set starts \<subseteq> F \<and> contention.clean reg F" by blast
    have "detect_from (ccg_of reg) (start # starts) visited rec_stack = Inr found"
      using found True len start by simp
    with res True start show ?thesis by (cases found) auto
  next
    case False
    let ?v = "visited[start := True]" and ?r = "rec_stack[start := True]"
    let ?dfs = "(replicate MAX_TASKS (0, 0))[0 := (start, 0)] :: (nat \<times> nat) list"
    have path: "take (Suc 0) ?dfs = [(start, 0)]" by (simp add: take_Suc_conv_app_nth)
    have "cycle_inv reg ?v ?r ?dfs 0"
      unfolding cycle_inv_def path left_nodes_push [OF len start False]
      using Cons.prems(3,4) len start by (auto simp: nth_list_update)
    from cycle_loop_correct [OF reg this] obtain found v r where
      loop: "cycle_loop (ccg_of reg) ?v ?r ?dfs 0 = Inr (found, v, r)" and "cycle_outcome reg ?v found v r" by blast
    then have res: "case found of Some e \<Rightarrow> closes_cycle reg e
        | None \<Rightarrow> length v = MAX_TASKS \<and> length r = MAX_TASKS \<and> (\<forall>i < MAX_TASKS. \<not> r ! i) \<and>
            contention.clean reg (left_nodes v r) \<and> (\<forall>i < MAX_TASKS. ?v ! i \<longrightarrow> v ! i)" by (simp add: cycle_outcome_def)
    have step: "detect_from (ccg_of reg) (start # starts) visited rec_stack =
        (case found of Some e \<Rightarrow> Inr (Some e) | None \<Rightarrow> detect_from (ccg_of reg) starts v r)"
      using False len start loop by simp
    show ?thesis
    proof (cases found)
      case None
      then have "visited ! i \<or> i = start \<Longrightarrow> i < MAX_TASKS \<Longrightarrow> v ! i" for i
        using res len start by (auto simp: nth_list_update)
      note grows = this
      have "\<forall>s \<in> set starts. s < MAX_TASKS" using Cons.prems(5) by simp
      with Cons.IH [of v r] None res obtain found' where
        found': "detect_from (ccg_of reg) starts v r = Inr found'"
        and res': "case found' of Some e \<Rightarrow> closes_cycle reg e
          | None \<Rightarrow> \<exists>F. {i. i < MAX_TASKS \<and> v ! i} \<union> set starts \<subseteq> F \<and> contention.clean reg F" by auto
      have "{i. i < MAX_TASKS \<and> visited ! i} \<union> {start} \<subseteq> {i. i < MAX_TASKS \<and> v ! i}"
        using grows start by auto
      with found' res' None step show ?thesis by (cases found') auto
    qed (use step res in simp)
  qed
qed

text \<open>
  C22: on a registry filled from the first slot on, the kernel's cycle detector always returns; it returns
  an edge that closes a cycle of the contention graph if there is one, and \<open>None\<close> exactly when the graph
  has no cycle.
\<close>

theorem detect_cycle_exact:
  assumes "length reg = MAX_TASKS" and "\<And>i. i < MAX_TASKS \<Longrightarrow> reg ! i \<noteq> None \<longleftrightarrow> i < n" and "n \<le> MAX_TASKS"
  shows "\<exists>found. bind_res (ccg_build reg) detect_cycle = Inr found \<and>
           (found = None \<longleftrightarrow> (\<forall>i. \<not> (contends reg)\<^sup>+\<^sup>+ i i)) \<and>
           (\<forall>u v. found = Some (u, v) \<longrightarrow> contends reg u v \<and> (contends reg)\<^sup>*\<^sup>* v u)"
proof -
  let ?none = "replicate MAX_TASKS False"
  have "slots_of reg = [0..<n]"
  proof -
    have "[0..<MAX_TASKS] = [0..<n] @ [n..<MAX_TASKS]" using assms(3) upt_add_eq_append [of 0 n "MAX_TASKS - n"]
      by (simp del: upt_rec_numeral upt_Suc)
    then show ?thesis using assms by (simp add: slots_of_def filter_id_conv filter_empty_conv del: upt_rec_numeral)
  qed
  then have n: "ccg_task_count (ccg_of reg) = n" by (simp add: ccg_of_def Let_def)
  have empty: "left_nodes ?none ?none = {}" by (auto simp: left_nodes_def)
  obtain found where found: "bind_res (ccg_build reg) detect_cycle = Inr found"
    and res: "case found of Some e \<Rightarrow> closes_cycle reg e
      | None \<Rightarrow> \<exists>F. {i. i < MAX_TASKS \<and> ?none ! i} \<union> set [0..<n] \<subseteq> F \<and> contention.clean reg F"
    using detect_from_correct [OF assms(1), of ?none ?none "[0..<n]"] assms(3)
    unfolding ccg_build_total [OF assms(1)] bind_res_simps detect_cycle_def n empty by auto
  have dom: "i < n" if "contends reg i j" for i j
    using that assms(1,2) by (auto simp: contends_def split: option.splits)
  show ?thesis
  proof (cases found)
    case None
    then obtain F where F: "{..<n} \<subseteq> F" "contention.clean reg F" using res by (auto simp: lessThan_atLeast0)
    have "\<not> (contends reg)\<^sup>+\<^sup>+ i i" for i
    proof
      assume c: "(contends reg)\<^sup>+\<^sup>+ i i"
      then have "i < n" using dom by (meson tranclpD)
      with F c show False by (auto simp: contention.clean_def contention_edge_eq [OF assms(1)])
    qed
    with None found show ?thesis by simp
  next
    case (Some e)
    obtain u v where e: "e = (u, v)" by (cases e)
    have uv: "contends reg u v" "(contends reg)\<^sup>*\<^sup>* v u" using res Some e by (simp_all add: closes_cycle_def)
    then have "(contends reg)\<^sup>+\<^sup>+ u u" by (meson rtranclp_into_tranclp2)
    with Some e uv found show ?thesis by auto
  qed
qed

definition mutual_registry :: "task_descriptor option list" where
  "mutual_registry =
     (replicate MAX_TASKS None)
       [0 := Some (with_capabilities 0 1 0x20000000 4096 0x20001000 0x20002000 1 0 2),
        1 := Some (with_capabilities 1 2 0x20002000 4096 0x20003000 0x20004000 2 0 1)]"

theorem detect_cycle_exact_witness: "\<exists>e. bind_res (ccg_build mutual_registry) detect_cycle = Inr (Some e)"
proof -
  have "contends mutual_registry 0 1" "contends mutual_registry 1 0"
    by (simp_all add: contends_def mutual_registry_def with_capabilities_def)
  then have "(contends mutual_registry)\<^sup>+\<^sup>+ 0 0" by (meson tranclp.simps)
  moreover have "\<exists>found. bind_res (ccg_build mutual_registry) detect_cycle = Inr found \<and>
      (found = None \<longleftrightarrow> (\<forall>i. \<not> (contends mutual_registry)\<^sup>+\<^sup>+ i i))"
    using detect_cycle_exact [of mutual_registry 2] by (fastforce simp: mutual_registry_def nth_list_update)
  ultimately show ?thesis by auto
qed

section \<open>The generator's detector\<close>

definition left_of :: "bool list \<Rightarrow> bool list \<Rightarrow> nat set" where
  "left_of visited on_stack = {i. i < length visited \<and> visited ! i \<and> \<not> on_stack ! i}"

definition back_edge :: "task_config list \<Rightarrow> nat \<times> nat \<Rightarrow> bool" where
  "back_edge tasks = (\<lambda>(u, v). gen_edge tasks u v \<and> (gen_edge tasks)\<^sup>*\<^sup>* v u)"

text \<open>
  The state between two visits. While no back edge has been found, the nodes that were visited and left
  form a clean set.
\<close>

definition dfs_inv :: "task_config list \<Rightarrow> bool list \<Rightarrow> bool list \<Rightarrow> (nat \<times> nat) list \<Rightarrow> bool" where
  "dfs_inv tasks visited on_stack out \<longleftrightarrow>
     length visited = length tasks \<and> length on_stack = length tasks \<and>
     (\<forall>i < length tasks. on_stack ! i \<longrightarrow> visited ! i) \<and> list_all (back_edge tasks) out \<and>
     (out = [] \<longrightarrow> generated.clean tasks (left_of visited on_stack))"

definition on_path :: "task_config list \<Rightarrow> nat \<Rightarrow> bool list \<Rightarrow> bool" where
  "on_path tasks u on_stack \<longleftrightarrow>
     u < length tasks \<and> on_stack ! u \<and> (\<forall>i < length tasks. on_stack ! i \<longrightarrow> (gen_edge tasks)\<^sup>*\<^sup>* i u)"

definition tried_ok :: "task_config list \<Rightarrow> nat \<Rightarrow> (nat \<Rightarrow> bool) \<Rightarrow> bool list \<Rightarrow> bool list \<Rightarrow> (nat \<times> nat) list \<Rightarrow> bool" where
  "tried_ok tasks u P visited on_stack out \<longleftrightarrow>
     (out = [] \<longrightarrow> (\<forall>j. P j \<longrightarrow> gen_edge tasks u j \<longrightarrow> j \<in> left_of visited on_stack))"

lemma dfs_enter_inv:
  assumes inv: "dfs_inv tasks visited on_stack out" and v: "v < length tasks" "\<not> visited ! v"
  shows "dfs_enter v (visited, on_stack, out) = Inr (visited[v := True], on_stack[v := True], out)"
    and "dfs_inv tasks (visited[v := True]) (on_stack[v := True]) out"
    and "on_path tasks u on_stack \<Longrightarrow> gen_edge tasks u v \<Longrightarrow> on_path tasks v (on_stack[v := True])"
proof -
  have len: "length visited = length tasks" "length on_stack = length tasks" using inv by (simp_all add: dfs_inv_def)
  show "dfs_enter v (visited, on_stack, out) = Inr (visited[v := True], on_stack[v := True], out)"
    using v len by (simp add: dfs_enter_def)
  have "left_of (visited[v := True]) (on_stack[v := True]) = left_of visited on_stack"
    using v len by (auto simp: left_of_def nth_list_update)
  then show "dfs_inv tasks (visited[v := True]) (on_stack[v := True]) out"
    using inv v len by (auto simp: dfs_inv_def nth_list_update)
  show "on_path tasks v (on_stack[v := True])" if "on_path tasks u on_stack" "gen_edge tasks u v"
    using that v len by (auto simp: on_path_def nth_list_update intro: rtranclp.rtrancl_into_rtrancl)
qed

lemma dfs_leave_inv:
  assumes inv: "dfs_inv tasks visited (on_stack[v := True]) out" and v: "v < length tasks" "\<not> on_stack ! v"
    and tried: "tried_ok tasks v (\<lambda>_. True) visited (on_stack[v := True]) out"
  shows "dfs_leave v (visited, on_stack[v := True], out) = Inr (visited, on_stack, out)"
    and "dfs_inv tasks visited on_stack out" and "v \<in> left_of visited on_stack"
    and "left_of visited (on_stack[v := True]) \<subseteq> left_of visited on_stack"
proof -
  have len: "length visited = length tasks" "length on_stack = length tasks" using inv by (simp_all add: dfs_inv_def)
  have same: "on_stack[v := False] = on_stack" using v(2) by (metis list_update_id)
  then show "dfs_leave v (visited, on_stack[v := True], out) = Inr (visited, on_stack, out)"
    using v len by (simp add: dfs_leave_def)
  have vis: "visited ! v" using inv v(1) len by (auto simp: dfs_inv_def nth_list_update)
  then show mem: "v \<in> left_of visited on_stack" using v len by (simp add: left_of_def)
  have left: "left_of visited on_stack = insert v (left_of visited (on_stack[v := True]))"
    using v vis len by (auto simp: left_of_def nth_list_update split: if_splits)
  then show "left_of visited (on_stack[v := True]) \<subseteq> left_of visited on_stack" by blast
  have "generated.clean tasks (left_of visited on_stack)" if "out = []"
    unfolding left
  proof (rule generated.clean_insert)
    show "generated.clean tasks (left_of visited (on_stack[v := True]))" using inv that by (simp add: dfs_inv_def)
    show "j \<in> left_of visited (on_stack[v := True])" if "generated.edge tasks v j" for j
      using tried \<open>out = []\<close> that by (simp add: tried_ok_def generated_edge)
    show "v \<notin> left_of visited (on_stack[v := True])" using v(1) len by (simp add: left_of_def)
  qed
  moreover have "\<forall>i < length tasks. on_stack ! i \<longrightarrow> visited ! i"
    using inv v(1) len by (auto simp: dfs_inv_def nth_list_update split: if_splits)
  ultimately show "dfs_inv tasks visited on_stack out" using inv len by (simp add: dfs_inv_def)
qed

text \<open>What the scan of a row leaves behind, and its steps: over a visited target, and back from a new one.\<close>

definition scan_outcome ::
  "task_config list \<Rightarrow> nat \<Rightarrow> bool list \<Rightarrow> bool list \<Rightarrow> (nat \<times> nat) list \<Rightarrow> dfs_state res \<Rightarrow> bool" where
  "scan_outcome tasks u visited on_stack out result \<longleftrightarrow>
     (\<exists>visited' out'. result = Inr (visited', on_stack, out') \<and>
        dfs_inv tasks visited' on_stack out' \<and> tried_ok tasks u (\<lambda>_. True) visited' on_stack out' \<and>
        (\<forall>i < length tasks. visited ! i \<longrightarrow> visited' ! i) \<and> (out' = [] \<longrightarrow> out = []))"

lemma dfs_row:
  assumes "u < length tasks"
  shows "arr_get (build_edges tasks) u = Inr (build_edges tasks ! u)" and "length (build_edges tasks ! u) = length tasks"
    and "v < length tasks \<Longrightarrow> build_edges tasks ! u ! v \<longleftrightarrow> gen_edge tasks u v"
  using assms build_edges_nth [of tasks] by (auto simp: sized_def)

lemma dfs_scan_seen:
  assumes inv: "dfs_inv tasks visited on_stack out" and path: "on_path tasks u on_stack"
    and tried: "tried_ok tasks u (\<lambda>j. j < v) visited on_stack out"
    and v: "v < length tasks" "gen_edge tasks u v" "visited ! v"
  defines "out' \<equiv> if on_stack ! v then out @ [(u, v)] else out"
  shows "dfs_inv tasks visited on_stack out'" and "tried_ok tasks u (\<lambda>j. j < v + 1) visited on_stack out'"
proof -
  have "back_edge tasks (u, v)" if "on_stack ! v" using path v that by (simp add: on_path_def back_edge_def)
  then show "dfs_inv tasks visited on_stack out'" using inv by (simp add: dfs_inv_def out'_def)
  have "v \<in> left_of visited on_stack" if "\<not> on_stack ! v"
    using v inv that by (simp add: left_of_def dfs_inv_def)
  then show "tried_ok tasks u (\<lambda>j. j < v + 1) visited on_stack out'"
    using tried by (auto simp: tried_ok_def less_Suc_eq out'_def)
qed

lemma dfs_scan_return:
  assumes inv: "dfs_inv tasks visited on_stack out" and v: "v < length tasks" "\<not> visited ! v"
    and tried: "tried_ok tasks u (\<lambda>j. j < v) visited on_stack out"
    and sub: "scan_outcome tasks v (visited[v := True]) (on_stack[v := True]) out result"
  obtains visited2 out2 where "result = Inr (visited2, on_stack[v := True], out2)"
    and "dfs_leave v (visited2, on_stack[v := True], out2) = Inr (visited2, on_stack, out2)"
    and "dfs_inv tasks visited2 on_stack out2" and "tried_ok tasks u (\<lambda>j. j < v + 1) visited2 on_stack out2"
    and "\<forall>i < length tasks. visited ! i \<longrightarrow> visited2 ! i" and "out2 = [] \<longrightarrow> out = []"
proof -
  have len: "length visited = length tasks" and off: "\<not> on_stack ! v" using inv v by (auto simp: dfs_inv_def)
  obtain visited2 out2 where r: "result = Inr (visited2, on_stack[v := True], out2)"
    and i2: "dfs_inv tasks visited2 (on_stack[v := True]) out2" "tried_ok tasks v (\<lambda>_. True) visited2 (on_stack[v := True]) out2"
      "\<forall>i < length tasks. visited[v := True] ! i \<longrightarrow> visited2 ! i" "out2 = [] \<longrightarrow> out = []"
    using sub by (auto simp: scan_outcome_def)
  note leave = dfs_leave_inv [OF i2(1) v(1) off i2(2)]
  have grow: "\<forall>i < length tasks. visited ! i \<longrightarrow> visited2 ! i" using i2(3) v len by (auto simp: nth_list_update)
  then have "left_of visited on_stack \<subseteq> left_of visited2 on_stack"
    using len i2(1) by (auto simp: left_of_def dfs_inv_def)
  then have "tried_ok tasks u (\<lambda>j. j < v + 1) visited2 on_stack out2"
    using tried i2(4) leave(3) by (auto simp: tried_ok_def less_Suc_eq)
  with that r leave(1,2) grow i2(4) show thesis by blast
qed

lemma scan_outcome_grows:
  "scan_outcome tasks u visited2 on_stack out2 result \<Longrightarrow> \<forall>i < length tasks. visited ! i \<longrightarrow> visited2 ! i \<Longrightarrow>
   out2 = [] \<longrightarrow> out = [] \<Longrightarrow> scan_outcome tasks u visited on_stack out result"
  by (auto simp: scan_outcome_def)

lemma dfs_scan_correct:
  assumes "edges = build_edges tasks" and "st = (visited, on_stack, out)" and "dfs_inv tasks visited on_stack out"
    and "on_path tasks u on_stack" and "tried_ok tasks u (\<lambda>j. j < v) visited on_stack out"
  shows "scan_outcome tasks u visited on_stack out (dfs_scan edges u v st)"
  using assms
proof (induction edges u v st arbitrary: visited on_stack out rule: dfs_scan.induct)
  case (1 edges u v st)
  note [simp] = "1.prems"(1,2)
  note inv = "1.prems"(3) and path = "1.prems"(4) and tried = "1.prems"(5)
  have len: "length visited = length tasks" "length on_stack = length tasks" "u < length tasks"
    using inv path by (simp_all add: dfs_inv_def on_path_def)
  have row: "arr_get edges u = Inr (build_edges tasks ! u)" "length (build_edges tasks ! u) = length tasks"
    using dfs_row [OF len(3)] by simp_all
  consider "\<not> gen_edge tasks u v" "v < length tasks" | "\<not> v < length tasks"
    | "v < length tasks" "gen_edge tasks u v" "\<not> visited ! v" | "v < length tasks" "gen_edge tasks u v" "visited ! v" by blast
  then show ?case
  proof cases
    case 1
    then have "tried_ok tasks u (\<lambda>j. j < v + 1) visited on_stack out"
      using tried by (auto simp: tried_ok_def less_Suc_eq)
    from "1.IH"(1) [OF row(1) _ _ "1.prems"(1,2) inv path this] 1 row dfs_row(3) [OF len(3)] show ?thesis
      by (subst dfs_scan.simps) simp
  next
    case 2
    then have "tried_ok tasks u (\<lambda>_. True) visited on_stack out"
      using tried by (auto simp: tried_ok_def gen_edge_def)
    with inv 2 row show ?thesis by (subst dfs_scan.simps) (simp add: scan_outcome_def)
  next
    case 3
    note enter = dfs_enter_inv [OF inv 3(1,3)]
    have edge: "build_edges tasks ! u ! v" using dfs_row(3) [OF len(3)] 3 by simp
    have seen: "arr_get (fst st) v = Inr (visited ! v)" using 3 len by simp
    have st1: "dfs_enter v st = Inr (visited[v := True], on_stack[v := True], out)" using enter(1) by simp
    have "tried_ok tasks v (\<lambda>j. j < 0) (visited[v := True]) (on_stack[v := True]) out" by (simp add: tried_ok_def)
    from "1.IH"(2) [OF row(1) _ _ seen _ st1 "1.prems"(1) refl enter(2) enter(3) [OF path 3(2)] this] 3 row(2) edge
    have "scan_outcome tasks v (visited[v := True]) (on_stack[v := True]) out
        (dfs_scan edges v 0 (visited[v := True], on_stack[v := True], out))" by simp
    then obtain V2 out2 where s2: "dfs_scan edges v 0 (visited[v := True], on_stack[v := True], out) = Inr (V2, on_stack[v := True], out2)"
      and leave: "dfs_leave v (V2, on_stack[v := True], out2) = Inr (V2, on_stack, out2)" "dfs_inv tasks V2 on_stack out2"
      and rest: "tried_ok tasks u (\<lambda>j. j < v + 1) V2 on_stack out2" "\<forall>i < length tasks. visited ! i \<longrightarrow> V2 ! i"
        "out2 = [] \<longrightarrow> out = []"
      by (rule dfs_scan_return [OF inv 3(1,3) tried])
    from "1.IH"(3) [OF row(1) _ _ seen _ st1 s2 leave(1) "1.prems"(1) refl leave(2) path rest(1)] 3 row(2) edge
    have "scan_outcome tasks u visited on_stack out (dfs_scan edges u (v + 1) (V2, on_stack, out2))"
      using scan_outcome_grows rest(2,3) by auto
    moreover have "dfs_scan edges u v st = dfs_scan edges u (v + 1) (V2, on_stack, out2)"
      using edge 3 row seen enter(1) s2 leave(1) by (subst dfs_scan.simps) simp
    ultimately show ?thesis by simp
  next
    case 4
    let ?out = "if on_stack ! v then out @ [(u, v)] else out"
    have edge: "build_edges tasks ! u ! v" using dfs_row(3) [OF len(3)] 4 by simp
    have seen: "arr_get (fst st) v = Inr (visited ! v)" "arr_get (fst (snd st)) v = Inr (on_stack ! v)" using 4 len by simp_all
    have st: "(if on_stack ! v then (fst st, fst (snd st), snd (snd st) @ [(u, v)]) else st) = (visited, on_stack, ?out)"
      by simp
    have "scan_outcome tasks u visited on_stack ?out (dfs_scan edges u (v + 1) (visited, on_stack, ?out))"
      using "1.IH"(4) [OF row(1) _ _ seen(1) _ seen(2) "1.prems"(1) st _ path] dfs_scan_seen [OF inv path tried 4] 4 row edge st
      by simp
    moreover have "dfs_scan edges u v st = dfs_scan edges u (v + 1) (visited, on_stack, ?out)"
      using edge 4 row seen by (subst dfs_scan.simps) simp
    ultimately show ?thesis using scan_outcome_grows by (auto split: if_splits)
  qed
qed

lemma dfs_visit_correct:
  assumes inv: "dfs_inv tasks visited (replicate (length tasks) False) out"
    and start: "start < length tasks" "\<not> visited ! start"
  shows "\<exists>visited' out'. dfs_visit (build_edges tasks) start (visited, replicate (length tasks) False, out) =
             Inr (visited', replicate (length tasks) False, out') \<and>
           dfs_inv tasks visited' (replicate (length tasks) False) out' \<and> visited' ! start \<and>
           (\<forall>i < length tasks. visited ! i \<longrightarrow> visited' ! i)"
proof -
  let ?S = "replicate (length tasks) False"
  note enter = dfs_enter_inv [OF inv start]
  have len: "length visited = length tasks" using inv by (simp add: dfs_inv_def)
  have "on_path tasks start (?S[start := True])" using start by (auto simp: on_path_def nth_list_update)
  moreover have "tried_ok tasks start (\<lambda>j. j < 0) (visited[start := True]) (?S[start := True]) out"
    by (simp add: tried_ok_def)
  ultimately obtain V2 out2 where
    s2: "dfs_scan (build_edges tasks) start 0 (visited[start := True], ?S[start := True], out) = Inr (V2, ?S[start := True], out2)"
    and i2: "dfs_inv tasks V2 (?S[start := True]) out2" "tried_ok tasks start (\<lambda>_. True) V2 (?S[start := True]) out2"
      "\<forall>i < length tasks. visited[start := True] ! i \<longrightarrow> V2 ! i"
    using dfs_scan_correct [OF refl refl enter(2)] unfolding scan_outcome_def by blast
  have "\<not> ?S ! start" using start by simp
  note leave = dfs_leave_inv [OF i2(1) start(1) this i2(2)]
  have "visited ! i \<Longrightarrow> i < length tasks \<Longrightarrow> V2 ! i" for i using i2(3) len start by (auto simp: nth_list_update)
  with enter(1) s2 leave show ?thesis by (auto simp: dfs_visit_def left_of_def)
qed

lemma dfs_starts_correct:
  assumes "dfs_inv tasks visited (replicate (length tasks) False) out" and "\<forall>s \<in> set starts. s < length tasks"
  shows "\<exists>visited' out'. fold_res (\<lambda>start st. bind_res (arr_get (fst st) start) (\<lambda>seen.
               if \<not> seen then dfs_visit (build_edges tasks) start st else Inr st)) starts
             (visited, replicate (length tasks) False, out) = Inr (visited', replicate (length tasks) False, out') \<and>
           dfs_inv tasks visited' (replicate (length tasks) False) out' \<and>
           (\<forall>i < length tasks. visited ! i \<or> i \<in> set starts \<longrightarrow> visited' ! i)"
  using assms
proof (induction starts arbitrary: visited out)
  case (Cons s starts)
  have s: "s < length tasks" "s < length visited" using Cons.prems by (simp_all add: dfs_inv_def)
  obtain V1 out1 where one: "bind_res (arr_get visited s) (\<lambda>seen. if \<not> seen
        then dfs_visit (build_edges tasks) s (visited, replicate (length tasks) False, out)
        else Inr (visited, replicate (length tasks) False, out)) = Inr (V1, replicate (length tasks) False, out1)"
    "dfs_inv tasks V1 (replicate (length tasks) False) out1" "V1 ! s" "\<forall>i < length tasks. visited ! i \<longrightarrow> V1 ! i"
    using dfs_visit_correct [OF Cons.prems(1) s(1)] Cons.prems(1) s by (cases "visited ! s") auto
  from Cons.IH [OF one(2)] Cons.prems(2) obtain V2 out2 where
    "fold_res (\<lambda>start st. bind_res (arr_get (fst st) start) (\<lambda>seen.
         if \<not> seen then dfs_visit (build_edges tasks) start st else Inr st)) starts
       (V1, replicate (length tasks) False, out1) = Inr (V2, replicate (length tasks) False, out2)"
    "dfs_inv tasks V2 (replicate (length tasks) False) out2"
    "\<forall>i < length tasks. V1 ! i \<or> i \<in> set starts \<longrightarrow> V2 ! i" by auto
  with one s show ?case by auto
qed auto

text \<open>
  C33: the generator's cycle report is exact: it always returns, every edge it lists closes a cycle of the
  task set's contention graph, and the list is empty exactly when the graph has none.
\<close>

theorem back_edges_exact:
  "\<exists>out. find_cycle_back_edges tasks = Inr out \<and>
         (out = [] \<longleftrightarrow> (\<forall>i. \<not> (gen_edge tasks)\<^sup>+\<^sup>+ i i)) \<and>
         list_all (back_edge tasks) out"
proof -
  let ?n = "length tasks" and ?S = "replicate (length tasks) False"
  have "left_of ?S ?S = {}" by (auto simp: left_of_def)
  then have "dfs_inv tasks ?S ?S []" by (auto simp: dfs_inv_def)
  from dfs_starts_correct [OF this, of "[0..<?n]"] obtain V out where
    run: "find_cycle_back_edges tasks = Inr out" and inv: "dfs_inv tasks V ?S out" and all: "\<forall>i < ?n. V ! i"
    by (auto simp: find_cycle_back_edges_def Let_def)
  have closes: "gen_edge tasks u v \<and> (gen_edge tasks)\<^sup>*\<^sup>* v u" if "(u, v) \<in> set out" for u v
    using inv that by (auto simp: dfs_inv_def list_all_iff back_edge_def)
  have "\<not> (gen_edge tasks)\<^sup>+\<^sup>+ i i" if "out = []" for i
  proof -
    have "left_of V ?S = {..<?n}" using inv all by (auto simp: left_of_def dfs_inv_def)
    then have "generated.clean tasks {..<?n}" using inv that by (simp add: dfs_inv_def)
    moreover have "i < ?n" if "(gen_edge tasks)\<^sup>+\<^sup>+ i i" using tranclpD [OF that] by (auto simp: gen_edge_def)
    ultimately show ?thesis by (auto simp: generated.clean_def generated_edge)
  qed
  moreover have "(gen_edge tasks)\<^sup>+\<^sup>+ u u" if "(u, v) \<in> set out" for u v
    using closes [OF that] by (meson rtranclp_into_tranclp2)
  ultimately have "out = [] \<longleftrightarrow> (\<forall>i. \<not> (gen_edge tasks)\<^sup>+\<^sup>+ i i)"
    by (cases out) fastforce+
  with run inv show ?thesis by (auto simp: dfs_inv_def)
qed

end
