(* ===== verification/Config_Source.thy ===== *)
theory Config_Source
  imports Cycle_Detection Boot
begin

text \<open>
  The text side of the build-time generator (\<^verbatim>\<open>kernel/build/ccg_gen.rs\<close>, and the part of
  \<^verbatim>\<open>kernel/build.rs\<close> that drives it): the task configurations are read from the generated Rust source,
  and the priority tables are printed as Rust source. Text is a list of bytes. The string methods of
  the standard library are modelled for ASCII text, which the generated files are.
\<close>

section \<open>Rust string methods\<close>

definition is_whitespace :: "char \<Rightarrow> bool" where
  "is_whitespace c \<longleftrightarrow> c \<in> {CHR 0x20, CHR 0x09, CHR 0x0A, CHR 0x0B, CHR 0x0C, CHR 0x0D}"

definition trim_start :: "string \<Rightarrow> string" where
  "trim_start = dropWhile is_whitespace"

definition trim_end :: "string \<Rightarrow> string" where
  "trim_end s = rev (dropWhile is_whitespace (rev s))"

definition trim :: "string \<Rightarrow> string" where
  "trim s = trim_end (trim_start s)"

definition trim_end_matches :: "char \<Rightarrow> string \<Rightarrow> string" where
  "trim_end_matches c s = rev (dropWhile (\<lambda>d. d = c) (rev s))"

fun strip_prefix :: "string \<Rightarrow> string \<Rightarrow> string option" where
  "strip_prefix [] s = Some s"
| "strip_prefix (p # ps) [] = None"
| "strip_prefix (p # ps) (c # cs) = (if p = c then strip_prefix ps cs else None)"

fun contains :: "string \<Rightarrow> string \<Rightarrow> bool" where
  "contains pat [] \<longleftrightarrow> pat = []"
| "contains pat (c # cs) \<longleftrightarrow> strip_prefix pat (c # cs) \<noteq> None \<or> contains pat cs"

text \<open>The pieces between the occurrences of a non-empty pattern, from the left.\<close>

function split_str :: "string \<Rightarrow> string \<Rightarrow> string \<Rightarrow> string list" where
  "split_str pat acc [] = [rev acc]"
| "split_str pat acc (c # cs) =
     (if strip_prefix pat (c # cs) \<noteq> None then rev acc # split_str pat [] (drop (length pat - 1) cs)
      else split_str pat (c # acc) cs)"
  by pat_completeness auto
termination
  by (relation "measure (\<lambda>(pat, acc, s). length s)") auto

text \<open>Lines end with a line feed, a carriage return before it is dropped; the last one may lack it.\<close>

fun lines_from :: "string \<Rightarrow> string \<Rightarrow> string list" where
  "lines_from acc [] = (if acc = [] then [] else [rev acc])"
| "lines_from acc (c # cs) =
     (if c = CHR 0x0A
      then rev (case acc of d # ds \<Rightarrow> if d = CHR 0x0D then ds else acc | [] \<Rightarrow> []) # lines_from [] cs
      else lines_from (c # acc) cs)"

definition lines :: "string \<Rightarrow> string list" where
  "lines = lines_from []"

definition to_digit :: "int \<Rightarrow> char \<Rightarrow> int option" where
  "to_digit radix c =
     (let b = of_char c :: int;
          d = if 48 \<le> b \<and> b \<le> 57 then b - 48
              else if 97 \<le> b \<and> b \<le> 122 then b - 87
              else if 65 \<le> b \<and> b \<le> 90 then b - 55 else radix
      in if d < radix then Some d else None)"

text \<open>\<open>u32::from_str_radix\<close>: \<open>None\<close> for no digits, an invalid digit or an overflow.\<close>

fun parse_digits :: "int \<Rightarrow> int \<Rightarrow> string \<Rightarrow> int option" where
  "parse_digits radix n [] = Some n"
| "parse_digits radix n (c # cs) =
     (case to_digit radix c of
        None \<Rightarrow> None
      | Some d \<Rightarrow> if n * radix + d < 4294967296 then parse_digits radix (n * radix + d) cs else None)"

definition from_str_radix :: "int \<Rightarrow> string \<Rightarrow> int option" where
  "from_str_radix radix s =
     (case s of
        [] \<Rightarrow> None
      | c # cs \<Rightarrow>
          if c = CHR ''+'' then (if cs = [] then None else parse_digits radix 0 cs)
          else parse_digits radix 0 s)"

function show_nat :: "nat \<Rightarrow> string" where
  "show_nat n = (if n < 10 then [char_of (48 + n)] else show_nat (n div 10) @ [char_of (48 + n mod 10)])"
  by pat_completeness auto
termination
  by (relation "measure id") auto

declare show_nat.simps [simp del]

fun join :: "string \<Rightarrow> string list \<Rightarrow> string" where
  "join sep [] = []"
| "join sep [s] = s"
| "join sep (s # t # ss) = s @ sep @ join sep (t # ss)"

definition unlines :: "string list \<Rightarrow> string" where
  "unlines ls = concat (map (\<lambda>l. l @ [CHR 0x0A]) ls)"

section \<open>Reading configurations\<close>

definition parse_value :: "string \<Rightarrow> u32" where
  "parse_value rest =
     (let val = filter (\<lambda>c. c \<noteq> CHR ''_'') (trim_end_matches (CHR '','') (trim rest))
      in case (case strip_prefix ''0x'' val of Some hex \<Rightarrow> Some hex | None \<Rightarrow> strip_prefix ''0X'' val) of
           Some hex \<Rightarrow> (case from_str_radix 16 hex of Some n \<Rightarrow> of_int n | None \<Rightarrow> 0)
         | None \<Rightarrow> (case from_str_radix 10 val of Some n \<Rightarrow> of_int n | None \<Rightarrow> 0))"

fun field_of_lines :: "string \<Rightarrow> string list \<Rightarrow> u32" where
  "field_of_lines field [] = 0"
| "field_of_lines field (l # ls) =
     (case strip_prefix field (trim l) of
        None \<Rightarrow> field_of_lines field ls
      | Some rest \<Rightarrow>
          (case strip_prefix '':'' (trim_start rest) of
             None \<Rightarrow> field_of_lines field ls
           | Some rest1 \<Rightarrow> parse_value rest1))"

definition parse_u32_field :: "string \<Rightarrow> string \<Rightarrow> u32" where
  "parse_u32_field block field = field_of_lines field (lines block)"

definition parse_block :: "string \<Rightarrow> task_config" where
  "parse_block block =
     \<lparr>tc_priority = ucast (parse_u32_field block ''priority''),
      tc_exclusive_cap_mask = parse_u32_field block ''exclusive_cap_mask'',
      tc_required_cap_mask = parse_u32_field block ''required_cap_mask''\<rparr>"

definition parse_task_configs :: "string \<Rightarrow> task_config list" where
  "parse_task_configs src = map parse_block (filter (contains ''TaskConfig'') (drop 1 (split_str ''pub static'' [] src)))"

section \<open>Printing the tables\<close>

record mip_table =
  mt_const_name :: string
  mt_source :: string
  mt_mip :: "u8 list"

definition ccg_header :: string where
  "ccg_header = unlines
     [''// Auto-generated by kernel/build.rs '' @ [CHR 0xE2] @ [CHR 0x80] @ [CHR 0x94] @ '' do not edit manually.'',
      ''// Rebuild after editing tasks/*.oml.'',
      ''//'',
      ''// Each array holds MaxInheritedPriority for every task registry slot of'',
      ''// one task set, computed via BFS over the Capability Contention Graph at'',
      ''// build time.  The boot code passes the array for the selected demo to'',
      ''// scheduler::init, which writes the values into each TaskDescriptor'',
      ''// instead of running the BFS at runtime.  Slot order is the order of'',
      ''// the instances in the source file, which is the registration order.'']"

definition render_table :: "nat \<Rightarrow> mip_table \<Rightarrow> string" where
  "render_table max_tasks t =
     (let array = mip_array (mt_mip t) max_tasks;
          entries = map (\<lambda>v. show_nat (unat v)) array
      in [CHR 0x0A] @ ''/// From `src/generated/'' @ mt_source t @ ''`.'' @ [CHR 0x0A] @
         ''pub const '' @ mt_const_name t @ '': [u8; '' @ show_nat max_tasks @ ''] = ['' @ join '', '' entries @ ''];'' @
         [CHR 0x0A])"

definition render_ccg_constants :: "mip_table list \<Rightarrow> nat \<Rightarrow> string" where
  "render_ccg_constants tables max_tasks = ccg_header @ concat (map (render_table max_tasks) tables)"

definition TASK_SETS :: "(string \<times> string) list" where
  "TASK_SETS =
     [(''demo_tasks.rs'', ''HML_MAX_INHERITED_PRIORITIES''),
      (''pipeline_tasks.rs'', ''PIPELINE_MAX_INHERITED_PRIORITIES'')]"

section \<open>The emission step of the build script\<close>

text \<open>
  \<open>read\<close> is the content of a file under \<open>src/generated\<close>. The result pairs the cycle warnings, as file and
  edge, with the text written to \<open>ccg_constants.rs\<close>.
\<close>

definition emit_set ::
  "(string \<Rightarrow> string) \<Rightarrow> string \<times> string \<Rightarrow>
   (string \<times> nat \<times> nat) list \<times> mip_table list \<Rightarrow> ((string \<times> nat \<times> nat) list \<times> mip_table list) res" where
  "emit_set read = (\<lambda>(source, name) (warnings, tables).
     let tasks = parse_task_configs (read source) in
     bind_res (find_cycle_back_edges tasks) (\<lambda>edges.
     bind_res (compute_mip tasks) (\<lambda>mip.
       Inr (warnings @ map (\<lambda>e. (source, e)) edges,
            tables @ [\<lparr>mt_const_name = name, mt_source = source, mt_mip = mip\<rparr>]))))"

definition ccg_emission :: "(string \<Rightarrow> string) \<Rightarrow> ((string \<times> nat \<times> nat) list \<times> string) res" where
  "ccg_emission read =
     bind_res (fold_res (emit_set read) TASK_SETS ([], [])) (\<lambda>(warnings, tables).
       Inr (warnings, render_ccg_constants tables MAX_TASKS))"

section \<open>The committed files\<close>

definition demo_tasks_rs :: string where
  "demo_tasks_rs = unlines
     [''// This file has been generated from demo_tasks.oml'',
      '''',
      ''#[allow(dead_code)]'',
      '''',
      ''pub static TASK_L: TaskConfig = TaskConfig {'',
      [CHR 0x09] @ ''priority: 1,'',
      [CHR 0x09] @ ''stack_size: 4096,'',
      [CHR 0x09] @ ''memory_start: 0x800B_8000,'',
      [CHR 0x09] @ ''memory_end: 0x800B_9000,'',
      [CHR 0x09] @ ''exclusive_cap_mask: 0x0000_0001,'',
      [CHR 0x09] @ ''shared_cap_mask: 0x8000_0000,'',
      [CHR 0x09] @ ''required_cap_mask: 0,'',
      [CHR 0x09] @ ''sends_mask: 0,'',
      [CHR 0x09] @ ''receives_mask: 0,'',
      ''};'',
      '''',
      ''pub static TASK_M: TaskConfig = TaskConfig {'',
      [CHR 0x09] @ ''priority: 2,'',
      [CHR 0x09] @ ''stack_size: 4096,'',
      [CHR 0x09] @ ''memory_start: 0x800B_9000,'',
      [CHR 0x09] @ ''memory_end: 0x800B_A000,'',
      [CHR 0x09] @ ''exclusive_cap_mask: 0,'',
      [CHR 0x09] @ ''shared_cap_mask: 0x8000_0000,'',
      [CHR 0x09] @ ''required_cap_mask: 0,'',
      [CHR 0x09] @ ''sends_mask: 0,'',
      [CHR 0x09] @ ''receives_mask: 0,'',
      ''};'',
      '''',
      ''pub static TASK_H: TaskConfig = TaskConfig {'',
      [CHR 0x09] @ ''priority: 3,'',
      [CHR 0x09] @ ''stack_size: 4096,'',
      [CHR 0x09] @ ''memory_start: 0x800B_A000,'',
      [CHR 0x09] @ ''memory_end: 0x800B_B000,'',
      [CHR 0x09] @ ''exclusive_cap_mask: 0,'',
      [CHR 0x09] @ ''shared_cap_mask: 0x8000_0000,'',
      [CHR 0x09] @ ''required_cap_mask: 0x0000_0001,'',
      [CHR 0x09] @ ''sends_mask: 0,'',
      [CHR 0x09] @ ''receives_mask: 0,'',
      ''};'']"

definition pipeline_tasks_rs :: string where
  "pipeline_tasks_rs = unlines
     [''// This file has been generated from pipeline_tasks.oml'',
      '''',
      ''#[allow(dead_code)]'',
      '''',
      ''pub static SENSOR_READER: TaskConfig = TaskConfig {'',
      [CHR 0x09] @ ''priority: 3,'',
      [CHR 0x09] @ ''stack_size: 4096,'',
      [CHR 0x09] @ ''memory_start: 0x800B_8000,'',
      [CHR 0x09] @ ''memory_end: 0x800B_9000,'',
      [CHR 0x09] @ ''exclusive_cap_mask: 0x0000_0002,'',
      [CHR 0x09] @ ''shared_cap_mask: 0x8000_0000,'',
      [CHR 0x09] @ ''required_cap_mask: 0,'',
      [CHR 0x09] @ ''sends_mask: 0x1,'',
      [CHR 0x09] @ ''receives_mask: 0,'',
      ''};'',
      '''',
      ''pub static FILTER: TaskConfig = TaskConfig {'',
      [CHR 0x09] @ ''priority: 2,'',
      [CHR 0x09] @ ''stack_size: 4096,'',
      [CHR 0x09] @ ''memory_start: 0x800B_9000,'',
      [CHR 0x09] @ ''memory_end: 0x800B_A000,'',
      [CHR 0x09] @ ''exclusive_cap_mask: 0,'',
      [CHR 0x09] @ ''shared_cap_mask: 0x8000_0000,'',
      [CHR 0x09] @ ''required_cap_mask: 0,'',
      [CHR 0x09] @ ''sends_mask: 0x2,'',
      [CHR 0x09] @ ''receives_mask: 0x1,'',
      ''};'',
      '''',
      ''pub static UART_LOGGER: TaskConfig = TaskConfig {'',
      [CHR 0x09] @ ''priority: 1,'',
      [CHR 0x09] @ ''stack_size: 4096,'',
      [CHR 0x09] @ ''memory_start: 0x800B_A000,'',
      [CHR 0x09] @ ''memory_end: 0x800B_B000,'',
      [CHR 0x09] @ ''exclusive_cap_mask: 0x0000_0001,'',
      [CHR 0x09] @ ''shared_cap_mask: 0x8000_0000,'',
      [CHR 0x09] @ ''required_cap_mask: 0,'',
      [CHR 0x09] @ ''sends_mask: 0,'',
      [CHR 0x09] @ ''receives_mask: 0x2,'',
      ''};'']"

definition ccg_constants_rs :: string where
  "ccg_constants_rs = unlines
     [''// Auto-generated by kernel/build.rs '' @ [CHR 0xE2] @ [CHR 0x80] @ [CHR 0x94] @ '' do not edit manually.'',
      ''// Rebuild after editing tasks/*.oml.'',
      ''//'',
      ''// Each array holds MaxInheritedPriority for every task registry slot of'',
      ''// one task set, computed via BFS over the Capability Contention Graph at'',
      ''// build time.  The boot code passes the array for the selected demo to'',
      ''// scheduler::init, which writes the values into each TaskDescriptor'',
      ''// instead of running the BFS at runtime.  Slot order is the order of'',
      ''// the instances in the source file, which is the registration order.'',
      '''',
      ''/// From `src/generated/demo_tasks.rs`.'',
      ''pub const HML_MAX_INHERITED_PRIORITIES: [u8; 16] = [3, 2, 3, 0, 0, 0, 0, 0, 0, 0, 0, 0, 0, 0, 0, 0];'',
      '''',
      ''/// From `src/generated/pipeline_tasks.rs`.'',
      ''pub const PIPELINE_MAX_INHERITED_PRIORITIES: [u8; 16] = [3, 2, 1, 0, 0, 0, 0, 0, 0, 0, 0, 0, 0, 0, 0, 0];'']"

definition committed :: "string \<Rightarrow> string" where
  "committed f = (if f = ''demo_tasks.rs'' then demo_tasks_rs else pipeline_tasks_rs)"

definition scheduling_fields :: "oml_config \<Rightarrow> task_config" where
  "scheduling_fields c =
     \<lparr>tc_priority = oc_priority c, tc_exclusive_cap_mask = oc_exclusive_cap_mask c,
      tc_required_cap_mask = oc_required_cap_mask c\<rparr>"

lemma committed_configs:
  "parse_task_configs (committed ''demo_tasks.rs'') = map scheduling_fields [TASK_L, TASK_M, TASK_H]"
  "parse_task_configs (committed ''pipeline_tasks.rs'') = map scheduling_fields [SENSOR_READER, FILTER, UART_LOGGER]"
  by code_simp+

lemma committed_tables:
  "compute_mip (map scheduling_fields [TASK_L, TASK_M, TASK_H]) = Inr [3, 2, 3]"
  "compute_mip (map scheduling_fields [SENSOR_READER, FILTER, UART_LOGGER]) = Inr [3, 2, 1]"
  "find_cycle_back_edges (map scheduling_fields [TASK_L, TASK_M, TASK_H]) = Inr []"
  "find_cycle_back_edges (map scheduling_fields [SENSOR_READER, FILTER, UART_LOGGER]) = Inr []"
  by code_simp+

lemma committed_rendered:
  "render_ccg_constants
     [\<lparr>mt_const_name = ''HML_MAX_INHERITED_PRIORITIES'', mt_source = ''demo_tasks.rs'', mt_mip = [3, 2, 3]\<rparr>,
      \<lparr>mt_const_name = ''PIPELINE_MAX_INHERITED_PRIORITIES'', mt_source = ''pipeline_tasks.rs'', mt_mip = [3, 2, 1]\<rparr>] MAX_TASKS =
   ccg_constants_rs"
  by code_simp

lemma committed_emission: "ccg_emission committed = Inr ([], ccg_constants_rs)"
  unfolding ccg_emission_def TASK_SETS_def emit_set_def fold_res.simps
  by (simp add: committed_configs committed_tables committed_rendered del: list.map)

text \<open>
  The committed files belong together: the generator reads from the two generated task sets the
  fields of the configurations the kernel registers, finds no contention cycle in them, and run on them
  writes \<open>ccg_constants.rs\<close> byte for byte, with the tables the kernel installs at boot.
\<close>

theorem committed_constants_regenerate:
  "map parse_task_configs [committed ''demo_tasks.rs'', committed ''pipeline_tasks.rs''] =
     [map scheduling_fields [TASK_L, TASK_M, TASK_H], map scheduling_fields [SENSOR_READER, FILTER, UART_LOGGER]] \<and>
   ccg_emission committed = Inr ([], ccg_constants_rs) \<and>
   (\<exists>hml pipe. compute_mip (map scheduling_fields [TASK_L, TASK_M, TASK_H]) = Inr hml \<and>
      compute_mip (map scheduling_fields [SENSOR_READER, FILTER, UART_LOGGER]) = Inr pipe \<and>
      HML_MAX_INHERITED_PRIORITIES = mip_array hml MAX_TASKS \<and>
      PIPELINE_MAX_INHERITED_PRIORITIES = mip_array pipe MAX_TASKS)"
proof -
  have "HML_MAX_INHERITED_PRIORITIES = mip_array [3, 2, 3] MAX_TASKS"
    "PIPELINE_MAX_INHERITED_PRIORITIES = mip_array [3, 2, 1] MAX_TASKS"
    by code_simp+
  then show ?thesis using committed_configs committed_tables committed_emission by (simp only: list.map) blast
qed

section \<open>Literals read back\<close>

definition names_field :: "string \<Rightarrow> string \<Rightarrow> bool" where
  "names_field field l \<longleftrightarrow>
     (case strip_prefix field (trim l) of
        None \<Rightarrow> False
      | Some rest \<Rightarrow> strip_prefix '':'' (trim_start rest) \<noteq> None)"

definition digits_of :: "int \<Rightarrow> string \<Rightarrow> int" where
  "digits_of radix = foldl (\<lambda>n c. n * radix + the (to_digit radix c)) 0"

text \<open>A literal of the given radix: digits and separators, the value in range.\<close>

definition is_literal :: "int \<Rightarrow> string \<Rightarrow> bool" where
  "is_literal radix s \<longleftrightarrow>
     (\<exists>c \<in> set s. c \<noteq> CHR ''_'') \<and> (\<forall>c \<in> set s. c = CHR ''_'' \<or> to_digit radix c \<noteq> None) \<and>
     digits_of radix (filter (\<lambda>c. c \<noteq> CHR ''_'') s) < 4294967296"

definition literal_text :: "bool \<Rightarrow> string \<Rightarrow> string" where
  "literal_text hex s = (if hex then ''0x'' @ s else s)"

lemma strip_prefix_append [simp]: "strip_prefix p (p @ s) = Some s"
  by (induction p) auto

lemma strip_prefix_head: "strip_prefix (p # ps) s = Some r \<Longrightarrow> s \<noteq> [] \<and> hd s = p"
  by (cases s) (auto split: if_splits)

lemma lines_from_line:
  assumes "CHR 0x0A \<notin> set l" and "CHR 0x0D \<notin> set l" and "CHR 0x0D \<notin> set acc"
  shows "lines_from acc (l @ CHR 0x0A # rest) = (rev acc @ l) # lines_from [] rest"
  using assms by (induction l arbitrary: acc) (auto split: list.splits)

lemma lines_unlines:
  assumes "\<forall>l \<in> set ls. CHR 0x0A \<notin> set l \<and> CHR 0x0D \<notin> set l"
  shows "lines (unlines ls @ rest) = ls @ lines rest"
  using assms
proof (induction ls)
  case (Cons l ls)
  then show ?case using lines_from_line [of l "[]"] by (simp add: lines_def unlines_def)
qed (simp add: unlines_def)

lemma field_of_lines_skip:
  assumes "\<forall>l \<in> set pre. \<not> names_field field l"
  shows "field_of_lines field (pre @ ls) = field_of_lines field ls"
  using assms by (induction pre) (auto simp: names_field_def split: option.splits)

lemma parse_digits_value:
  assumes "\<forall>c \<in> set s. to_digit radix c \<noteq> None" and "0 \<le> n" and "1 < radix"
    and "foldl (\<lambda>n c. n * radix + the (to_digit radix c)) n s < 4294967296"
  shows "parse_digits radix n s = Some (foldl (\<lambda>n c. n * radix + the (to_digit radix c)) n s)"
  using assms
proof (induction s arbitrary: n)
  case (Cons c s)
  obtain d where d: "to_digit radix c = Some d" using Cons.prems(1) by auto
  have d0: "0 \<le> d" using d Cons.prems(3) by (auto simp: to_digit_def Let_def split: if_splits)
  have grow: "m \<le> foldl (\<lambda>n c. n * radix + the (to_digit radix c)) m s" if "0 \<le> m" for m
    using that Cons.prems(1)
  proof (induction s arbitrary: m)
    case (Cons e s)
    obtain k where k: "to_digit radix e = Some k" using Cons.prems(2) by auto
    have "0 \<le> k" using k \<open>1 < radix\<close> by (auto simp: to_digit_def Let_def split: if_splits)
    moreover have "m \<le> m * radix" using Cons.prems(1) \<open>1 < radix\<close> by (simp add: mult_le_cancel_left1)
    ultimately have "m \<le> m * radix + k" by linarith
    moreover have "m * radix + k \<le> foldl (\<lambda>n c. n * radix + the (to_digit radix c)) (m * radix + k) s"
      using Cons.IH [of "m * radix + k"] Cons.prems \<open>m \<le> m * radix + k\<close> by auto
    ultimately show ?case by (simp add: k)
  qed simp
  have "0 \<le> n * radix + d" using Cons.prems(2,3) d0 by simp
  with grow [of "n * radix + d"] Cons d show ?case by simp
qed simp

lemma no_digit:
  "is_whitespace c \<Longrightarrow> to_digit radix c = None" "to_digit radix (CHR '','') = None" "to_digit radix (CHR ''+'') = None"
  "to_digit 10 (CHR ''x'') = None" "to_digit 10 (CHR ''X'') = None"
  by (auto simp: to_digit_def is_whitespace_def Let_def)

lemma literal_chars:
  assumes "is_literal radix s" and "c \<in> set s"
  shows "\<not> is_whitespace c \<and> c \<noteq> CHR '','' \<and> c \<noteq> CHR 0x0A \<and> c \<noteq> CHR 0x0D"
proof -
  have "c = CHR ''_'' \<or> to_digit radix c \<noteq> None" using assms by (auto simp: is_literal_def)
  moreover have "is_whitespace (CHR 0x0A)" "is_whitespace (CHR 0x0D)" "\<not> is_whitespace (CHR ''_'')"
    by (simp_all add: is_whitespace_def)
  ultimately show ?thesis using no_digit(1) [of c radix] no_digit(2) [of radix] by auto
qed

lemma literal_digits:
  assumes "is_literal radix s" and "1 < radix"
  defines "ds \<equiv> filter (\<lambda>c. c \<noteq> CHR ''_'') s"
  shows "from_str_radix radix ds = Some (digits_of radix ds)" and "c \<in> set ds \<Longrightarrow> to_digit radix c \<noteq> None"
proof -
  have ds: "\<forall>c \<in> set ds. to_digit radix c \<noteq> None" "ds \<noteq> []" "digits_of radix ds < 4294967296"
    using assms(1) by (auto simp: is_literal_def ds_def filter_empty_conv)
  then show "c \<in> set ds \<Longrightarrow> to_digit radix c \<noteq> None" by blast
  have "hd ds \<noteq> CHR ''+''" using ds(1,2) no_digit(3) by (metis hd_in_set)
  moreover have "parse_digits radix 0 ds = Some (digits_of radix ds)"
    using parse_digits_value [OF ds(1) _ assms(2), of 0] ds(3) by (simp add: digits_of_def)
  ultimately show "from_str_radix radix ds = Some (digits_of radix ds)"
    using ds(2) by (cases ds) (simp_all add: from_str_radix_def)
qed

lemma trim_around:
  assumes "\<forall>c \<in> set ws. is_whitespace c" and "s \<noteq> []" and "\<not> is_whitespace (hd s)" and "\<not> is_whitespace (last s)"
  shows "trim (ws @ s) = s"
proof -
  have "dropWhile is_whitespace (ws @ s) = s"
    using assms(1-3) by (cases s) (auto simp: dropWhile_append2)
  moreover have "dropWhile is_whitespace (rev s) = rev s"
    using assms(2,4) by (cases s rule: rev_cases) simp_all
  ultimately show ?thesis by (simp add: trim_def trim_start_def trim_end_def)
qed

lemma parse_value_literal:
  assumes "is_literal (if hex then 16 else 10) s" and "\<forall>c \<in> set ws. is_whitespace c"
  shows "parse_value (ws @ literal_text hex s @ '','') =
         of_int (digits_of (if hex then 16 else 10) (filter (\<lambda>c. c \<noteq> CHR ''_'') s))"
proof -
  let ?t = "literal_text hex s" and ?ds = "filter (\<lambda>c. c \<noteq> CHR ''_'') s"
  have s: "s \<noteq> []" by (rule ccontr) (use assms(1) in \<open>simp add: is_literal_def\<close>)
  have chars: "\<not> is_whitespace c \<and> c \<noteq> CHR '',''" if "c \<in> set ?t" for c
  proof -
    have "c \<in> set s \<or> c = CHR ''0'' \<or> c = CHR ''x''" using that by (auto simp: literal_text_def split: if_splits)
    then show ?thesis using literal_chars [OF assms(1)] by (auto simp: is_whitespace_def)
  qed
  have t: "?t \<noteq> []" using s by (simp add: literal_text_def)
  have "trim (ws @ ?t @ '','') = ?t @ '',''"
    using assms(2) chars t by (intro trim_around) (auto simp: hd_append is_whitespace_def)
  moreover have "trim_end_matches (CHR '','') (?t @ '','') = ?t"
  proof -
    obtain u c where u: "?t = u @ [c]" using t by (metis rev_exhaust)
    then have "c \<noteq> CHR '',''" using chars [of c] by simp
    then show ?thesis unfolding u by (simp add: trim_end_matches_def)
  qed
  moreover have "filter (\<lambda>c. c \<noteq> CHR ''_'') ?t = literal_text hex ?ds" by (simp add: literal_text_def)
  ultimately have v: "parse_value (ws @ ?t @ '','') =
      (case (case strip_prefix ''0x'' (literal_text hex ?ds) of Some h \<Rightarrow> Some h
             | None \<Rightarrow> strip_prefix ''0X'' (literal_text hex ?ds)) of
         Some h \<Rightarrow> (case from_str_radix 16 h of Some n \<Rightarrow> of_int n | None \<Rightarrow> 0)
       | None \<Rightarrow> (case from_str_radix 10 (literal_text hex ?ds) of Some n \<Rightarrow> of_int n | None \<Rightarrow> 0))"
    by (simp add: parse_value_def Let_def)
  show ?thesis
  proof (cases hex)
    case True
    then show ?thesis unfolding v using literal_digits(1) [of 16 s] assms(1) by (simp add: literal_text_def)
  next
    case False
    have "strip_prefix (CHR ''0'' # p # []) ?ds = None" if "to_digit 10 p = None" for p
    proof (rule ccontr)
      assume "strip_prefix (CHR ''0'' # p # []) ?ds \<noteq> None"
      then have "p \<in> set ?ds" by (cases ?ds; cases "tl ?ds") (auto split: if_splits)
      with literal_digits(2) [of 10 s p] assms(1) False that show False by simp
    qed
    then show ?thesis unfolding v using literal_digits(1) [of 10 s] assms(1) False no_digit(4,5)
      by (simp add: literal_text_def)
  qed
qed

text \<open>
  C37: a field is read back as it was written: in a block whose earlier lines name other fields, an
  indented line with the field's name, a colon, and a decimal or hexadecimal literal below \<open>2^32\<close>, with
  underscores wherever its writer put them, gives the literal's value, whatever follows.
\<close>

theorem parse_u32_field_reads_back:
  assumes "\<forall>l \<in> set pre. CHR 0x0A \<notin> set l \<and> CHR 0x0D \<notin> set l \<and> \<not> names_field field l"
    and "field \<noteq> []" and "\<forall>c \<in> set field. \<not> is_whitespace c" and "set indent \<subseteq> {CHR 0x09, CHR '' ''}"
    and "is_literal (if hex then 16 else 10) s"
  shows "parse_u32_field (unlines (pre @ [indent @ field @ '': '' @ literal_text hex s @ '','']) @ rest) field =
         of_int (digits_of (if hex then 16 else 10) (filter (\<lambda>c. c \<noteq> CHR ''_'') s))"
proof -
  let ?t = "literal_text hex s" and ?l = "indent @ field @ '': '' @ literal_text hex s @ '',''"
  have ws: "is_whitespace (CHR 0x0A)" "is_whitespace (CHR 0x0D)" "\<forall>c \<in> set indent. is_whitespace c"
    using assms(4) by (auto simp: is_whitespace_def)
  have "c \<in> set s \<or> c = CHR ''0'' \<or> c = CHR ''x''" if "c \<in> set ?t" for c
    using that by (auto simp: literal_text_def split: if_splits)
  then have "CHR 0x0A \<notin> set ?t" "CHR 0x0D \<notin> set ?t" using literal_chars [OF assms(5)] by fastforce+
  then have clean: "CHR 0x0A \<notin> set ?l" "CHR 0x0D \<notin> set ?l" using assms(3,4) ws(1,2) by auto
  have "trim ?l = field @ '': '' @ ?t @ '',''"
    using ws(3) assms(2,3) by (intro trim_around) (auto simp: hd_append is_whitespace_def)
  moreover have "trim_start ('': '' @ ?t @ '','') = '': '' @ ?t @ '',''" by (simp add: trim_start_def is_whitespace_def)
  moreover have "parse_value ('' '' @ ?t @ '','') =
      of_int (digits_of (if hex then 16 else 10) (filter (\<lambda>c. c \<noteq> CHR ''_'') s))"
    by (rule parse_value_literal [OF assms(5)]) (simp add: is_whitespace_def)
  ultimately have line: "field_of_lines field (?l # lines rest) =
      of_int (digits_of (if hex then 16 else 10) (filter (\<lambda>c. c \<noteq> CHR ''_'') s))"
    by simp
  have "lines (unlines (pre @ [?l]) @ rest) = pre @ ?l # lines rest"
    using lines_unlines [of "pre @ [?l]" rest] assms(1) clean by simp
  with line assms(1) show ?thesis by (simp add: parse_u32_field_def field_of_lines_skip)
qed

theorem parse_u32_field_reads_back_witness:
  "parse_u32_field (unlines [[CHR 0x09] @ ''priority_class: 9,'', [CHR 0x09] @ ''priority: 0x0000_00FF,''] @ ''}'') ''priority'' = 255"
proof -
  have "\<not> names_field ''priority'' ([CHR 0x09] @ ''priority_class: 9,'')" by code_simp
  moreover have "is_literal 16 ''0000_00FF''" by code_simp
  moreover have "digits_of 16 (filter (\<lambda>c. c \<noteq> CHR ''_'') ''0000_00FF'') = 255" by code_simp
  ultimately show ?thesis
    using parse_u32_field_reads_back [of "[[CHR 0x09] @ ''priority_class: 9,'']" "''priority''" "[CHR 0x09]" True "''0000_00FF''" "''}''"]
    by (simp add: is_whitespace_def literal_text_def)
qed

end
