(* ===== verification/Build_Script.thy ===== *)
theory Build_Script
  imports Config_Source
begin

text \<open>
  The build script (\<^verbatim>\<open>kernel/build.rs\<close>) on a file system: it runs the OML transpiler when there is one,
  copies what it produced under \<^verbatim>\<open>src/generated\<close>, and emits the priority tables from the task sets
  found there. The transpiler is not part of the repository: it is the field \<open>oml\<close> of the environment,
  a function of the binary, its input path and all files. Whether a path can be written, too, is given
  by the environment. Directories are written without a trailing separator, as Cargo passes them.
\<close>

section \<open>Model\<close>

type_synonym files = "string \<Rightarrow> string option"

text \<open>How the transpiler process ends: its exit status, and the file it left in the output directory.\<close>

datatype oml_result = NotInvoked | Exited bool "string option"

record build_env =
  manifest_dir :: string
  out_dir_var :: string
  oml_bin_var :: "string option"
  oml :: "string \<Rightarrow> string \<Rightarrow> files \<Rightarrow> oml_result"
  may_write :: "string \<Rightarrow> bool"

datatype build_error =
    CreateDirFailed string
  | InvokeFailed
  | TranspilerFailed string
  | NoOutput string
  | ReadFailed string
  | WriteFailed string
  | GeneratorPanic fault

text \<open>The files, the lines printed for Cargo, and the paths \<open>write_if_changed\<close> has written.\<close>

record build =
  bs_files :: files
  bs_lines :: "string list"
  bs_written :: "string list"

type_synonym 'a build_res = "build_error + 'a"

definition bind_build :: "'a build_res \<Rightarrow> ('a \<Rightarrow> 'b build_res) \<Rightarrow> 'b build_res" where
  "bind_build m f = (case m of Inl e \<Rightarrow> Inl e | Inr x \<Rightarrow> f x)"

fun fold_build :: "('a \<Rightarrow> 's \<Rightarrow> 's build_res) \<Rightarrow> 'a list \<Rightarrow> 's \<Rightarrow> 's build_res" where
  "fold_build f [] s = Inr s"
| "fold_build f (x # xs) s = bind_build (f x s) (fold_build f xs)"

definition path_join :: "string \<Rightarrow> string \<Rightarrow> string" where
  "path_join d f = d @ ''/'' @ f"

text \<open>The name up to its last dot.\<close>

definition file_stem :: "string \<Rightarrow> string" where
  "file_stem s = (if CHR ''.'' \<in> set s then rev (drop 1 (dropWhile (\<lambda>c. c \<noteq> CHR ''.'') (rev s))) else s)"

definition generated_file :: "build_env \<Rightarrow> string \<Rightarrow> string" where
  "generated_file env name = path_join (path_join (manifest_dir env) ''src/generated'') name"

definition scratch_file :: "build_env \<Rightarrow> string \<Rightarrow> string" where
  "scratch_file env source = path_join (path_join (out_dir_var env) ''oml'') (file_stem source @ ''.rs'')"

definition println :: "string \<Rightarrow> build \<Rightarrow> build" where
  "println l st = st\<lparr>bs_lines := bs_lines st @ [l]\<rparr>"

definition write_if_changed :: "build_env \<Rightarrow> string \<Rightarrow> string \<Rightarrow> build \<Rightarrow> build build_res" where
  "write_if_changed env path contents st =
     (if bs_files st path = Some contents then Inr st
      else if may_write env path
      then Inr (st\<lparr>bs_files := (bs_files st)(path \<mapsto> contents), bs_written := bs_written st @ [path]\<rparr>)
      else Inl (WriteFailed path))"

definition find_oml_binary :: "build_env \<Rightarrow> build \<Rightarrow> string option \<times> build" where
  "find_oml_binary env st =
     (let fallback = (\<lambda>st.
        let submodule = path_join (manifest_dir env) ''../oml/target/release/oml'';
            st1 = println (''cargo:rerun-if-changed='' @ submodule) st
        in (if bs_files st1 submodule \<noteq> None then Some submodule else None, st1))
      in case oml_bin_var env of
           Some bin \<Rightarrow>
             if bs_files st bin \<noteq> None then (Some bin, st)
             else fallback (println (''cargo:warning=OML_BIN='' @ bin @ '' not found on disk.'') st)
         | None \<Rightarrow> fallback st)"

definition OML_SOURCES :: "(string \<times> string) list" where
  "OML_SOURCES =
     [(''task.oml'', ''task_schema.rs''), (''demo_tasks.oml'', ''demo_tasks.rs''),
      (''pipeline_tasks.oml'', ''pipeline_tasks.rs'')]"

definition transpile :: "build_env \<Rightarrow> string \<Rightarrow> string \<times> string \<Rightarrow> build \<Rightarrow> build build_res" where
  "transpile env oml_bin = (\<lambda>(source, target) st.
     let input = path_join (path_join (manifest_dir env) ''../tasks'') source in
     case oml env oml_bin input (bs_files st) of
       NotInvoked \<Rightarrow> Inl InvokeFailed
     | Exited success produced \<Rightarrow>
         let st1 = (case produced of
                      None \<Rightarrow> st
                    | Some text \<Rightarrow> st\<lparr>bs_files := (bs_files st)(scratch_file env source \<mapsto> text)\<rparr>)
         in if \<not> success then Inl (TranspilerFailed source)
            else case bs_files st1 (scratch_file env source) of
                   None \<Rightarrow> Inl (NoOutput source)
                 | Some text \<Rightarrow> write_if_changed env (generated_file env target) text st1)"

text \<open>The dash and the arrow of the messages, as UTF-8.\<close>

definition em_dash :: string where "em_dash = [CHR 0xE2] @ [CHR 0x80] @ [CHR 0x94]"

definition arrow :: string where "arrow = [CHR 0xE2] @ [CHR 0x86] @ [CHR 0x92]"

definition cycle_warning :: "string \<Rightarrow> nat \<times> nat \<Rightarrow> string" where
  "cycle_warning source = (\<lambda>(frm, to).
     ''cargo:warning=CCG cycle detected in '' @ source @ '': task '' @ show_nat frm @ '' '' @ arrow @ '' task '' @
     show_nat to @ '' '' @ arrow @ '' ... Mutual block '' @ em_dash @
     '' check capability declarations in tasks/*.oml.'')"

definition read_set :: "build_env \<Rightarrow> string \<times> string \<Rightarrow> build \<times> u8 list list \<Rightarrow> (build \<times> u8 list list) build_res" where
  "read_set env = (\<lambda>(source, const_name) (st, mips).
     let st1 = println (''cargo:rerun-if-changed=src/generated/'' @ source) st in
     case bs_files st1 (generated_file env source) of
       None \<Rightarrow> Inl (ReadFailed source)
     | Some src \<Rightarrow>
         let tasks = parse_task_configs src in
         (case find_cycle_back_edges tasks of
            Inl f \<Rightarrow> Inl (GeneratorPanic f)
          | Inr edges \<Rightarrow>
              let st2 = fold (\<lambda>e. println (cycle_warning source e)) edges st1 in
              (case compute_mip tasks of
                 Inl f \<Rightarrow> Inl (GeneratorPanic f)
               | Inr mip \<Rightarrow> Inr (st2, mips @ [mip]))))"

definition emit_tables :: "build_env \<Rightarrow> build \<Rightarrow> build build_res" where
  "emit_tables env st =
     bind_build (fold_build (read_set env) TASK_SETS (st, [])) (\<lambda>(st1, mips).
       let tables = map (\<lambda>((source, const_name), mip). \<lparr>mt_const_name = const_name, mt_source = source, mt_mip = mip\<rparr>)
                      (zip TASK_SETS mips)
       in write_if_changed env (generated_file env ''ccg_constants.rs'') (render_ccg_constants tables MAX_TASKS) st1)"

definition oml_missing :: string where
  "oml_missing = ''cargo:warning=OML binary not found '' @ em_dash @ '' using committed generated files.''"

definition run_oml :: "build_env \<Rightarrow> build \<Rightarrow> build build_res" where
  "run_oml env st =
     (case find_oml_binary env st of
        (Some oml_bin, st1) \<Rightarrow>
          let scratch = path_join (out_dir_var env) ''oml'' in
          if may_write env scratch then fold_build (transpile env oml_bin) OML_SOURCES st1
          else Inl (CreateDirFailed scratch)
      | (None, st1) \<Rightarrow>
          Inr (println oml_missing st1))"

text \<open>The directives printed before the transpiler step and before the emission.\<close>

definition setup_lines :: "build_env \<Rightarrow> string list" where
  "setup_lines env =
     [''cargo::rustc-check-cfg=cfg(kani)'', ''cargo:rustc-link-search='' @ manifest_dir env,
      ''cargo:rerun-if-changed=memory.x'', ''cargo:rerun-if-changed=../tasks/'',
      ''cargo:rerun-if-env-changed=OML_BIN'']"

definition emission_lines :: "string list" where
  "emission_lines = [''cargo:rerun-if-changed=build.rs'', ''cargo:rerun-if-changed=build/ccg_gen.rs'']"

definition build_main :: "build_env \<Rightarrow> files \<Rightarrow> build build_res" where
  "build_main env fs =
     (let st0 = fold println (setup_lines env) \<lparr>bs_files = fs, bs_lines = [], bs_written = []\<rparr>;
          out_dir = path_join (manifest_dir env) ''src/generated''
      in if \<not> may_write env out_dir then Inl (CreateDirFailed out_dir)
         else bind_build (run_oml env st0) (\<lambda>st1. emit_tables env (fold println emission_lines st1)))"

section \<open>Paths\<close>

lemma path_join_eq_iff:
  assumes "CHR ''/'' \<notin> set f" and "CHR ''/'' \<notin> set g"
  shows "path_join d f = path_join e g \<longleftrightarrow> d = e \<and> f = g"
proof
  assume eq: "path_join d f = path_join e g"
  have name: "takeWhile (\<lambda>c. c \<noteq> CHR ''/'') (rev (path_join d' f')) = rev f'" if "CHR ''/'' \<notin> set f'" for d' f'
    using that by (simp add: path_join_def) (subst takeWhile_append2; auto)
  have "f = g" using name [OF assms(1), of d] name [OF assms(2), of e] eq by simp
  with eq show "d = e \<and> f = g" by (simp add: path_join_def)
qed simp

lemma generated_dir: "path_join m ''src/generated'' = path_join (path_join m ''src'') ''generated''"
  by (simp add: path_join_def)

lemma generated_file_eq_iff:
  "CHR ''/'' \<notin> set a \<Longrightarrow> CHR ''/'' \<notin> set b \<Longrightarrow> generated_file env a = generated_file env b \<longleftrightarrow> a = b"
  by (simp add: generated_file_def path_join_eq_iff)

lemma scratch_not_generated:
  "CHR ''/'' \<notin> set b \<Longrightarrow> CHR ''/'' \<notin> set (file_stem a) \<Longrightarrow> scratch_file env a \<noteq> generated_file env b"
  by (simp add: scratch_file_def generated_file_def path_join_eq_iff generated_dir)

lemma scratch_file_eq_iff:
  "CHR ''/'' \<notin> set (file_stem a) \<Longrightarrow> CHR ''/'' \<notin> set (file_stem b) \<Longrightarrow>
   scratch_file env a = scratch_file env b \<longleftrightarrow> file_stem a = file_stem b"
  by (simp add: scratch_file_def path_join_eq_iff)

lemma file_stems [simp]:
  "file_stem ''task.oml'' = ''task''" "file_stem ''demo_tasks.oml'' = ''demo_tasks''"
  "file_stem ''pipeline_tasks.oml'' = ''pipeline_tasks''"
  by (simp_all add: file_stem_def)

section \<open>The emitted tables\<close>

lemma bind_build_simps [simp]: "bind_build (Inl e) f = Inl e" "bind_build (Inr x) f = f x"
  by (simp_all add: bind_build_def)

lemma bind_build_eq_Inr_iff: "bind_build m f = Inr y \<longleftrightarrow> (\<exists>x. m = Inr x \<and> f x = Inr y)"
  by (cases m) auto

lemma println_sel [simp]:
  "bs_files (println l st) = bs_files st" "bs_written (println l st) = bs_written st"
  by (simp_all add: println_def)

lemma fold_println_sel [simp]:
  "bs_files (fold (\<lambda>e. println (g e)) es st) = bs_files st"
  "bs_written (fold (\<lambda>e. println (g e)) es st) = bs_written st"
  by (induction es arbitrary: st) simp_all

lemma read_set_Inr:
  assumes "read_set env (source, name) (st, mips) = Inr (st', mips')"
  shows "\<exists>src edges mip. bs_files st (generated_file env source) = Some src \<and>
           find_cycle_back_edges (parse_task_configs src) = Inr edges \<and> compute_mip (parse_task_configs src) = Inr mip \<and>
           mips' = mips @ [mip] \<and> bs_files st' = bs_files st \<and> bs_written st' = bs_written st"
  using assms by (auto simp: read_set_def Let_def split: option.splits sum.splits)

text \<open>The reading loop computes what the generator computes on the files it reads, and changes no file.\<close>

lemma read_sets_emission:
  assumes "fold_build (read_set env) TASK_SETS (st, []) = Inr (st1, mips)"
  shows "bs_files st1 = bs_files st \<and> bs_written st1 = bs_written st \<and>
         (\<forall>(source, name) \<in> set TASK_SETS. bs_files st (generated_file env source) \<noteq> None) \<and>
         (\<exists>w. ccg_emission (\<lambda>s. the (bs_files st (generated_file env s))) =
            Inr (w, render_ccg_constants
              (map (\<lambda>((source, const_name), mip). \<lparr>mt_const_name = const_name, mt_source = source, mt_mip = mip\<rparr>)
                 (zip TASK_SETS mips)) MAX_TASKS))"
  using assms
  by (auto simp: TASK_SETS_def bind_build_eq_Inr_iff ccg_emission_def emit_set_def Let_def dest!: read_set_Inr)

lemma emit_tables_Inr:
  assumes "emit_tables env st = Inr st'"
  shows "\<exists>w text. ccg_emission (\<lambda>s. the (bs_files st (generated_file env s))) = Inr (w, text) \<and>
           bs_files st' = (bs_files st)(generated_file env ''ccg_constants.rs'' \<mapsto> text) \<and>
           (\<forall>(source, name) \<in> set TASK_SETS. bs_files st (generated_file env source) \<noteq> None)"
proof -
  obtain st1 mips where r: "fold_build (read_set env) TASK_SETS (st, []) = Inr (st1, mips)"
    and w: "write_if_changed env (generated_file env ''ccg_constants.rs'') (render_ccg_constants
       (map (\<lambda>((source, const_name), mip). \<lparr>mt_const_name = const_name, mt_source = source, mt_mip = mip\<rparr>)
          (zip TASK_SETS mips)) MAX_TASKS) st1 = Inr st'"
    using assms by (auto simp: emit_tables_def bind_build_eq_Inr_iff Let_def)
  from w read_sets_emission [OF r] show ?thesis
    by (auto simp: write_if_changed_def split: if_splits)
qed

section \<open>The transpiler step\<close>

text \<open>The files a build may write.\<close>

definition outputs :: "build_env \<Rightarrow> string set" where
  "outputs env =
     (\<Union>(source, target) \<in> set OML_SOURCES. {scratch_file env source, generated_file env target}) \<union>
     {generated_file env ''ccg_constants.rs''}"

text \<open>
  What the build relies on: the transpiler does not read the files the build writes, and \<open>OML_BIN\<close>, if
  set, is not one of them.
\<close>

definition reads_sources :: "build_env \<Rightarrow> bool" where
  "reads_sources env \<longleftrightarrow>
     (\<forall>bin input fs fs'. (\<forall>p. p \<notin> outputs env \<longrightarrow> fs p = fs' p) \<longrightarrow> oml env bin input fs = oml env bin input fs') \<and>
     (\<forall>bin. oml_bin_var env = Some bin \<longrightarrow> bin \<notin> outputs env)"

definition same_sources :: "build_env \<Rightarrow> files \<Rightarrow> files \<Rightarrow> bool" where
  "same_sources env fs fs' \<longleftrightarrow> (\<forall>p. p \<notin> outputs env \<longrightarrow> fs' p = fs p)"

text \<open>The outputs for one source are up to date.\<close>

definition settled :: "build_env \<Rightarrow> string \<Rightarrow> files \<Rightarrow> string \<times> string \<Rightarrow> bool" where
  "settled env bin fs = (\<lambda>(source, target).
     \<exists>text produced.
       oml env bin (path_join (path_join (manifest_dir env) ''../tasks'') source) fs = Exited True produced \<and>
       (produced = None \<or> produced = Some text) \<and>
       fs (scratch_file env source) = Some text \<and> fs (generated_file env target) = Some text)"

lemma write_if_changed_Inr:
  "write_if_changed env path text st = Inr st' \<Longrightarrow> bs_files st' = (bs_files st)(path \<mapsto> text)"
  by (auto simp: write_if_changed_def split: if_splits)

lemma write_if_unchanged [simp]: "bs_files st path = Some text \<Longrightarrow> write_if_changed env path text st = Inr st"
  by (simp add: write_if_changed_def)

lemma transpile_settled:
  "settled env bin (bs_files st) x \<Longrightarrow> transpile env bin x st = Inr st"
  by (cases x) (auto simp: settled_def transpile_def Let_def fun_upd_idem)

lemma transpile_files:
  assumes "transpile env bin (source, target) st = Inr st'" and "scratch_file env source \<noteq> generated_file env target"
  shows "\<exists>text produced.
    oml env bin (path_join (path_join (manifest_dir env) ''../tasks'') source) (bs_files st) = Exited True produced \<and>
    (produced = None \<or> produced = Some text) \<and>
    bs_files st' = (bs_files st)(scratch_file env source \<mapsto> text, generated_file env target \<mapsto> text)"
proof -
  obtain produced where p: "oml env bin (path_join (path_join (manifest_dir env) ''../tasks'') source) (bs_files st) =
      Exited True produced"
    using assms(1) by (auto simp: transpile_def Let_def split: oml_result.splits if_splits)
  show ?thesis
  proof (cases produced)
    case None
    with p assms(1) obtain body where "bs_files st (scratch_file env source) = Some body"
      "write_if_changed env (generated_file env target) body st = Inr st'"
      by (auto simp: transpile_def Let_def split: option.splits)
    with p None show ?thesis
      by (auto dest!: write_if_changed_Inr simp: fun_upd_idem intro!: exI [of _ body])
  next
    case (Some body)
    with p assms(1) show ?thesis by (auto simp: transpile_def Let_def dest!: write_if_changed_Inr)
  qed
qed

text \<open>The names of the outputs have no separator and are all different.\<close>

lemma oml_source_names:
  assumes "(source, target) \<in> set OML_SOURCES"
  shows "CHR ''/'' \<notin> set (file_stem source)" "CHR ''/'' \<notin> set target" "target \<noteq> ''ccg_constants.rs''"
  using assms by (auto simp: OML_SOURCES_def)

lemma oml_outputs_differ:
  assumes "(s, t) \<in> set OML_SOURCES" and "(s', t') \<in> set OML_SOURCES"
  shows "scratch_file env s \<noteq> generated_file env t'" "generated_file env t \<noteq> generated_file env ''ccg_constants.rs''"
    "scratch_file env s \<noteq> generated_file env ''ccg_constants.rs''"
    "scratch_file env s = scratch_file env s' \<longleftrightarrow> s = s'" "generated_file env t = generated_file env t' \<longleftrightarrow> t = t'"
    "s = s' \<longleftrightarrow> t = t'"
proof -
  note n = oml_source_names [OF assms(1)] and n' = oml_source_names [OF assms(2)]
  show "scratch_file env s \<noteq> generated_file env t'" by (rule scratch_not_generated [OF n'(2) n(1)])
  show "scratch_file env s \<noteq> generated_file env ''ccg_constants.rs''" by (rule scratch_not_generated [OF _ n(1)]) simp
  show "generated_file env t \<noteq> generated_file env ''ccg_constants.rs''" using n by (simp add: generated_file_eq_iff)
  show "scratch_file env s = scratch_file env s' \<longleftrightarrow> s = s'"
    using assms by (simp add: scratch_file_eq_iff [OF n(1) n'(1)]) (auto simp: OML_SOURCES_def)
  show "generated_file env t = generated_file env t' \<longleftrightarrow> t = t'" using n n' by (simp add: generated_file_eq_iff)
  show "s = s' \<longleftrightarrow> t = t'" using assms by (auto simp: OML_SOURCES_def)
qed

lemma oml_same_sources:
  "reads_sources env \<Longrightarrow> same_sources env fs fs' \<Longrightarrow> oml env bin input fs' = oml env bin input fs"
  by (simp add: reads_sources_def same_sources_def)

lemma output_upd_same_sources:
  "(s, t) \<in> set OML_SOURCES \<Longrightarrow> same_sources env fs (fs(scratch_file env s \<mapsto> x, generated_file env t \<mapsto> y))"
  by (auto simp: same_sources_def outputs_def)

text \<open>One source after the other is settled, and stays so.\<close>

lemma transpile_step:
  assumes step: "transpile env bin x st = Inr st'" and x: "x \<in> set OML_SOURCES" and rs: "reads_sources env"
  shows "same_sources env (bs_files st) (bs_files st') \<and> settled env bin (bs_files st') x \<and>
         (\<forall>y \<in> set OML_SOURCES. settled env bin (bs_files st) y \<longrightarrow> settled env bin (bs_files st') y)"
proof -
  obtain s t where xx: "x = (s, t)" by (cases x)
  have st: "(s, t) \<in> set OML_SOURCES" using x xx by simp
  obtain body produced where b: "oml env bin (path_join (path_join (manifest_dir env) ''../tasks'') s) (bs_files st) = Exited True produced"
    "produced = None \<or> produced = Some body"
    "bs_files st' = (bs_files st)(scratch_file env s \<mapsto> body, generated_file env t \<mapsto> body)"
    using transpile_files [OF step [unfolded xx] oml_outputs_differ(1) [OF st st]] by blast
  have same: "same_sources env (bs_files st) (bs_files st')" unfolding b(3) by (rule output_upd_same_sources [OF st])
  note oml = oml_same_sources [OF rs same]
  have here: "settled env bin (bs_files st') x"
    using b oml oml_outputs_differ(1) [OF st st] by (simp add: settled_def xx)
  have "settled env bin (bs_files st') y" if y: "y \<in> set OML_SOURCES" "settled env bin (bs_files st) y" for y
  proof (cases "y = x")
    case False
    obtain s' t' where yy: "y = (s', t')" by (cases y)
    have st': "(s', t') \<in> set OML_SOURCES" using y yy by simp
    have "s' \<noteq> s" "t' \<noteq> t" using False xx yy oml_outputs_differ(6) [OF st st'] by auto
    then have "bs_files st' (scratch_file env s') = bs_files st (scratch_file env s')"
      "bs_files st' (generated_file env t') = bs_files st (generated_file env t')"
      using oml_outputs_differ [OF st st'] oml_outputs_differ [OF st' st] not_sym [OF oml_outputs_differ(1) [OF st st']]
      by (simp_all add: b(3))
    with y(2) show ?thesis by (simp add: settled_def yy oml)
  qed (simp add: here)
  with same here show ?thesis by blast
qed

lemma same_sources_trans: "same_sources env a b \<Longrightarrow> same_sources env b c \<Longrightarrow> same_sources env a c"
  by (simp add: same_sources_def)

lemma transpile_all:
  assumes "fold_build (transpile env bin) xs st = Inr st'" and "set xs \<subseteq> set OML_SOURCES" and "reads_sources env"
  shows "same_sources env (bs_files st) (bs_files st') \<and>
         (\<forall>y \<in> set OML_SOURCES. y \<in> set xs \<or> settled env bin (bs_files st) y \<longrightarrow> settled env bin (bs_files st') y)"
  using assms
proof (induction xs arbitrary: st)
  case Nil
  then show ?case by (simp add: same_sources_def)
next
  case (Cons x xs)
  then obtain st1 where st1: "transpile env bin x st = Inr st1" "fold_build (transpile env bin) xs st1 = Inr st'"
    by (auto simp: bind_build_eq_Inr_iff)
  note a = transpile_step [OF st1(1) _ Cons.prems(3)]
  from Cons.IH [OF st1(2)] Cons.prems a same_sources_trans show ?case by (simp, blast)
qed

lemma transpile_all_settled:
  "\<forall>x \<in> set xs. settled env bin (bs_files st) x \<Longrightarrow> fold_build (transpile env bin) xs st = Inr st"
  by (induction xs) (auto simp: transpile_settled)

lemma find_oml_binary_state [simp]:
  "bs_files (snd (find_oml_binary env st)) = bs_files st" "bs_written (snd (find_oml_binary env st)) = bs_written st"
  by (simp_all add: find_oml_binary_def Let_def split: option.split)

lemma submodule_not_output: "path_join m ''../oml/target/release/oml'' \<notin> outputs env"
proof -
  have "path_join m ''../oml/target/release/oml'' = path_join (path_join m ''../oml/target/release'') ''oml''"
    by (simp add: path_join_def)
  then show ?thesis
    by (auto simp: outputs_def OML_SOURCES_def scratch_file_def generated_file_def path_join_eq_iff)
qed

lemma find_oml_binary_same:
  assumes "reads_sources env" and "same_sources env (bs_files st) (bs_files st')"
  shows "fst (find_oml_binary env st') = fst (find_oml_binary env st)"
  using assms submodule_not_output [of "manifest_dir env" env]
  by (auto simp: find_oml_binary_def Let_def reads_sources_def same_sources_def split: option.splits)

lemma settled_constants:
  assumes "settled env bin fs x" and "x \<in> set OML_SOURCES" and "reads_sources env"
  shows "settled env bin (fs(generated_file env ''ccg_constants.rs'' \<mapsto> c)) x"
proof -
  obtain s t where x: "x = (s, t)" by (cases x)
  have "same_sources env fs (fs(generated_file env ''ccg_constants.rs'' \<mapsto> c))"
    by (auto simp: same_sources_def outputs_def)
  moreover have "(s, t) \<in> set OML_SOURCES" using assms(2) x by simp
  ultimately show ?thesis
    using assms(1) oml_outputs_differ(2,3) [of s t s t env] by (simp add: settled_def x oml_same_sources [OF assms(3)])
qed

lemma run_oml_split:
  "run_oml env st =
     (case fst (find_oml_binary env st) of
        Some bin \<Rightarrow>
          if may_write env (path_join (out_dir_var env) ''oml'')
          then fold_build (transpile env bin) OML_SOURCES (snd (find_oml_binary env st))
          else Inl (CreateDirFailed (path_join (out_dir_var env) ''oml''))
      | None \<Rightarrow> Inr (println oml_missing (snd (find_oml_binary env st))))"
  by (simp add: run_oml_def Let_def split: prod.split option.split)

text \<open>After the transpiler step, and with the tables written, the step has nothing left to do.\<close>

lemma run_oml_again:
  assumes "run_oml env st = Inr st1" and rs: "reads_sources env"
    and st2: "bs_files st2 = (bs_files st1)(generated_file env ''ccg_constants.rs'' \<mapsto> c)"
  shows "\<exists>st3. run_oml env st2 = Inr st3 \<and> bs_files st3 = bs_files st2 \<and> bs_written st3 = bs_written st2"
proof -
  let ?f = "find_oml_binary env st" and ?g = "find_oml_binary env st2"
  have c: "same_sources env (bs_files st1) (bs_files st2)"
    by (auto simp: st2 same_sources_def outputs_def)
  show ?thesis
  proof (cases "fst ?f")
    case None
    then have "bs_files st1 = bs_files st"
      using assms(1) by (auto simp: run_oml_split)
    with c have "fst ?g = None" using None find_oml_binary_same [OF rs, of st st2] by simp
    then show ?thesis by (simp add: run_oml_split)
  next
    case (Some bin)
    then have w: "may_write env (path_join (out_dir_var env) ''oml'')"
      "fold_build (transpile env bin) OML_SOURCES (snd ?f) = Inr st1"
      using assms(1) by (auto simp: run_oml_split split: if_splits)
    note t = transpile_all [OF w(2) _ rs, simplified]
    have "fst ?g = Some bin"
      using find_oml_binary_same [OF rs same_sources_trans [OF _ c], of st] t Some by simp
    moreover have "fold_build (transpile env bin) OML_SOURCES (snd ?g) = Inr (snd ?g)"
      using t by (intro transpile_all_settled) (auto simp: st2 intro: settled_constants [OF _ _ rs])
    ultimately show ?thesis
      using w(1) by (simp add: run_oml_split)
  qed
qed

lemma emit_tables_again:
  assumes "ccg_emission (\<lambda>s. the (bs_files st (generated_file env s))) = Inr (w, c)"
    and "bs_files st (generated_file env ''ccg_constants.rs'') = Some c"
    and "\<forall>(source, name) \<in> set TASK_SETS. bs_files st (generated_file env source) \<noteq> None"
  shows "\<exists>st'. emit_tables env st = Inr st' \<and> bs_files st' = bs_files st \<and> bs_written st' = bs_written st"
proof -
  have "\<exists>st1 mips. fold_build (read_set env) TASK_SETS (st, []) = Inr (st1, mips)"
    using assms(1,3)
    by (auto simp: TASK_SETS_def ccg_emission_def emit_set_def read_set_def Let_def bind_res_eq_Inr_iff)
  then obtain st1 mips where r: "fold_build (read_set env) TASK_SETS (st, []) = Inr (st1, mips)" by blast
  from read_sets_emission [OF r] assms(1,2) r show ?thesis by (auto simp: emit_tables_def Let_def)
qed

section \<open>What a build leaves behind\<close>

lemma fold_res_cong_set: "(\<And>x. x \<in> set xs \<Longrightarrow> f x = g x) \<Longrightarrow> fold_res f xs = fold_res g xs"
  by (induction xs) (simp_all add: fun_eq_iff [of "fold_res _ (_ # _)"] fun_eq_iff [of "fold_res _ []"])

lemma ccg_emission_cong: "(\<And>s n. (s, n) \<in> set TASK_SETS \<Longrightarrow> f s = g s) \<Longrightarrow> ccg_emission f = ccg_emission g"
proof -
  assume *: "\<And>s n. (s, n) \<in> set TASK_SETS \<Longrightarrow> f s = g s"
  have "fold_res (emit_set f) TASK_SETS = fold_res (emit_set g) TASK_SETS"
    by (rule fold_res_cong_set) (auto simp: emit_set_def * fun_eq_iff)
  then show ?thesis by (simp add: ccg_emission_def)
qed

lemma build_main_Inr:
  assumes "build_main env fs = Inr st"
  shows "\<exists>st0 st1 w c. bs_files st0 = fs \<and> may_write env (path_join (manifest_dir env) ''src/generated'') \<and>
           run_oml env st0 = Inr st1 \<and> bs_files st = (bs_files st1)(generated_file env ''ccg_constants.rs'' \<mapsto> c) \<and>
           ccg_emission (\<lambda>s. the (bs_files st (generated_file env s))) = Inr (w, c) \<and>
           (\<forall>(source, name) \<in> set TASK_SETS. bs_files st (generated_file env source) \<noteq> None)"
proof -
  let ?st0 = "fold println (setup_lines env) \<lparr>bs_files = fs, bs_lines = [], bs_written = []\<rparr>"
  obtain st1 where m: "may_write env (path_join (manifest_dir env) ''src/generated'')"
    "run_oml env ?st0 = Inr st1" "emit_tables env (fold println emission_lines st1) = Inr st"
    using assms by (auto simp: build_main_def Let_def bind_build_eq_Inr_iff split: if_splits)
  obtain w c where e: "ccg_emission (\<lambda>s. the (bs_files st1 (generated_file env s))) = Inr (w, c)"
    "bs_files st = (bs_files st1)(generated_file env ''ccg_constants.rs'' \<mapsto> c)"
    "\<forall>(source, name) \<in> set TASK_SETS. bs_files st1 (generated_file env source) \<noteq> None"
    using emit_tables_Inr [OF m(3)] by auto
  have "generated_file env s \<noteq> generated_file env ''ccg_constants.rs''" if "(s, n) \<in> set TASK_SETS" for s n
    using that by (auto simp: TASK_SETS_def generated_file_eq_iff)
  then have kept: "bs_files st (generated_file env s) = bs_files st1 (generated_file env s)" if "(s, n) \<in> set TASK_SETS" for s n
    using that by (simp add: e(2))
  have sets: "\<forall>(source, name) \<in> set TASK_SETS. bs_files st (generated_file env source) \<noteq> None"
    using e(3) kept by auto
  from kept have "ccg_emission (\<lambda>s. the (bs_files st (generated_file env s))) =
      ccg_emission (\<lambda>s. the (bs_files st1 (generated_file env s)))"
    by (auto intro!: ccg_emission_cong)
  then have "ccg_emission (\<lambda>s. the (bs_files st (generated_file env s))) = Inr (w, c)" by (simp only: e(1))
  moreover have "bs_files ?st0 = fs" by simp
  ultimately show ?thesis using e(2) m(1,2) sets by blast
qed

text \<open>
  C34: a build that succeeds leaves priority tables that belong to the task sets it leaves: the file
  \<open>ccg_constants.rs\<close> holds what the generator computes from \<open>demo_tasks.rs\<close> and \<open>pipeline_tasks.rs\<close> as
  they are after the build, whatever the files were before and whether or not the transpiler ran.
  If the transpiler reads nothing the build writes, a second build succeeds, changes no file and
  writes none, so that it neither dirties the working tree nor triggers further builds.
\<close>

theorem build_is_consistent_and_stable:
  assumes "build_main env fs = Inr st" and "reads_sources env"
  shows "(\<exists>w c. ccg_emission (\<lambda>s. the (bs_files st (generated_file env s))) = Inr (w, c) \<and>
            bs_files st (generated_file env ''ccg_constants.rs'') = Some c) \<and>
         (\<exists>st'. build_main env (bs_files st) = Inr st' \<and> bs_files st' = bs_files st \<and> bs_written st' = [])"
proof -
  obtain st0 st1 w c where b: "may_write env (path_join (manifest_dir env) ''src/generated'')"
    "run_oml env st0 = Inr st1" "bs_files st = (bs_files st1)(generated_file env ''ccg_constants.rs'' \<mapsto> c)"
    "ccg_emission (\<lambda>s. the (bs_files st (generated_file env s))) = Inr (w, c)"
    "\<forall>(source, name) \<in> set TASK_SETS. bs_files st (generated_file env source) \<noteq> None"
    using build_main_Inr [OF assms(1)] by blast
  have c: "bs_files st (generated_file env ''ccg_constants.rs'') = Some c" by (simp add: b(3))
  let ?st0 = "fold println (setup_lines env) \<lparr>bs_files = bs_files st, bs_lines = [], bs_written = []\<rparr>"
  obtain st3 where st3: "run_oml env ?st0 = Inr st3" "bs_files st3 = bs_files st" "bs_written st3 = []"
    using run_oml_again [OF b(2) assms(2), of ?st0 c] by (auto simp: b(3))
  let ?st4 = "fold println emission_lines st3"
  have "bs_files ?st4 = bs_files st" by (simp add: st3)
  then obtain st5 where "emit_tables env ?st4 = Inr st5" "bs_files st5 = bs_files st" "bs_written st5 = []"
    using emit_tables_again [of ?st4 env w c] b(4,5) c st3 by auto
  then have "build_main env (bs_files st) = Inr st5" using b(1) st3(1) by (simp add: build_main_def Let_def)
  with \<open>bs_files st5 = bs_files st\<close> \<open>bs_written st5 = []\<close> b(4) c show ?thesis by blast
qed

text \<open>Witness: a fresh checkout without generated files, and a transpiler that prints the committed ones.\<close>

definition demo_build_env :: build_env where
  "demo_build_env =
     \<lparr>manifest_dir = ''kernel'', out_dir_var = ''out'', oml_bin_var = Some ''oml'',
      oml = (\<lambda>bin input fs. Exited True (Some
        (if input = ''kernel/../tasks/demo_tasks.oml'' then demo_tasks_rs
         else if input = ''kernel/../tasks/pipeline_tasks.oml'' then pipeline_tasks_rs else []))),
      may_write = (\<lambda>_. True)\<rparr>"

lemma transpile_ok:
  assumes "oml env bin (path_join (path_join (manifest_dir env) ''../tasks'') s) (bs_files st) = Exited True (Some body)"
    and "may_write env (generated_file env t)"
  shows "\<exists>st'. transpile env bin (s, t) st = Inr st' \<and>
    bs_files st' = (bs_files st)(scratch_file env s \<mapsto> body, generated_file env t \<mapsto> body)"
  using assms by (auto simp: transpile_def Let_def write_if_changed_def fun_upd_idem)

lemma emit_tables_ok:
  assumes "ccg_emission (\<lambda>s. the (bs_files st (generated_file env s))) = Inr (w, c)"
    and "may_write env (generated_file env ''ccg_constants.rs'')"
    and "\<forall>(source, name) \<in> set TASK_SETS. bs_files st (generated_file env source) \<noteq> None"
  shows "\<exists>st'. emit_tables env st = Inr st'"
proof -
  have "\<exists>st1 mips. fold_build (read_set env) TASK_SETS (st, []) = Inr (st1, mips)"
    using assms(1,3)
    by (auto simp: TASK_SETS_def ccg_emission_def emit_set_def read_set_def Let_def bind_res_eq_Inr_iff)
  with assms(2) show ?thesis by (auto simp: emit_tables_def Let_def write_if_changed_def)
qed

lemma demo_oml: "\<exists>st. run_oml demo_build_env (fold println ls \<lparr>bs_files = [''oml'' \<mapsto> []], bs_lines = [], bs_written = []\<rparr>) = Inr st \<and>
    bs_files st (generated_file demo_build_env ''demo_tasks.rs'') = Some demo_tasks_rs \<and>
    bs_files st (generated_file demo_build_env ''pipeline_tasks.rs'') = Some pipeline_tasks_rs"
proof -
  let ?env = demo_build_env and ?st0 = "fold println ls \<lparr>bs_files = [''oml'' \<mapsto> []], bs_lines = [], bs_written = []\<rparr>"
  define st1 where "st1 = snd (find_oml_binary ?env ?st0)"
  have w: "may_write ?env p" for p by (simp add: demo_build_env_def)
  have o: "oml ?env b (path_join (path_join (manifest_dir ?env) ''../tasks'') ''task.oml'') fs = Exited True (Some [])"
    "oml ?env b (path_join (path_join (manifest_dir ?env) ''../tasks'') ''demo_tasks.oml'') fs = Exited True (Some demo_tasks_rs)"
    "oml ?env b (path_join (path_join (manifest_dir ?env) ''../tasks'') ''pipeline_tasks.oml'') fs = Exited True (Some pipeline_tasks_rs)"
    for b fs by (simp_all add: demo_build_env_def path_join_def)
  obtain st2 where st2: "transpile ?env ''oml'' (''task.oml'', ''task_schema.rs'') st1 = Inr st2"
    using transpile_ok [OF o(1) w] by blast
  obtain st3 where st3: "transpile ?env ''oml'' (''demo_tasks.oml'', ''demo_tasks.rs'') st2 = Inr st3"
    "bs_files st3 (generated_file ?env ''demo_tasks.rs'') = Some demo_tasks_rs"
    using transpile_ok [of ?env "''oml''" "''demo_tasks.oml''" st2 demo_tasks_rs "''demo_tasks.rs''"] o(2) w by auto
  obtain st4 where st4: "transpile ?env ''oml'' (''pipeline_tasks.oml'', ''pipeline_tasks.rs'') st3 = Inr st4"
    "bs_files st4 = (bs_files st3)(scratch_file ?env ''pipeline_tasks.oml'' \<mapsto> pipeline_tasks_rs,
       generated_file ?env ''pipeline_tasks.rs'' \<mapsto> pipeline_tasks_rs)"
    using transpile_ok [of ?env "''oml''" "''pipeline_tasks.oml''" st3 pipeline_tasks_rs "''pipeline_tasks.rs''"] o(3) w by auto
  have "fst (find_oml_binary ?env ?st0) = Some ''oml''" by (simp add: find_oml_binary_def demo_build_env_def Let_def)
  then have "run_oml ?env ?st0 = Inr st4"
    using w st2 st3(1) st4(1) by (simp add: run_oml_split OML_SOURCES_def st1_def)
  moreover have "bs_files st4 (generated_file ?env ''demo_tasks.rs'') = Some demo_tasks_rs"
    using st3(2) st4(2) not_sym [OF scratch_not_generated [of "''demo_tasks.rs''" "''pipeline_tasks.oml''" ?env]]
    by (simp add: generated_file_eq_iff)
  ultimately show ?thesis using st4(2) by auto
qed

lemma demo_emission:
  assumes "fs (generated_file env ''demo_tasks.rs'') = Some demo_tasks_rs"
    and "fs (generated_file env ''pipeline_tasks.rs'') = Some pipeline_tasks_rs"
  shows "ccg_emission (\<lambda>s. the (fs (generated_file env s))) = Inr ([], ccg_constants_rs)"
proof -
  have "ccg_emission (\<lambda>s. the (fs (generated_file env s))) = ccg_emission committed"
    using assms by (intro ccg_emission_cong) (auto simp: TASK_SETS_def committed_def)
  then show ?thesis by (simp add: committed_emission)
qed

theorem build_is_consistent_and_stable_witness:
  "\<exists>st st'. build_main demo_build_env [''oml'' \<mapsto> []] = Inr st \<and>
     bs_files st (generated_file demo_build_env ''ccg_constants.rs'') = Some ccg_constants_rs \<and>
     build_main demo_build_env (bs_files st) = Inr st' \<and> bs_files st' = bs_files st \<and> bs_written st' = []"
proof -
  let ?env = demo_build_env
  obtain st1 where st1: "run_oml ?env (fold println (setup_lines ?env)
      \<lparr>bs_files = [''oml'' \<mapsto> []], bs_lines = [], bs_written = []\<rparr>) = Inr st1"
    "bs_files st1 (generated_file ?env ''demo_tasks.rs'') = Some demo_tasks_rs"
    "bs_files st1 (generated_file ?env ''pipeline_tasks.rs'') = Some pipeline_tasks_rs"
    using demo_oml by blast
  have w: "may_write ?env p" for p by (simp add: demo_build_env_def)
  have "\<exists>st. emit_tables ?env (fold println emission_lines st1) = Inr st"
    by (rule emit_tables_ok [OF _ w, of _ "[]" ccg_constants_rs]) (simp_all add: demo_emission st1 TASK_SETS_def)
  then obtain st where e: "emit_tables ?env (fold println emission_lines st1) = Inr st" ..
  then have b: "build_main ?env [''oml'' \<mapsto> []] = Inr st" using w st1(1) by (simp add: build_main_def Let_def)
  have files: "bs_files st = (bs_files st1)(generated_file ?env ''ccg_constants.rs'' \<mapsto> ccg_constants_rs)"
    using emit_tables_Inr [OF e] demo_emission [OF st1(2,3)] by auto
  have "reads_sources ?env"
    by (simp add: reads_sources_def demo_build_env_def outputs_def OML_SOURCES_def scratch_file_def generated_file_def path_join_def)
  from build_is_consistent_and_stable [OF b this] files b show ?thesis by auto
qed

end
