(* ===== verification/Round_Robin.thy ===== *)
theory Round_Robin
  imports Boot
begin

text \<open>
  Fairness among tasks of equal priority. Every path through the kernel changes the ready queue by
  inserting tasks and removing at most one; the first part reads this off the definitions. With the
  queue's arrival order it bounds how many timer ticks a ready task can be passed over.
\<close>

section \<open>What a trap does to the ready queue\<close>

definition inserts :: "(u8 \<times> u8) list \<Rightarrow> prio_queue \<Rightarrow> prio_queue res" where
  "inserts = fold_res (\<lambda>(t, p) q. pq_insert q t p)"

lemma inserts_simps [simp]:
  "inserts [] q = Inr q" "inserts ((t, p) # ins) q = bind_res (pq_insert q t p) (inserts ins)"
  by (simp_all add: inserts_def fun_eq_iff)

lemma inserts_append: "inserts (xs @ ys) q = bind_res (inserts xs q) (inserts ys)"
  by (simp add: inserts_def fold_res_append)

definition prio_of :: "kernel \<Rightarrow> u8 \<Rightarrow> u8 option" where
  "prio_of k = (\<lambda>t. map_option effective_priority (task_ptr t k))"

text \<open>
  Tasks were made ready under their effective priority, at most \<open>n\<close> of them, and the same task
  runs on.
\<close>

definition joined :: "nat \<Rightarrow> kernel \<Rightarrow> prio_queue \<Rightarrow> bool" where
  "joined n k q \<longleftrightarrow>
     (\<exists>ins. length ins \<le> n \<and> (\<forall>x \<in> set ins. prio_of k (fst x) = Some (snd x)) \<and>
        inserts ins (ready_queue k) = Inr q)"

definition enqueued :: "nat \<Rightarrow> kernel \<Rightarrow> kernel \<Rightarrow> bool" where
  "enqueued n k k' \<longleftrightarrow>
     joined n k (ready_queue k') \<and> prio_of k' = prio_of k \<and>
     current_task_idx k' = current_task_idx k \<and> ticks_since_switch k' = ticks_since_switch k"

text \<open>After that the head of the queue was taken to run.\<close>

definition dequeued :: "nat \<Rightarrow> kernel \<Rightarrow> kernel \<Rightarrow> bool" where
  "dequeued n k k' \<longleftrightarrow>
     (\<exists>q. joined n k q \<and> pq_pop_max q = Inr (Some (current_task_idx k'), ready_queue k')) \<and>
     prio_of k' = prio_of k \<and> ticks_since_switch k' = 0"

definition moved :: "nat \<Rightarrow> kernel \<Rightarrow> kernel \<Rightarrow> bool" where
  "moved n k k' \<longleftrightarrow> enqueued n k k' \<or> dequeued n k k'"

lemma enqueued_is_moved: "enqueued n k k' \<Longrightarrow> moved n k k'" by (simp add: moved_def)

lemma dequeued_is_moved: "dequeued n k k' \<Longrightarrow> moved n k k'" by (simp add: moved_def)

definition same_queue :: "kernel \<Rightarrow> kernel \<Rightarrow> bool" where
  "same_queue k k' \<longleftrightarrow>
     ready_queue k' = ready_queue k \<and> current_task_idx k' = current_task_idx k \<and>
     ticks_since_switch k' = ticks_since_switch k \<and> prio_of k' = prio_of k"

lemma joined_refl [simp]: "joined n k (ready_queue k)"
  by (auto simp: joined_def intro!: exI [of _ "[]"])

lemma joined_trans:
  assumes "joined m k (ready_queue k1)" and "prio_of k1 = prio_of k" and "joined n k1 q"
  shows "joined (m + n) k q"
proof -
  obtain xs ys where "length xs \<le> m" "inserts xs (ready_queue k) = Inr (ready_queue k1)"
    "length ys \<le> n" "inserts ys (ready_queue k1) = Inr q"
    "\<forall>x \<in> set (xs @ ys). prio_of k (fst x) = Some (snd x)"
    using assms by (auto simp: joined_def)
  then show ?thesis unfolding joined_def by (intro exI [of _ "xs @ ys"]) (simp add: inserts_append)
qed

lemma joined_mono: "joined m k q \<Longrightarrow> m \<le> n \<Longrightarrow> joined n k q"
  unfolding joined_def by (meson order_trans)

lemma same_queue_enqueued: "same_queue k k' \<Longrightarrow> enqueued n k k'"
  using joined_refl [of n k] by (simp add: same_queue_def enqueued_def)

lemma enqueued_trans: "enqueued m k k1 \<Longrightarrow> enqueued n k1 k2 \<Longrightarrow> enqueued (m + n) k k2"
  using joined_trans unfolding enqueued_def by metis

lemma enqueued_dequeued: "enqueued m k k1 \<Longrightarrow> dequeued n k1 k2 \<Longrightarrow> dequeued (m + n) k k2"
  using joined_trans unfolding enqueued_def dequeued_def by metis

lemma enqueued_moved: "enqueued m k k1 \<Longrightarrow> moved n k1 k2 \<Longrightarrow> moved (m + n) k k2"
  using enqueued_trans enqueued_dequeued unfolding moved_def by blast

lemma enqueued_mono: "enqueued m k k' \<Longrightarrow> m \<le> n \<Longrightarrow> enqueued n k k'"
  using joined_mono unfolding enqueued_def by blast

lemma dequeued_mono: "dequeued m k k' \<Longrightarrow> m \<le> n \<Longrightarrow> dequeued n k k'"
  using joined_mono unfolding dequeued_def by blast

lemma moved_mono: "moved m k k' \<Longrightarrow> m \<le> n \<Longrightarrow> moved n k k'"
  using enqueued_mono dequeued_mono unfolding moved_def by blast

lemma same_queue_moved: "same_queue k k1 \<Longrightarrow> moved n k1 k2 \<Longrightarrow> moved n k k2"
  using enqueued_moved [OF same_queue_enqueued [where n = 0]] by simp

section \<open>The scheduler's operations\<close>

lemma prio_of_upd_task:
  assumes "\<And>d. effective_priority (f d) = effective_priority d"
  shows "prio_of (upd_task i f k) = prio_of k"
proof (cases "task_ptr i k")
  case (Some d)
  have "map_option effective_priority ((registry k)[unat i := Some (f d)] ! n) =
        map_option effective_priority (registry k ! n)" for n
    using assms task_ptr_Some [OF Some] list_update_beyond [of "registry k" "unat i" "Some (f d)"]
    by (cases "unat i < length (registry k)") (auto simp: nth_list_update not_less)
  then show ?thesis
    by (simp add: prio_of_def upd_task_Some [OF Some] fun_eq_iff) (simp add: task_ptr_def)
qed (simp add: upd_task_def)

lemma prio_of_sel [simp]:
  "prio_of (k\<lparr>ready_queue := q\<rparr>) = prio_of k" "prio_of (k\<lparr>frames := fs\<rparr>) = prio_of k"
  "prio_of (k\<lparr>pmp := u\<rparr>) = prio_of k" "prio_of (k\<lparr>current_task_idx := i\<rparr>) = prio_of k"
  "prio_of (k\<lparr>ticks_since_switch := n\<rparr>) = prio_of k" "prio_of (k\<lparr>clint := c\<rparr>) = prio_of k"
  "prio_of (k\<lparr>channels := ch\<rparr>) = prio_of k"
  "prio_of (k\<lparr>uart := out\<rparr>) = prio_of k" "prio_of (k\<lparr>switch_statistics := st\<rparr>) = prio_of k"
  "prio_of (k\<lparr>syscall_seen := v\<rparr>) = prio_of k" "prio_of (k\<lparr>mem := m\<rparr>) = prio_of k"
  by (simp_all add: prio_of_def task_ptr_def cong: if_cong)

lemma prio_of_upds [simp]:
  "prio_of (upd_task i (\<lambda>d. d\<lparr>td_state := s\<rparr>) k) = prio_of k"
  "prio_of (upd_task i (\<lambda>d. d\<lparr>td_stack_ptr := a\<rparr>) k) = prio_of k"
  "prio_of (upd_task i (\<lambda>d. d\<lparr>td_state := s, td_blocked_on := b\<rparr>) k) = prio_of k"
  "prio_of (upd_task i (\<lambda>d. d\<lparr>td_state := s, td_blocked_on := b, td_wake_at := w\<rparr>) k) = prio_of k"
  by (rule prio_of_upd_task; simp add: effective_priority_def)+

lemma same_queue_upd_task: "prio_of (upd_task i f k) = prio_of k \<Longrightarrow> same_queue k (upd_task i f k)"
  by (simp add: same_queue_def upd_task_def split: option.splits)

lemma same_queue_simps [simp]:
  "same_queue k (save_current frame k)" "same_queue k k"
  by (simp_all add: save_current_def same_queue_upd_task) (simp add: same_queue_def)

lemma queue_insert_enqueued: "queue_insert idx p k = Inr k' \<Longrightarrow> prio_of k idx = Some p \<Longrightarrow> enqueued 1 k k'"
  by (auto simp: queue_insert_def enqueued_def joined_def bind_res_eq_Inr_iff intro!: exI [of _ "[(idx, p)]"])

lemma insert_after_upd:
  assumes "queue_insert idx (effective_priority t) (upd_task idx f k) = Inr k'" and "task_ptr idx k = Some t"
    and "prio_of (upd_task idx f k) = prio_of k"
  shows "enqueued 1 k k'"
proof -
  have "prio_of (upd_task idx f k) idx = Some (effective_priority t)" using assms(2,3) by (simp add: prio_of_def)
  from enqueued_trans [OF same_queue_enqueued [OF same_queue_upd_task [OF assms(3)], where n = 0]
      queue_insert_enqueued [OF assms(1) this]]
  show ?thesis by simp
qed

lemma requeue_enqueued: "requeue_current k = Inr k' \<Longrightarrow> enqueued 1 k k'"
  by (auto simp: requeue_current_def Let_def same_queue_enqueued split: option.splits dest: insert_after_upd)

lemma mark_running_sel:
  "ready_queue (mark_running pf idx k) = ready_queue k" "current_task_idx (mark_running pf idx k) = idx"
  "ticks_since_switch (mark_running pf idx k) = 0"
  by (simp_all add: mark_running_def upd_task_def Let_def split: option.splits)

lemma prio_of_mark_running [simp]: "prio_of (mark_running pf idx k) = prio_of k"
  by (simp add: mark_running_def Let_def split: option.split)

lemma dispatch_next_dequeued:
  assumes "dispatch_next pf k = Inr (frame, k')"
  shows "dequeued 0 k k'"
proof -
  obtain r q where pop: "pq_pop_max (ready_queue k) = Inr (r, q)"
    using assms by (auto simp: dispatch_next_def bind_res_eq_Inr_iff)
  obtain t where "r = Some t" using assms pop by (cases r) (simp_all add: dispatch_next_def)
  with assms pop have "k' = mark_running pf t (k\<lparr>ready_queue := q\<rparr>)" by (simp add: dispatch_next_def Let_def)
  with pop \<open>r = Some t\<close> show ?thesis
    by (auto simp: dequeued_def mark_running_sel intro!: exI [of _ "ready_queue k"])
qed

lemma upd_dispatch_dequeued:
  "dispatch_next pf (upd_task i f k) = Inr (frame, k') \<Longrightarrow> prio_of (upd_task i f k) = prio_of k \<Longrightarrow> dequeued 0 k k'"
  using enqueued_dequeued [OF same_queue_enqueued [OF same_queue_upd_task, where n = 0]] dispatch_next_dequeued by fastforce

lemma requeue_dispatch_dequeued:
  assumes "bind_res (requeue_current k) (dispatch_next pf) = Inr (frame, k')"
  shows "dequeued 1 k k'"
  using assms enqueued_dequeued [OF requeue_enqueued dispatch_next_dequeued, of k _ pf frame k']
  by (auto simp: bind_res_eq_Inr_iff)

lemma wake_slots_enqueued:
  "fold_res (wake_slot now) is k = Inr k' \<Longrightarrow> enqueued (length is) k k'"
proof (induction "is" arbitrary: k)
  case (Cons i "is")
  then obtain k1 where k1: "wake_slot now i k = Inr k1" "fold_res (wake_slot now) is k1 = Inr k'"
    by (auto simp: bind_res_eq_Inr_iff)
  have "enqueued 1 k k1"
    using k1(1) by (auto simp: wake_slot_def same_queue_enqueued split: option.splits if_splits dest: insert_after_upd)
  from enqueued_trans [OF this Cons.IH [OF k1(2)]] show ?case by simp
qed (simp add: same_queue_enqueued)

lemma wake_blocked_enqueued: "wake_blocked_on reason k = Inr (r, k') \<Longrightarrow> enqueued 1 k k'"
proof -
  have "wake_blocked_loop reason is k = Inr (r, k') \<Longrightarrow> enqueued 1 k k'" for "is"
    by (induction "is" arbitrary: k)
      (auto simp: same_queue_enqueued bind_res_eq_Inr_iff split: option.splits if_splits dest: insert_after_upd)
  then show "wake_blocked_on reason k = Inr (r, k') \<Longrightarrow> enqueued 1 k k'" by (simp add: wake_blocked_on_def)
qed

lemma switch_dequeued:
  "yield_current pf frame k = Inr (frame', k') \<Longrightarrow> dequeued 1 k k'"
  "sleep_current pf frame n k = Inr (frame', k') \<Longrightarrow> dequeued 1 k k'"
  "block_current pf frame reason k = Inr (frame', k') \<Longrightarrow> dequeued 1 k k'"
proof -
  have save: "dequeued m (save_current frame k) k' \<Longrightarrow> dequeued m k k'" for m
    using enqueued_dequeued [OF same_queue_enqueued [OF same_queue_simps(1), where n = 0]] by fastforce
  show "yield_current pf frame k = Inr (frame', k') \<Longrightarrow> dequeued 1 k k'"
    unfolding yield_current_def by (intro save requeue_dispatch_dequeued)
  show "sleep_current pf frame n k = Inr (frame', k') \<Longrightarrow> dequeued 1 k k'"
    by (rule dequeued_mono [OF save, of 0]) (auto simp: sleep_current_def Let_def dest: upd_dispatch_dequeued)
  show "block_current pf frame reason k = Inr (frame', k') \<Longrightarrow> dequeued 1 k k'"
    by (rule dequeued_mono [OF save, of 0]) (auto simp: block_current_def Let_def dest: upd_dispatch_dequeued)
qed

lemma preempt_moved:
  assumes "preempt_if_outranked pf frame k = Inr (frame', k')"
  shows "moved 1 k k'"
proof -
  have "k' = k \<or> bind_res (requeue_current (save_current frame k)) (dispatch_next pf) = Inr (frame', k')"
    using assms by (auto simp: preempt_if_outranked_def Let_def bind_res_eq_Inr_iff split: if_splits)
  then show ?thesis
    using same_queue_moved [OF same_queue_simps(1) dequeued_is_moved [OF requeue_dispatch_dequeued]]
    by (auto intro: enqueued_is_moved same_queue_enqueued [OF same_queue_simps(2)])
qed

section \<open>Traps\<close>

lemma ret_same_queue: "ret frame v k = Inr (frame', k') \<Longrightarrow> same_queue k k'"
  by (auto simp: ret_def upd_frame_def bind_res_eq_Inr_iff same_queue_def)

lemma channel_op_moved:
  assumes "bind_res (ret frame v k) (\<lambda>(_, k1). bind_res (wake_blocked_on reason k1) (\<lambda>(_, k2).
             preempt_if_outranked pf frame k2)) = Inr (frame', k')"
  shows "moved 2 k k'"
proof -
  obtain f1 k1 r k2 where s: "ret frame v k = Inr (f1, k1)" "wake_blocked_on reason k1 = Inr (r, k2)"
    "preempt_if_outranked pf frame k2 = Inr (frame', k')"
    using assms by (auto simp: bind_res_eq_Inr_iff)
  from enqueued_moved [OF wake_blocked_enqueued [OF s(2)] preempt_moved [OF s(3)]]
  have "moved 2 k1 k'" by (simp only: one_add_one)
  with same_queue_moved [OF ret_same_queue [OF s(1)]] show ?thesis by blast
qed

text \<open>A system call enqueues at most two tasks.\<close>

lemma block_and_restart_dequeued: "block_and_restart pf frame reason k = Inr (frame', k') \<Longrightarrow> dequeued 1 k k'"
proof -
  assume "block_and_restart pf frame reason k = Inr (frame', k')"
  then obtain k1 where k1: "upd_frame frame (\<lambda>f. f\<lparr>mepc := mepc f - 4\<rparr>) k = Inr k1"
    "block_current pf frame reason k1 = Inr (frame', k')"
    by (auto simp: block_and_restart_def bind_res_eq_Inr_iff)
  have "same_queue k k1" using k1(1) by (auto simp: upd_frame_def bind_res_eq_Inr_iff same_queue_def)
  from enqueued_dequeued [OF same_queue_enqueued [OF this, of 0] switch_dequeued(3) [OF k1(2)]] show ?thesis by simp
qed

lemma same_queue_upd [simp]:
  "same_queue k (k\<lparr>channels := c\<rparr>)" "same_queue k (k\<lparr>channels := c, mem := m\<rparr>)" "same_queue k (k\<lparr>uart := u\<rparr>)"
  by (simp_all add: same_queue_def)

lemma ret_moved: "ret frame v k = Inr (frame', k') \<Longrightarrow> moved n k k'"
  by (intro enqueued_is_moved same_queue_enqueued ret_same_queue)

lemma sys_send_moved:
  assumes "sys_send pf frame ch ptr len flags k = Inr (frame', k')"
  shows "moved 2 k k'"
proof -
  have served: "bind_res (ret frame 0 (k\<lparr>channels := c\<rparr>)) (\<lambda>(_, k1). bind_res (wake_blocked_on reason k1)
      (\<lambda>(_, k2). preempt_if_outranked pf frame k2)) = Inr (frame', k') \<Longrightarrow> moved 2 k k'" for c reason
    by (rule same_queue_moved [OF same_queue_upd(1) channel_op_moved])
  have wait: "block_and_restart pf frame reason k = Inr (frame', k') \<Longrightarrow> moved 2 k k'" for reason
    by (rule dequeued_is_moved [OF dequeued_mono [OF block_and_restart_dequeued]]) simp_all
  show ?thesis
    using assms unfolding sys_send_def
    by (auto split: option.splits if_splits simp: bind_res_eq_Inr_iff [of "try_send _ _"]
        intro: ret_moved served wait)
qed

lemma sys_receive_moved:
  assumes "sys_receive pf frame ch ptr cap flags k = Inr (frame', k')"
  shows "moved 2 k k'"
proof -
  have served: "bind_res (ret frame v (k\<lparr>channels := c, mem := m\<rparr>)) (\<lambda>(_, k1). bind_res (wake_blocked_on reason k1)
      (\<lambda>(_, k2). preempt_if_outranked pf frame k2)) = Inr (frame', k') \<Longrightarrow> moved 2 k k'" for v c m reason
    by (rule same_queue_moved [OF same_queue_upd(2) channel_op_moved])
  have wait: "block_and_restart pf frame reason (k\<lparr>channels := c\<rparr>) = Inr (frame', k') \<Longrightarrow> moved 2 k k'" for reason c
    by (rule same_queue_moved [OF same_queue_upd(1) dequeued_is_moved [OF dequeued_mono [OF block_and_restart_dequeued]]]) simp_all
  have ret: "ret frame v (k\<lparr>channels := c\<rparr>) = Inr (frame', k') \<Longrightarrow> moved 2 k k'" for v c
    by (rule same_queue_moved [OF same_queue_upd(1) ret_moved])
  show ?thesis
    using assms unfolding sys_receive_def Let_def
    by (auto split: option.splits if_splits simp: bind_res_eq_Inr_iff [of "try_receive _"] bind_res_eq_Inr_iff [of "message_bytes _"]
        intro: ret_moved ret served wait)
qed

lemma dispatch_moved:
  assumes "dispatch pf frame k = Inr (frame', k')"
  shows "moved 2 k k'"
proof -
  have yield: "bind_res (ret frame v k) (\<lambda>(_, k1). yield_current pf frame k1) = Inr (frame', k') \<Longrightarrow> moved 2 k k'" for v
    using same_queue_moved [OF ret_same_queue dequeued_is_moved [OF dequeued_mono [OF switch_dequeued(1)]]]
    by (fastforce simp: bind_res_eq_Inr_iff)
  have sleep: "bind_res (ret frame v k) (\<lambda>(_, k1). sleep_current pf frame n k1) = Inr (frame', k') \<Longrightarrow> moved 2 k k'" for v n
    using same_queue_moved [OF ret_same_queue dequeued_is_moved [OF dequeued_mono [OF switch_dequeued(2)]]]
    by (fastforce simp: bind_res_eq_Inr_iff)
  have log: "ret frame v (snd (sys_log pf a n k)) = Inr (frame', k') \<Longrightarrow> moved 2 k k'" for v a n
    by (rule same_queue_moved [OF _ ret_moved]) (auto simp: sys_log_def same_queue_def split: option.splits)
  obtain f a0 a1 a7 where "frame_at frame k = Inr f" "arr_get (regs f) REG_A0 = Inr a0" "arr_get (regs f) REG_A1 = Inr a1"
    "arr_get (regs f) REG_A7 = Inr a7"
    using assms by (auto simp: dispatch_def bind_res_eq_Inr_iff)
  with assms show ?thesis
    by (auto simp: dispatch_def bind_res_eq_Inr_iff [of "arr_get _ _"] case_prod_beta split: if_splits
        intro: yield sleep log ret_moved sys_send_moved sys_receive_moved)
qed

text \<open>
  A timer tick wakes sleepers; then it either switches or lets the running task go on because the
  head of the queue does not ask for a preemption.
\<close>

lemma sched_tick_moved:
  assumes "sched_tick pf isr_entry instret k = Inr (r, k')"
  shows "dequeued 1 k k' \<or>
         k' = k\<lparr>ticks_since_switch := ticks_since_switch k + 1\<rparr> \<and>
         (\<exists>h. (if pq_is_empty (ready_queue k) then Inr None
              else bind_res (pq_peek_max_priority (ready_queue k)) (\<lambda>p. Inr (Some p))) = Inr h \<and>
            \<not> should_preempt (current_effective k) h (ticks_since_switch k + 1))"
proof -
  let ?k1 = "k\<lparr>ticks_since_switch := ticks_since_switch k + 1\<rparr>"
  have eff: "current_effective ?k1 = current_effective k"
    by (simp add: current_effective_def task_ptr_def)
  obtain h where h: "(if pq_is_empty (ready_queue k) then Inr None
      else bind_res (pq_peek_max_priority (ready_queue k)) (\<lambda>p. Inr (Some p))) = Inr h"
    "if \<not> should_preempt (current_effective k) h (ticks_since_switch k + 1) then Inr (None, ?k1) = Inr (r, k')
     else \<exists>k2 f k3. requeue_current ?k1 = Inr k2 \<and> dispatch_next pf k2 = Inr (f, k3) \<and> same_queue k3 k'"
    using assms by (auto simp: sched_tick_def Let_def eff bind_res_eq_Inr_iff same_queue_def split: if_splits)
  show ?thesis
  proof (cases "should_preempt (current_effective k) h (ticks_since_switch k + 1)")
    case True
    with h(2) obtain k2 f k3 where k: "requeue_current ?k1 = Inr k2" "dispatch_next pf k2 = Inr (f, k3)" "same_queue k3 k'"
      by auto
    have "dequeued 1 ?k1 k3" using enqueued_dequeued [OF requeue_enqueued [OF k(1)] dispatch_next_dequeued [OF k(2)]] by simp
    with k(3) have "dequeued 1 k k'" by (simp add: dequeued_def joined_def same_queue_def)
    then show ?thesis ..
  qed (use h in auto)
qed

definition stayed :: "kernel \<Rightarrow> kernel \<Rightarrow> bool" where
  "stayed k k' \<longleftrightarrow>
     joined MAX_TASKS k (ready_queue k') \<and> prio_of k' = prio_of k \<and> current_task_idx k' = current_task_idx k \<and>
     ticks_since_switch k' = ticks_since_switch k + 1 \<and>
     (\<forall>x \<in># pq_bag (ready_queue k'). current_effective k' \<le> snd x \<longrightarrow> ticks_since_switch k' < TIME_QUANTUM_TICKS)"

lemma wake_sleepers_enqueued:
  "wake_sleepers now k = Inr k' \<Longrightarrow> task_count k \<le> MAX_TASKS \<Longrightarrow> enqueued MAX_TASKS k k'"
  by (rule enqueued_mono [of "task_count k"]) (simp_all add: wake_sleepers_def, use wake_slots_enqueued in fastforce)

lemma on_timer_interrupt_moved:
  assumes "on_timer_interrupt pf a mtime b frame k = Inr (frame', k')" and "task_count k \<le> MAX_TASKS"
    and "core_inv k'"
  shows "dequeued (MAX_TASKS + 1) k k' \<or> stayed k k'"
proof -
  define k1 where "k1 = save_current frame (k\<lparr>clint := snd (timer_isr mtime (clint k))\<rparr>)"
  obtain k2 r where k2: "wake_sleepers (fst (timer_isr mtime (clint k))) k1 = Inr k2" "sched_tick pf a b k2 = Inr (r, k')"
    using assms(1) by (auto simp: on_timer_interrupt_def k1_def case_prod_beta Let_def bind_res_eq_Inr_iff)
  have "same_queue (k\<lparr>clint := snd (timer_isr mtime (clint k))\<rparr>) k1" by (simp add: k1_def)
  then have same: "same_queue k k1" by (simp add: same_queue_def)
  have "task_count k1 = task_count k" by (simp add: k1_def save_current_def upd_task_def split: option.split)
  then have en: "enqueued MAX_TASKS k k2"
    using enqueued_trans [OF same_queue_enqueued [OF same, of 0] wake_sleepers_enqueued [OF k2(1)]] assms(2) by simp
  from sched_tick_moved [OF k2(2)] show ?thesis
  proof (elim disjE conjE exE)
    fix h assume k': "k' = k2\<lparr>ticks_since_switch := ticks_since_switch k2 + 1\<rparr>"
      and h: "(if pq_is_empty (ready_queue k2) then Inr None
              else bind_res (pq_peek_max_priority (ready_queue k2)) (\<lambda>p. Inr (Some p))) = Inr h"
        "\<not> should_preempt (current_effective k2) h (ticks_since_switch k2 + 1)"
    have q: "ready_queue k2 = ready_queue k'" "current_effective k2 = current_effective k'"
      by (simp_all add: k' current_effective_def task_ptr_def)
    have "ticks_since_switch k' < TIME_QUANTUM_TICKS"
      if "x \<in># pq_bag (ready_queue k')" "current_effective k' \<le> snd x" for x
    proof -
      from ready_queue_head [OF assms(3)] h(1) that(1) obtain r where "h = Some r" "snd x \<le> r"
        unfolding q(1) by (auto split: option.splits)
      with h(2) that(2) show ?thesis by (auto simp: should_preempt_def q k')
    qed
    with en show ?thesis by (simp add: stayed_def enqueued_def k' joined_def)
  qed (use enqueued_dequeued [OF en, of 1 k'] in simp)
qed

text \<open>One step of the machine.\<close>

lemma kstep_moved:
  assumes "kstep pf idle k k'" and live: "live pf idle k"
  shows "clint k' = clint k \<and> moved 2 k k' \<or>
         tick_count (clint k') = tick_count (clint k) + 1 \<and> (dequeued (MAX_TASKS + 1) k k' \<or> stayed k k')"
  using assms(1)
proof (cases rule: kstep.cases)
  case (store m)
  then show ?thesis by (auto simp: same_queue_def intro!: enqueued_is_moved same_queue_enqueued)
next
  case (ecall f hw frame)
  obtain task where "current_task k = Some task" using live_task [OF live] by blast
  from ecall_inr_ok [OF live ecall(2,1,3,4) this] have cl: "clint k' = clint k" by (simp add: served_def)
  obtain k1 k2 where k2: "upd_frame (frame_of (current_task_idx k) k) (\<lambda>f. f\<lparr>mepc := mepc f + 4\<rparr>) (saved f k) = Inr k1"
    "note_syscall_mode (mcause f = 8) k1 = Inr k2" "dispatch pf (frame_of (current_task_idx k) k) k2 = Inr (frame, k')"
    using ecall(1,4) by (auto simp: trap_handler_def frame_at_def saved_def is_ecall_def Let_def bind_res_eq_Inr_iff)
  have "same_queue k k1" using k2(1) by (auto simp: upd_frame_def saved_def bind_res_eq_Inr_iff same_queue_def)
  then have "same_queue k k2" using k2(2) note_syscall_mode_state [of "mcause f = 8" k1] by (auto simp: same_queue_def)
  from same_queue_moved [OF this dispatch_moved [OF k2(3)]] cl show ?thesis by simp
next
  case (timer f hw frame)
  have inv: "kernel_inv pf k" using live by (simp add: live_def)
  from timer_inr_ok [OF inv timer(2,1,3)] have t: "timed pf (hw_mtime hw) f k k'" by blast
  have wf: "core_inv k'" "task_count (saved f k) \<le> MAX_TASKS"
    using t inv by (auto simp: timed_def kernel_inv_def sched_inv_def saved_def core_inv_def table_wf_def)
  have "on_timer_interrupt pf (hw_entry hw) (hw_mtime hw) (hw_exit hw) (frame_of (current_task_idx k) k) (saved f k) =
      Inr (frame, k')"
    using timer(1,3) by (simp add: trap_handler_def frame_at_def saved_def is_timer_def Let_def)
  from on_timer_interrupt_moved [OF this wf(2,1)] have "dequeued (MAX_TASKS + 1) k k' \<or> stayed k k'"
    by (simp add: dequeued_def stayed_def joined_def saved_def)
  moreover have "tick_count (clint k') = tick_count (clint k) + 1"
    using t by (simp add: timed_def timer_isr_def Let_def)
  ultimately show ?thesis by simp
qed

section \<open>Order of arrival\<close>

lemma inserts_fifo:
  assumes "inserts ins q = Inr q'" and "pq_fifo q" and "ages_within m q" and "m + length ins \<le> 2 ^ 31"
  shows "pq_fifo q' \<and> pq_arrivals q' = pq_arrivals q @ ins \<and> ages_within (m + length ins) q'"
  using assms
proof (induction ins arbitrary: q m)
  case (Cons x ins)
  obtain t p where x: "x = (t, p)" by (cases x)
  obtain q1 where q1: "pq_insert q t p = Inr q1" "inserts ins q1 = Inr q'"
    using Cons.prems(1) by (auto simp: x bind_res_eq_Inr_iff)
  have room: "pq_len q < pq_capacity q"
  proof -
    obtain es c ns where q: "q = pq_rep es c ns" using Cons.prems(2) by (elim pq_fifo_obtain)
    with q1(1) show ?thesis by (cases c) (simp_all add: pq_insert_full)
  qed
  have "\<forall>e \<in> set (pq_entries q). age (pq_next_seq q) e < 2 ^ 31"
    using Cons.prems(3,4) by (fastforce simp: ages_within_def)
  from pq_insert_fifo [OF Cons.prems(2) room this, of t p] q1(1)
  have f: "pq_fifo q1" "pq_arrivals q1 = pq_arrivals q @ [x]" by (simp_all add: x)
  from Cons.IH [OF q1(2) f(1) pq_insert_ages [OF Cons.prems(2) q1(1) Cons.prems(3)]] Cons.prems(4) f(2)
  show ?case by simp
qed simp

text \<open>The entries of the same priority that arrived before \<open>x\<close>.\<close>

definition ahead :: "u8 \<times> u8 \<Rightarrow> (u8 \<times> u8) list \<Rightarrow> nat" where
  "ahead x ps = length (filter (\<lambda>y. snd y = snd x) (takeWhile (\<lambda>y. y \<noteq> x) ps))"

lemma ahead_append: "x \<in> set ps \<Longrightarrow> ahead x (ps @ qs) = ahead x ps"
  by (simp add: ahead_def)

lemma takeWhile_remove1:
  "b \<noteq> x \<Longrightarrow> takeWhile (\<lambda>y. y \<noteq> x) (remove1 b ps) = remove1 b (takeWhile (\<lambda>y. y \<noteq> x) ps)"
  by (induction ps) auto

lemma ahead_pop:
  assumes "x \<in> set ps" and "fifo_best ps \<noteq> x"
  shows "snd x \<le> snd (fifo_best ps) \<and> x \<in> set (remove1 (fifo_best ps) ps) \<and>
         ahead x (remove1 (fifo_best ps) ps) + (if snd (fifo_best ps) = snd x then 1 else 0) = ahead x ps"
proof -
  let ?b = "fifo_best ps" and ?P = "\<lambda>y. snd y = snd x"
  have "ps \<noteq> []" using assms(1) by auto
  then obtain as bs where ps: "ps = as @ ?b # bs" and as: "\<forall>y \<in> set as. snd y < snd ?b"
    and max: "\<forall>y \<in> set ps. snd y \<le> snd ?b" by (rule fifo_best_split)
  define before where "before = filter ?P (takeWhile (\<lambda>y. y \<noteq> x) ps)"
  have a: "ahead x (remove1 ?b ps) = length (remove1 ?b before)" "ahead x ps = length before"
    using assms(2) by (simp_all add: ahead_def before_def takeWhile_remove1 filter_remove1)
  have "?b \<in> set (takeWhile (\<lambda>y. y \<noteq> x) ps)" if "snd ?b = snd x"
  proof -
    have "x \<notin> set as" using as that by auto
    then have "takeWhile (\<lambda>y. y \<noteq> x) (as @ ?b # bs) = as @ ?b # takeWhile (\<lambda>y. y \<noteq> x) bs"
      using assms(2) by (subst takeWhile_append2) auto
    then show ?thesis by (metis ps in_set_conv_decomp)
  qed
  then have "?b \<in> set before \<longleftrightarrow> snd ?b = snd x" by (auto simp: before_def)
  then have "ahead x (remove1 ?b ps) + (if snd ?b = snd x then 1 else 0) = ahead x ps"
    using length_pos_if_in_set [of ?b before] by (auto simp: a length_remove1)
  moreover have "x \<in> set (remove1 ?b ps)" using assms by (simp add: in_set_remove1)
  ultimately show ?thesis using max assms(1) by simp
qed

section \<open>A ready task waits for the tasks ahead of it\<close>

lemma joined_fifo:
  assumes "joined n k q" and "pq_fifo (ready_queue k)" and "ages_within m (ready_queue k)" and "m + n \<le> 2 ^ 31"
  obtains ins where "pq_fifo q" and "pq_arrivals q = pq_arrivals (ready_queue k) @ ins" and "ages_within (m + n) q"
    and "\<forall>x \<in> set ins. prio_of k (fst x) = Some (snd x)"
proof -
  obtain ins where ins: "length ins \<le> n" "\<forall>x \<in> set ins. prio_of k (fst x) = Some (snd x)"
    "inserts ins (ready_queue k) = Inr q" using assms(1) by (auto simp: joined_def)
  from inserts_fifo [OF ins(3) assms(2,3)] ins(1) assms(4)
  have "pq_fifo q" "pq_arrivals q = pq_arrivals (ready_queue k) @ ins" "ages_within (m + length ins) q" by auto
  moreover have "ages_within (m + n) q"
    using \<open>ages_within (m + length ins) q\<close> ins(1) by (force simp: ages_within_def)
  ultimately show thesis using that ins(2) by blast
qed

definition waiting :: "nat \<Rightarrow> u8 \<times> u8 \<Rightarrow> kernel \<Rightarrow> bool" where
  "waiting m x k \<longleftrightarrow> pq_fifo (ready_queue k) \<and> ages_within m (ready_queue k) \<and> x \<in> set (pq_arrivals (ready_queue k))"

lemma set_arrivals: "pq_fifo q \<Longrightarrow> set (pq_arrivals q) = set_mset (pq_bag q)"
  by (auto simp: pq_arrivals_rep elim!: pq_fifo_obtain)

lemma enqueued_waiting:
  assumes "joined n k (ready_queue k')" and "waiting m x k" and "m + n \<le> 2 ^ 31"
  shows "waiting (m + n) x k' \<and> ahead x (pq_arrivals (ready_queue k')) = ahead x (pq_arrivals (ready_queue k))"
proof -
  have w: "pq_fifo (ready_queue k)" "ages_within m (ready_queue k)" "x \<in> set (pq_arrivals (ready_queue k))"
    using assms(2) by (simp_all add: waiting_def)
  obtain ins where "pq_fifo (ready_queue k')" "pq_arrivals (ready_queue k') = pq_arrivals (ready_queue k) @ ins"
    "ages_within (m + n) (ready_queue k')" using joined_fifo [OF assms(1) w(1,2) assms(3)] by blast
  with w(3) show ?thesis by (simp add: waiting_def ahead_append)
qed

lemma arrival_prio:
  assumes "core_inv k" and "pq_fifo (ready_queue k)" and "x \<in> set (pq_arrivals (ready_queue k))"
  shows "prio_of k (fst x) = Some (snd x)"
proof -
  obtain t p where x: "x = (t, p)" by (cases x)
  have "(t, p) \<in># ready_bag (registry k)" using assms by (simp add: set_arrivals core_inv_def x)
  then show ?thesis by (auto simp: in_ready_bag prio_of_def task_ptr_of_nat x)
qed

text \<open>Taking the head of the queue runs the first of the most important waiting tasks.\<close>

lemma dequeued_fifo:
  assumes "dequeued n k k'" and core: "core_inv k" and fifo: "pq_fifo (ready_queue k)" "ages_within m (ready_queue k)"
    and "m + n \<le> 2 ^ 31"
  obtains js where "pq_arrivals (ready_queue k) @ js \<noteq> []"
    and "fifo_best (pq_arrivals (ready_queue k) @ js) = (current_task_idx k', current_effective k')"
    and "pq_arrivals (ready_queue k') = remove1 (fifo_best (pq_arrivals (ready_queue k) @ js)) (pq_arrivals (ready_queue k) @ js)"
    and "pq_fifo (ready_queue k')" and "ages_within (m + n) (ready_queue k')" and "ticks_since_switch k' = 0"
proof -
  obtain q where q: "joined n k q" "pq_pop_max q = Inr (Some (current_task_idx k'), ready_queue k')"
    and k': "prio_of k' = prio_of k" "ticks_since_switch k' = 0" using assms(1) by (auto simp: dequeued_def)
  obtain js where js: "pq_fifo q" "pq_arrivals q = pq_arrivals (ready_queue k) @ js" "ages_within (m + n) q"
    "\<forall>x \<in> set js. prio_of k (fst x) = Some (snd x)" using joined_fifo [OF q(1) fifo assms(5)] by blast
  let ?ps = "pq_arrivals q" and ?b = "fifo_best (pq_arrivals q)"
  have "pq_len q \<noteq> 0" using q(2) by (intro notI) (simp add: pq_pop_max_def)
  then have ne: "?ps \<noteq> []" using length_pq_arrivals [OF js(1)] by auto
  from pq_pop_fifo [OF js(1) ne] q(2)
  have pop: "fst ?b = current_task_idx k'" "pq_fifo (ready_queue k')" "pq_arrivals (ready_queue k') = remove1 ?b ?ps"
    by auto
  have "?b \<in> set ?ps" using fifo_best_split [OF ne] by (metis in_set_conv_decomp)
  then have "prio_of k' (current_task_idx k') = Some (snd ?b)"
    using js(2,4) arrival_prio [OF core fifo(1)] by (auto simp: k'(1) simp flip: pop(1))
  then have "?b = (current_task_idx k', current_effective k')"
    using pop(1) by (cases ?b) (auto simp: current_effective_def prio_of_def)
  moreover have "ages_within (m + n) (ready_queue k')"
    using js(1) pq_pop_ages [OF _ q(2) js(3)] by (simp add: pq_fifo_def)
  ultimately show thesis using that ne pop(2,3) k'(2) js(2) by simp
qed

lemma dequeued_waiting:
  assumes "dequeued n k k'" and w: "waiting m (j, p) k" and "m + n \<le> 2 ^ 31" and "core_inv k"
    and j: "current_task_idx k' \<noteq> j"
  shows "waiting (m + n) (j, p) k' \<and> ticks_since_switch k' = 0 \<and>
         ahead (j, p) (pq_arrivals (ready_queue k')) + (if current_effective k' \<le> p then 1 else 0) =
         ahead (j, p) (pq_arrivals (ready_queue k))"
proof -
  let ?ws = "pq_arrivals (ready_queue k)"
  have wk: "pq_fifo (ready_queue k)" "ages_within m (ready_queue k)" "(j, p) \<in> set ?ws"
    using w by (simp_all add: waiting_def)
  obtain js where js: "fifo_best (?ws @ js) = (current_task_idx k', current_effective k')"
    "pq_arrivals (ready_queue k') = remove1 (fifo_best (?ws @ js)) (?ws @ js)" "pq_fifo (ready_queue k')"
    "ages_within (m + n) (ready_queue k')" "ticks_since_switch k' = 0"
    by (rule dequeued_fifo [OF assms(1,4) wk(1,2) assms(3)])
  have "(j, p) \<in> set (?ws @ js)" "fifo_best (?ws @ js) \<noteq> (j, p)" using wk(3) j js(1) by auto
  from ahead_pop [OF this] js wk(3) show ?thesis by (auto simp: waiting_def ahead_append)
qed

lemma current_effective_cong:
  assumes "prio_of k' = prio_of k" and "current_task_idx k' = current_task_idx k"
  shows "current_effective k' = current_effective k"
  using fun_cong [OF assms(1), of "current_task_idx k"] assms(2)
  by (auto simp: current_effective_def prio_of_def split: option.splits)

text \<open>
  A run in which the task of entry \<open>j\<close> is not chosen. \<open>n\<close> counts the steps, \<open>e\<close> the timer ticks that
  interrupted a task of priority at most \<open>p\<close>.
\<close>

inductive passed_over :: "platform \<Rightarrow> nat \<Rightarrow> u8 \<Rightarrow> u8 \<Rightarrow> nat \<Rightarrow> nat \<Rightarrow> kernel \<Rightarrow> kernel \<Rightarrow> bool"
  for pf idle j p where
  start: "passed_over pf idle j p 0 0 k k"
| other: "passed_over pf idle j p n e k k1 \<Longrightarrow> kstep pf idle k1 k2 \<Longrightarrow> current_task_idx k2 \<noteq> j \<Longrightarrow>
    tick_count (clint k2) = tick_count (clint k1) \<or> p < current_effective k1 \<Longrightarrow>
    passed_over pf idle j p (Suc n) e k k2"
| tick: "passed_over pf idle j p n e k k1 \<Longrightarrow> kstep pf idle k1 k2 \<Longrightarrow> current_task_idx k2 \<noteq> j \<Longrightarrow>
    tick_count (clint k2) \<noteq> tick_count (clint k1) \<Longrightarrow> current_effective k1 \<le> p \<Longrightarrow>
    passed_over pf idle j p (Suc n) (Suc e) k k2"

text \<open>Ticks so far, against the quanta of the tasks that have had their turn.\<close>

definition on_account :: "nat \<Rightarrow> nat \<Rightarrow> u8 \<times> u8 \<Rightarrow> kernel \<Rightarrow> bool" where
  "on_account a0 e x k \<longleftrightarrow>
     (let a = ahead x (pq_arrivals (ready_queue k)); q = unat TIME_QUANTUM_TICKS; s = unat (ticks_since_switch k)
      in if current_effective k \<le> snd x
         then e = 0 \<and> a = a0 \<and> ticks_since_switch k \<noteq> - 1 \<or> s < q \<and> e + a * q \<le> a0 * q + s
         else e + a * q \<le> a0 * q + q)"

lemma unat_max_u32: "unat (- 1 :: u32) = 4294967295"
  by (simp add: unat_eq_nat_uint uint_word_ariths)

lemma step_on_account:
  assumes step: "kstep pf idle k k'" and live: "live pf idle k" and w: "waiting m (j, p) k" and m: "m + 17 \<le> 2 ^ 31"
    and j: "current_task_idx k' \<noteq> j" and acc: "on_account a0 e (j, p) k"
  shows "waiting (m + 17) (j, p) k' \<and>
    on_account a0 (if tick_count (clint k') = tick_count (clint k) \<or> p < current_effective k then e else Suc e) (j, p) k'"
proof -
  let ?a = "ahead (j, p) (pq_arrivals (ready_queue k))" and ?a' = "ahead (j, p) (pq_arrivals (ready_queue k'))"
  let ?e = "if tick_count (clint k') = tick_count (clint k) \<or> p < current_effective k then e else Suc e"
  have core: "core_inv k" using live by (simp add: kernel_invs sched_inv_def)
  note eff = current_effective_cong [of k' k]
  consider (call) "enqueued 2 k k'" "clint k' = clint k"
    | (switch) "dequeued 17 k k'"
    | (stay) "stayed k k'" "tick_count (clint k') = tick_count (clint k) + 1"
    using kstep_moved [OF step live] dequeued_mono [of 2 k k' 17] by (auto simp: moved_def)
  then show ?thesis
  proof cases
    case call
    then have en: "joined 17 k (ready_queue k')" using joined_mono [of 2 k _ 17] by (simp add: enqueued_def)
    from call eff have "current_effective k' = current_effective k" "ticks_since_switch k' = ticks_since_switch k"
      by (simp_all add: enqueued_def)
    with call(2) acc enqueued_waiting [OF en w m] show ?thesis
      by (simp add: on_account_def Let_def split: if_splits)
  next
    case switch
    from dequeued_waiting [OF this w m core j]
    have d: "waiting (m + 17) (j, p) k'" "ticks_since_switch k' = 0"
      "?a' + (if current_effective k' \<le> p then 1 else 0) = ?a" by simp_all
    have "?e + ?a * unat TIME_QUANTUM_TICKS \<le> a0 * unat TIME_QUANTUM_TICKS + unat TIME_QUANTUM_TICKS"
      using acc by (auto simp: on_account_def Let_def TIME_QUANTUM_TICKS_def split: if_splits)
    with d show ?thesis
      by (auto simp: on_account_def Let_def TIME_QUANTUM_TICKS_def simp flip: d(3) split: if_splits)
  next
    case stay
    then have en: "joined 17 k (ready_queue k')" using joined_mono [of 16 k _ 17] by (simp add: stayed_def)
    note w' = enqueued_waiting [OF en w m]
    have "(j, p) \<in># pq_bag (ready_queue k')" using w' set_arrivals by (auto simp: waiting_def)
    then have q: "current_effective k' \<le> p \<Longrightarrow> unat (ticks_since_switch k') < unat TIME_QUANTUM_TICKS"
      using stay(1) by (force simp: stayed_def simp flip: word_less_nat_alt)
    have s: "ticks_since_switch k \<noteq> - 1 \<Longrightarrow> unat (ticks_since_switch k') = Suc (unat (ticks_since_switch k))"
      using stay(1) unatSuc [of "ticks_since_switch k"] by (simp add: stayed_def add_eq_0_iff add.commute)
    have e: "current_effective k' = current_effective k" using stay(1) eff by (simp add: stayed_def)
    show ?thesis
    proof (cases "current_effective k \<le> p")
      case True
      then have "ticks_since_switch k \<noteq> - 1" using acc by (auto simp: on_account_def Let_def TIME_QUANTUM_TICKS_def unat_max_u32)
      with True w' q s acc stay(2) show ?thesis by (auto simp: on_account_def Let_def e)
    next
      case False
      then have "p < current_effective k" by simp
      with False w' acc stay(2) show ?thesis by (simp add: on_account_def Let_def e)
    qed
  qed
qed

lemma passed_over_account:
  assumes "passed_over pf idle j p n e k k'" and "live pf idle k" and "waiting m (j, p) k"
    and "ticks_since_switch k \<noteq> - 1" and "m + 17 * n \<le> 2 ^ 31"
  shows "live pf idle k' \<and> waiting (m + 17 * n) (j, p) k' \<and>
         on_account (ahead (j, p) (pq_arrivals (ready_queue k))) e (j, p) k'"
  using assms
proof (induction rule: passed_over.induct)
  case (start k)
  then show ?case by (simp add: on_account_def Let_def)
next
  case (other n e k k1 k2)
  then have "live pf idle k1" "waiting (m + 17 * n) (j, p) k1"
    "on_account (ahead (j, p) (pq_arrivals (ready_queue k))) e (j, p) k1" by simp_all
  from step_on_account [OF other.hyps(2) this(1,2) _ other.hyps(3) this(3)] kstep_live [OF other.hyps(2) this(1)]
  show ?case using other.hyps(4) other.prems(4) by (simp add: add_ac split: if_splits)
next
  case (tick n e k k1 k2)
  then have "live pf idle k1" "waiting (m + 17 * n) (j, p) k1"
    "on_account (ahead (j, p) (pq_arrivals (ready_queue k))) e (j, p) k1" by simp_all
  from step_on_account [OF tick.hyps(2) this(1,2) _ tick.hyps(3) this(3)] kstep_live [OF tick.hyps(2) this(1)]
  show ?case using tick.hyps(4,5) tick.prems(4) by (simp add: add_ac split: if_splits)
qed

lemma account_bound:
  "on_account a e x k \<Longrightarrow> e \<le> (a + 1) * unat TIME_QUANTUM_TICKS"
  by (auto simp: on_account_def Let_def TIME_QUANTUM_TICKS_def split: if_splits)

section \<open>The queue after boot\<close>

lemma populate_enqueued:
  "fold_res populate_slot is k = Inr k' \<Longrightarrow> enqueued (length is) k k'"
proof (induction "is" arbitrary: k)
  case (Cons i "is")
  then obtain k1 where k1: "populate_slot i k = Inr k1" "fold_res populate_slot is k1 = Inr k'"
    by (auto simp: bind_res_eq_Inr_iff)
  have "enqueued 1 k k1"
    using k1(1) by (auto simp: populate_slot_def prio_of_def same_queue_enqueued split: option.splits if_splits
        dest!: queue_insert_enqueued)
  from enqueued_trans [OF this Cons.IH [OF k1(2)]] show ?case by simp
qed (simp add: same_queue_enqueued)

lemma populate_fifo:
  assumes "populate_ready_queue pf k = Inr k'" and "ready_queue k = pq_new MAX_TASKS" and "task_count k \<le> MAX_TASKS"
    and "ticks_since_switch k = 0"
  shows "pq_fifo (ready_queue k') \<and> ages_within MAX_TASKS (ready_queue k') \<and> ticks_since_switch k' = 0"
proof -
  obtain k1 r q where k1: "fold_res populate_slot [0..<task_count k] k = Inr k1" "pq_pop_max (ready_queue k1) = Inr (r, q)"
    and k': "ready_queue k' = q" "ticks_since_switch k' = ticks_since_switch k1 \<or> ticks_since_switch k' = 0"
    using assms(1) by (auto simp: populate_ready_queue_def bind_res_eq_Inr_iff mark_running_sel split: option.splits)
  have en: "enqueued MAX_TASKS k k1" using enqueued_mono [OF populate_enqueued [OF k1(1)]] assms(3) by simp
  have "pq_fifo (ready_queue k)" "ages_within 0 (ready_queue k)"
    by (simp_all add: assms(2) pq_new_rep pq_fifo_rep ages_within_def heap_ordered_def)
  then have k1q: "pq_fifo (ready_queue k1)" "ages_within MAX_TASKS (ready_queue k1)"
    using joined_fifo [of MAX_TASKS k "ready_queue k1" 0] en by (auto simp: enqueued_def)
  have "pq_fifo q"
    using pq_pop_fifo [OF k1q(1)] k1(2) k1q(1) length_pq_arrivals [OF k1q(1)]
    by (cases "pq_arrivals (ready_queue k1) = []") (auto simp: pq_pop_max_def)
  moreover have "ages_within MAX_TASKS q"
    using k1q pq_pop_ages [OF _ k1(2)] by (simp add: pq_fifo_def)
  ultimately show ?thesis using k' en assms(4) by (auto simp: enqueued_def)
qed

lemma print_task_registry_Inr: "print_task_registry k = Inr k' \<Longrightarrow> \<exists>out. k' = k\<lparr>uart := out\<rparr>"
  using print_task_registry_total [of k] by auto

lemma boot_start_fifo:
  assumes "boot_start pf env tbl k = Inr (frame, k')" and k: "unscheduled k" "ticks_since_switch k = 0" "0 < task_count k"
    and tbl: "length tbl = MAX_TASKS"
  shows "pq_fifo (ready_queue k') \<and> ages_within MAX_TASKS (ready_queue k') \<and> ticks_since_switch k' = 0"
proof -
  obtain kp k8 k9 where s: "scheduler_init pf tbl kp = Inr k8" "prepare_frames pf (task_returned env) (global_pointer env) k8 = Inr k9"
    and kp: "unscheduled kp" "ticks_since_switch kp = 0" "0 < task_count kp"
    and k': "ready_queue k' = ready_queue k9" "ticks_since_switch k' = ticks_since_switch k9"
    using assms(1) k emit_total print_task_registry_total
    by (auto simp: boot_start_def bind_res_eq_Inr_iff unscheduled_def table_wf_def simp del: emit.simps
        dest!: emit_Inr print_task_registry_Inr)
  have wf: "length (registry kp) = MAX_TASKS" "task_count kp \<le> MAX_TASKS" "ready_queue kp = pq_new MAX_TASKS"
    using kp(1) by (simp_all add: unscheduled_def table_wf_def)
  obtain reg where "write_precomputed_mip tbl kp = kp\<lparr>registry := reg\<rparr>"
    using write_precomputed_mip_registry [OF tbl wf(1,2)] by blast
  then have "populate_ready_queue pf (kp\<lparr>registry := reg\<rparr>) = Inr k8" using s(1) by (simp add: scheduler_init_def)
  from populate_fifo [OF this] wf kp(2)
  have q: "pq_fifo (ready_queue k8)" "ages_within MAX_TASKS (ready_queue k8)" "ticks_since_switch k8 = 0" by simp_all
  obtain k8' where "scheduler_init pf tbl kp = Inr k8'" "switched pf (write_precomputed_mip tbl kp) k8'"
    using scheduler_init_inv [OF kp(1,3) tbl, of pf] by blast
  then have "table_wf k8" using s(1) by (auto simp: switched_def intro: sched_inv_wf)
  from prepare_frames_ready [OF this, of pf "task_returned env" "global_pointer env"] s(2)
  have "ready_queue k9 = ready_queue k8" "ticks_since_switch k9 = ticks_since_switch k8"
    by (auto simp: frames_ready_def)
  with q k' show ?thesis by simp
qed

text \<open>The ready queue a boot leaves is in arrival order, and the first quantum starts at zero.\<close>

lemma kernel_main_fifo:
  assumes "kernel_main pf env (initial_kernel m r t fs) = Inr (frame, k)"
  shows "pq_fifo (ready_queue k) \<and> ages_within MAX_TASKS (ready_queue k) \<and> ticks_since_switch k = 0"
proof -
  obtain k3 where main: "kernel_main pf env (initial_kernel m r t fs) =
        bind_res (boot_validate k3) (\<lambda>k7. boot_start pf env (boot_table env) k7)"
    and k3: "unscheduled k3" "task_count k3 = length (boot_tasks env)" "ticks_since_switch k3 = 0"
    using kernel_main_registers [of pf env m r t fs] by blast
  obtain k7 where k7: "boot_validate k3 = Inr k7" "boot_start pf env (boot_table env) k7 = Inr (frame, k)"
    using assms main by (auto simp: bind_res_eq_Inr_iff)
  obtain out where "k7 = k3\<lparr>uart := out\<rparr>" using boot_validate_value [OF k7(1)] by blast
  with k3 have "unscheduled k7" "ticks_since_switch k7 = 0" "0 < task_count k7"
    by (simp_all add: unscheduled_def table_wf_def boot_tasks_length)
  from boot_start_fifo [OF k7(2) this boot_table_length] show ?thesis .
qed

section \<open>The bound\<close>

text \<open>
  C10: equal priorities share the processor. From a live state in which task \<open>j\<close> is ready with
  effective priority \<open>p\<close>, consider any run of the machine in which \<open>j\<close> is never chosen: it is
  still in the ready queue, and the number of timer ticks that interrupted a task of priority at most
  \<open>p\<close> is at most one quantum for each task of priority \<open>p\<close> that was enqueued before it, and one for
  the task that was running. The run may contain any system calls, wake-ups and preemptions by
  more important tasks; it is short enough for the queue's 32-bit sequence numbers not to wrap.
\<close>

theorem equal_priority_waits_its_turn:
  assumes "live pf idle k" and "waiting m (j, p) k" and "ticks_since_switch k \<noteq> - 1"
    and "passed_over pf idle j p n e k k'" and "m + 17 * n \<le> 2 ^ 31"
  shows "(j, p) \<in> set (pq_arrivals (ready_queue k')) \<and>
         e \<le> (ahead (j, p) (pq_arrivals (ready_queue k)) + 1) * unat TIME_QUANTUM_TICKS"
  using passed_over_account [OF assms(4,1-3,5)] account_bound by (auto simp: waiting_def)

lemma booted_waiting: "waiting 16 (1, 2) booted" "ticks_since_switch booted = 0"
proof -
  have q: "pq_fifo (ready_queue booted)" "ages_within 16 (ready_queue booted)" "ticks_since_switch booted = 0"
    using kernel_main_fifo demo_boots(1) unfolding demo_reset_def by fastforce+
  have inv: "sched_inv booted" using booted_live by (simp add: kernel_invs)
  have reg: "length (registry booted) = MAX_TASKS" using sched_inv_wf(1) [OF inv] by (simp add: table_wf_def)
  obtain d where d: "registry booted ! 1 = Some d" "(of_nat 1, effective_priority d) \<in># pq_bag (ready_queue booted)"
    using available_ready [OF inv booted_available, of 1] by (auto simp: booted_current)
  moreover have "effective_priority d = 2" using booted_priority [OF refl _ d(1) reg] by simp
  ultimately have "(1, 2) \<in># pq_bag (ready_queue booted)" by simp
  then show "waiting 16 (1, 2) booted"
    using q by (simp add: waiting_def set_arrivals)
  show "ticks_since_switch booted = 0" by (rule q)
qed

text \<open>Witness: the booted machine, in which the filter waits while the sensor reader stores a byte.\<close>

theorem equal_priority_waits_its_turn_witness:
  "(1, 2) \<in> set (pq_arrivals (ready_queue (booted\<lparr>mem := (mem booted)(0x800B8010 := 7)\<rparr>))) \<and>
   passed_over demo_platform 3 1 2 1 0 booted (booted\<lparr>mem := (mem booted)(0x800B8010 := 7)\<rparr>)"
proof -
  have run: "passed_over demo_platform 3 1 2 (Suc 0) 0 booted (booted\<lparr>mem := (mem booted)(0x800B8010 := 7)\<rparr>)"
    by (rule passed_over.other [OF passed_over.start booted_store]) (simp_all add: booted_current)
  from equal_priority_waits_its_turn [OF booted_live booted_waiting(1) _ run] run booted_waiting(2) show ?thesis by simp
qed

end
