(* ===== verification/Scheduler_Refinement.thy ===== *)
theory Scheduler_Refinement
  imports Round_Robin
begin

text \<open>
  An abstract scheduler and the proof that the kernel implements it. The abstract state is the running
  task, the list of waiting tasks in order of arrival and the ticks of the current turn; heap, sequence
  numbers and task table are gone. Both systems step under the same labels: a store, a timer interrupt,
  a system call with its number. A bounded simulation carries the correspondence over whole runs, for
  as long as the 32-bit sequence numbers of the queue can be compared.
\<close>

section \<open>Labelled runs and simulations with a budget\<close>

inductive trace :: "('e \<Rightarrow> 's \<Rightarrow> 's \<Rightarrow> bool) \<Rightarrow> 'e list \<Rightarrow> 's \<Rightarrow> 's \<Rightarrow> bool" for step where
  empty: "trace step [] s s"
| event: "step e s s1 \<Longrightarrow> trace step es s1 s' \<Longrightarrow> trace step (e # es) s s'"

locale budgeted_simulation =
  fixes step :: "'e \<Rightarrow> 's \<Rightarrow> 's \<Rightarrow> bool"
    and abstract_step :: "'e \<Rightarrow> 'a \<Rightarrow> 'a \<Rightarrow> bool"
    and abstraction :: "'s \<Rightarrow> 'a"
    and good_for :: "nat \<Rightarrow> 's \<Rightarrow> bool"
  assumes simulates: "\<lbrakk>good_for (Suc n) s; step e s s'\<rbrakk> \<Longrightarrow>
      good_for n s' \<and> abstract_step e (abstraction s) (abstraction s')"
begin

lemma run_simulates:
  "trace step es s s' \<Longrightarrow> good_for (length es) s \<Longrightarrow> trace abstract_step es (abstraction s) (abstraction s')"
proof (induction rule: trace.induct)
  case (event e s s1 es s')
  then have "good_for (length es) s1" "abstract_step e (abstraction s) (abstraction s1)"
    using simulates [OF _ event.hyps(1)] by simp_all
  with event.IH show ?case by (blast intro: trace.event)
qed (rule trace.empty)

end

section \<open>The events of the machine\<close>

datatype sched_event = Store | Tick | Call usize

text \<open>The steps of \<open>kstep\<close> with what happened; a system call is told by its number in \<open>a7\<close>.\<close>

inductive kevent :: "platform \<Rightarrow> nat \<Rightarrow> sched_event \<Rightarrow> kernel \<Rightarrow> kernel \<Rightarrow> bool" for pf idle where
  store: "unat (current_task_idx k) \<noteq> idle \<Longrightarrow>
    (\<And>a. m a \<noteq> mem k a \<Longrightarrow> may_store k a \<and> \<not> kernel_data pf a) \<Longrightarrow> kevent pf idle Store k (k\<lparr>mem := m\<rparr>)"
| ecall: "is_ecall f \<Longrightarrow> length (regs f) = 32 \<Longrightarrow> unat (current_task_idx k) \<noteq> idle \<Longrightarrow>
    trap_handler pf hw (frame_of (current_task_idx k) k) (saved f k) = Inr (frame, k') \<Longrightarrow>
    kevent pf idle (Call (regs f ! REG_A7)) k k'"
| timer: "is_timer f \<Longrightarrow> length (regs f) = 32 \<Longrightarrow>
    trap_handler pf hw (frame_of (current_task_idx k) k) (saved f k) = Inr (frame, k') \<Longrightarrow>
    kevent pf idle Tick k k'"

lemma kstep_iff_kevent: "kstep pf idle k k' \<longleftrightarrow> (\<exists>e. kevent pf idle e k k')"
proof
  assume "kstep pf idle k k'"
  then show "\<exists>e. kevent pf idle e k k'"
    by cases (blast intro: kevent.intros)+
next
  assume "\<exists>e. kevent pf idle e k k'"
  then obtain e where "kevent pf idle e k k'" by blast
  then show "kstep pf idle k k'" by cases (blast intro: kstep.intros)+
qed

section \<open>The abstract scheduler\<close>

record round_robin =
  rr_running :: "u8 \<times> u8"
  rr_waiting :: "(u8 \<times> u8) list"
  rr_used :: u32

text \<open>
  A task is its slot with its effective priority. The first of the most important tasks of a list is
  picked; the running task joins the end of the waiting list, or leaves; others arrive at the end.
\<close>

definition rr_pick :: "(u8 \<times> u8) list \<Rightarrow> round_robin" where
  "rr_pick ps = \<lparr>rr_running = fifo_best ps, rr_waiting = remove1 (fifo_best ps) ps, rr_used = 0\<rparr>"

definition rr_requeue :: "round_robin \<Rightarrow> round_robin" where
  "rr_requeue s = rr_pick (rr_waiting s @ [rr_running s])"

definition rr_leave :: "round_robin \<Rightarrow> round_robin" where
  "rr_leave s = rr_pick (rr_waiting s)"

definition rr_join :: "(u8 \<times> u8) list \<Rightarrow> round_robin \<Rightarrow> round_robin" where
  "rr_join js s = s\<lparr>rr_waiting := rr_waiting s @ js\<rparr>"

definition rr_outranked :: "round_robin \<Rightarrow> bool" where
  "rr_outranked s \<longleftrightarrow> (\<exists>x \<in> set (rr_waiting s). snd (rr_running s) < snd x)"

definition rr_turn_over :: "round_robin \<Rightarrow> bool" where
  "rr_turn_over s \<longleftrightarrow>
     rr_outranked s \<or> TIME_QUANTUM_TICKS \<le> rr_used s \<and> (\<exists>x \<in> set (rr_waiting s). snd (rr_running s) \<le> snd x)"

definition rr_tick :: "(u8 \<times> u8) list \<Rightarrow> round_robin \<Rightarrow> round_robin" where
  "rr_tick js s =
     (let s1 = (rr_join js s)\<lparr>rr_used := rr_used s + 1\<rparr> in if rr_turn_over s1 then rr_requeue s1 else s1)"

definition rr_wake :: "(u8 \<times> u8) list \<Rightarrow> round_robin \<Rightarrow> round_robin" where
  "rr_wake js s = (let s1 = rr_join js s in if rr_outranked s1 then rr_requeue s1 else s1)"

text \<open>
  Every event determines the next state, up to which tasks arrive (those woken by the tick or by the
  channel operation, none of which ran or waited) and whether a channel operation has to wait.
\<close>

definition rr_new :: "(u8 \<times> u8) list \<Rightarrow> round_robin \<Rightarrow> bool" where
  "rr_new js s \<longleftrightarrow> distinct (map fst (rr_running s # rr_waiting s @ js))"

inductive rr_step :: "sched_event \<Rightarrow> round_robin \<Rightarrow> round_robin \<Rightarrow> bool" where
  store: "rr_step Store s s"
| tick: "rr_new js s \<Longrightarrow> rr_step Tick s (rr_tick js s)"
| yield: "rr_step (Call SYS_YIELD) s (rr_requeue s)"
| sleep: "rr_waiting s \<noteq> [] \<Longrightarrow> rr_step (Call SYS_SLEEP) s (rr_leave s)"
| channel: "n = SYS_SEND \<or> n = SYS_RECEIVE \<Longrightarrow> length js \<le> 1 \<Longrightarrow> rr_new js s \<Longrightarrow> rr_step (Call n) s (rr_wake js s)"
| blocks: "n = SYS_SEND \<or> n = SYS_RECEIVE \<Longrightarrow> rr_waiting s \<noteq> [] \<Longrightarrow> rr_step (Call n) s (rr_leave s)"
| other: "n \<notin> {SYS_YIELD, SYS_SLEEP, SYS_SEND, SYS_RECEIVE} \<Longrightarrow> rr_step (Call n) s s"

definition rr_abs :: "kernel \<Rightarrow> round_robin" where
  "rr_abs k =
     \<lparr>rr_running = (current_task_idx k, current_effective k), rr_waiting = pq_arrivals (ready_queue k),
      rr_used = ticks_since_switch k\<rparr>"

section \<open>Exactly which tasks a path enqueues\<close>

definition arrives :: "(u8 \<times> u8) list \<Rightarrow> kernel \<Rightarrow> kernel \<Rightarrow> bool" where
  "arrives js k k' \<longleftrightarrow>
     (\<forall>x \<in> set js. prio_of k (fst x) = Some (snd x)) \<and> inserts js (ready_queue k) = Inr (ready_queue k') \<and>
     prio_of k' = prio_of k \<and> current_task_idx k' = current_task_idx k \<and> ticks_since_switch k' = ticks_since_switch k"

text \<open>
  The queue is in arrival order, its ages are bounded, and the entries carry the priorities of the table.
\<close>

definition ordered :: "nat \<Rightarrow> kernel \<Rightarrow> bool" where
  "ordered m k \<longleftrightarrow>
     pq_fifo (ready_queue k) \<and> ages_within m (ready_queue k) \<and>
     (\<forall>x \<in> set (pq_arrivals (ready_queue k)). prio_of k (fst x) = Some (snd x)) \<and>
     prio_of k (current_task_idx k) = Some (current_effective k)"

lemma arrives_enqueued: "enqueued n k k' \<longleftrightarrow> (\<exists>js. length js \<le> n \<and> arrives js k k')"
  by (auto simp: enqueued_def joined_def arrives_def)

lemma arrives_Nil: "arrives [] k k' \<longleftrightarrow> same_queue k k'"
  by (auto simp: arrives_def same_queue_def)

lemma arrives_abs:
  assumes "arrives js k k'" and "ordered m k" and "m + length js \<le> 2 ^ 31"
  shows "ordered (m + length js) k' \<and> rr_abs k' = rr_join js (rr_abs k)"
proof -
  from assms have "pq_fifo (ready_queue k') \<and> pq_arrivals (ready_queue k') = pq_arrivals (ready_queue k) @ js \<and>
      ages_within (m + length js) (ready_queue k')"
    by (intro inserts_fifo) (auto simp: arrives_def ordered_def)
  moreover have "current_effective k' = current_effective k"
    using assms(1) by (intro current_effective_cong) (simp_all add: arrives_def)
  ultimately show ?thesis
    using assms(1,2) by (auto simp: ordered_def arrives_def rr_abs_def rr_join_def)
qed

lemma same_queue_abs:
  assumes "same_queue k k'" and "ordered m k" and "m \<le> 2 ^ 31"
  shows "ordered m k' \<and> rr_abs k' = rr_abs k"
  using arrives_abs [of "[]" k k' m] assms by (simp add: arrives_Nil rr_join_def)

lemma ordered_mono: "ordered m k \<Longrightarrow> m \<le> n \<Longrightarrow> ordered n k"
  by (force simp: ordered_def ages_within_def)

text \<open>The next task is taken from the queue.\<close>

lemma dispatch_next_abs:
  assumes "dispatch_next pf k = Inr (frame, k')" and o: "ordered m k"
  shows "ordered m k' \<and> rr_abs k' = rr_leave (rr_abs k) \<and> rr_waiting (rr_abs k) \<noteq> []"
proof -
  let ?q = "ready_queue k"
  obtain q' where q': "pq_pop_max ?q = Inr (Some (current_task_idx k'), ready_queue k')" "prio_of k' = prio_of k"
    "ticks_since_switch k' = 0"
    using dispatch_next_dequeued [OF assms(1)] by (auto simp: dequeued_def joined_def)
  have fifo: "pq_fifo ?q" "ages_within m ?q" using o by (simp_all add: ordered_def)
  have "pq_len ?q \<noteq> 0" using q'(1) by (intro notI) (simp add: pq_pop_max_def)
  then have ne: "pq_arrivals ?q \<noteq> []" using length_pq_arrivals [OF fifo(1)] by auto
  let ?b = "fifo_best (pq_arrivals ?q)"
  from pq_pop_fifo [OF fifo(1) ne] q'(1)
  have pop: "fst ?b = current_task_idx k'" "pq_fifo (ready_queue k')"
    "pq_arrivals (ready_queue k') = remove1 ?b (pq_arrivals ?q)" by auto
  have "?b \<in> set (pq_arrivals ?q)" using fifo_best_split [OF ne] by (metis in_set_conv_decomp)
  then have "prio_of k' (current_task_idx k') = Some (snd ?b)"
    using o by (auto simp: ordered_def q'(2) simp flip: pop(1))
  then have eff: "prio_of k' (current_task_idx k') = Some (current_effective k')" "snd ?b = current_effective k'"
    by (auto simp: current_effective_def prio_of_def)
  have "ages_within m (ready_queue k')" using fifo pq_pop_ages [OF _ q'(1)] by (simp add: pq_fifo_def)
  moreover have "set (remove1 ?b (pq_arrivals ?q)) \<subseteq> set (pq_arrivals ?q)" by (rule set_remove1_subset)
  ultimately have "ordered m k'" using o pop eff(1) q'(2) by (auto simp: ordered_def)
  moreover have "?b = (current_task_idx k', current_effective k')" using pop(1) eff(2) by (cases ?b) simp
  ultimately show ?thesis
    using pop(3) q'(3) ne by (simp add: rr_abs_def rr_leave_def rr_pick_def)
qed

lemma arrives_trans: "arrives xs k k1 \<Longrightarrow> arrives ys k1 k2 \<Longrightarrow> arrives (xs @ ys) k k2"
  by (auto simp: arrives_def inserts_append)

lemma queue_insert_arrives: "queue_insert idx p k = Inr k' \<Longrightarrow> prio_of k idx = Some p \<Longrightarrow> arrives [(idx, p)] k k'"
  by (auto simp: queue_insert_def arrives_def bind_res_eq_Inr_iff)

lemma requeue_arrives:
  assumes "requeue_current k = Inr k'" and "ordered m k"
  shows "arrives [rr_running (rr_abs k)] k k'"
proof -
  let ?k1 = "upd_task (current_task_idx k) (\<lambda>d. d\<lparr>td_state := Ready\<rparr>) k"
  have p: "prio_of k (current_task_idx k) = Some (current_effective k)" using assms(2) by (simp add: ordered_def)
  then obtain t where t: "task_ptr (current_task_idx k) k = Some t" "effective_priority t = current_effective k"
    by (auto simp: prio_of_def)
  have same: "arrives [] k ?k1" unfolding arrives_Nil by (rule same_queue_upd_task) simp
  have "queue_insert (current_task_idx k) (current_effective k) ?k1 = Inr k'"
    using assms(1) t by (simp add: requeue_current_def Let_def)
  from arrives_trans [OF same queue_insert_arrives [OF this]] p show ?thesis by (simp add: rr_abs_def)
qed

text \<open>The running task goes to the end of the queue and the next one is taken.\<close>

lemma requeue_dispatch_abs:
  assumes "bind_res (requeue_current k) (dispatch_next pf) = Inr (frame, k')" and "ordered m k" and "m + 1 \<le> 2 ^ 31"
  shows "ordered (m + 1) k' \<and> rr_abs k' = rr_requeue (rr_abs k)"
proof -
  obtain k1 where k1: "requeue_current k = Inr k1" "dispatch_next pf k1 = Inr (frame, k')"
    using assms(1) by (auto simp: bind_res_eq_Inr_iff)
  from arrives_abs [OF requeue_arrives [OF k1(1) assms(2)] assms(2)] assms(3)
  have "ordered (m + 1) k1" "rr_abs k1 = rr_join [rr_running (rr_abs k)] (rr_abs k)" by simp_all
  with dispatch_next_abs [OF k1(2)] show ?thesis by (simp add: rr_leave_def rr_requeue_def rr_join_def)
qed

lemma save_abs: "ordered m k \<Longrightarrow> m \<le> 2 ^ 31 \<Longrightarrow>
    ordered m (save_current frame k) \<and> rr_abs (save_current frame k) = rr_abs k"
  by (rule same_queue_abs) simp_all

lemma yield_abs:
  assumes "yield_current pf frame k = Inr (frame', k')" and "ordered m k" and "m + 1 \<le> 2 ^ 31"
  shows "ordered (m + 1) k' \<and> rr_abs k' = rr_requeue (rr_abs k)"
proof -
  have "bind_res (requeue_current (save_current frame k)) (dispatch_next pf) = Inr (frame', k')"
    using assms(1) by (simp add: yield_current_def)
  from requeue_dispatch_abs [OF this, of m] save_abs [OF assms(2), of frame] assms(3) show ?thesis by simp
qed

text \<open>The running task leaves, asleep or blocked.\<close>

lemma leave_abs:
  assumes "dispatch_next pf (upd_task i f (save_current frame k)) = Inr (frame', k')"
    and "\<And>k. prio_of (upd_task i f k) = prio_of k" and "ordered m k" and "m \<le> 2 ^ 31"
  shows "ordered m k' \<and> rr_abs k' = rr_leave (rr_abs k) \<and> rr_waiting (rr_abs k) \<noteq> []"
proof -
  let ?k1 = "save_current frame k"
  have "same_queue ?k1 (upd_task i f ?k1)" by (rule same_queue_upd_task [OF assms(2)])
  from same_queue_abs [OF this _ assms(4)] save_abs [OF assms(3,4), of frame]
  have "ordered m (upd_task i f ?k1)" "rr_abs (upd_task i f ?k1) = rr_abs k" by simp_all
  with dispatch_next_abs [OF assms(1)] show ?thesis by simp
qed

lemma sleep_abs:
  "sleep_current pf frame n k = Inr (frame', k') \<Longrightarrow> ordered m k \<Longrightarrow> m \<le> 2 ^ 31 \<Longrightarrow>
   ordered m k' \<and> rr_abs k' = rr_leave (rr_abs k) \<and> rr_waiting (rr_abs k) \<noteq> []"
  unfolding sleep_current_def Let_def by (erule leave_abs) simp_all

lemma block_abs:
  "block_current pf frame reason k = Inr (frame', k') \<Longrightarrow> ordered m k \<Longrightarrow> m \<le> 2 ^ 31 \<Longrightarrow>
   ordered m k' \<and> rr_abs k' = rr_leave (rr_abs k) \<and> rr_waiting (rr_abs k) \<noteq> []"
  unfolding block_current_def Let_def by (erule leave_abs) simp_all

text \<open>Looking at the head of the queue decides whether a waiting task takes over.\<close>

lemma head_decides:
  assumes "pq_fifo q"
  shows "\<exists>h. (if pq_is_empty q then Inr None else bind_res (pq_peek_max_priority q) (\<lambda>p. Inr (Some p))) = Inr h \<and>
    (\<forall>c n. should_preempt c h n \<longleftrightarrow>
      (\<exists>x \<in> set (pq_arrivals q). c < snd x) \<or> TIME_QUANTUM_TICKS \<le> n \<and> (\<exists>x \<in> set (pq_arrivals q). c \<le> snd x))"
proof -
  have wf: "pq_wf q" using assms by (simp add: pq_fifo_def)
  have set: "set (pq_arrivals q) = set_mset (pq_bag q)" by (rule set_arrivals [OF assms])
  have empty: "pq_is_empty q \<longleftrightarrow> pq_bag q = {#}"
    using wf by (auto simp: pq_is_empty_def elim!: pq_wf_obtain)
  show ?thesis
  proof (cases "pq_bag q = {#}")
    case True
    then show ?thesis using empty set by (simp add: should_preempt_def)
  next
    case False
    then obtain p where p: "pq_peek_max_priority q = Inr p" "p \<in># image_mset snd (pq_bag q)"
      "\<forall>(t, r) \<in># pq_bag q. r \<le> p" using ready_queue.peek_max [OF wf] by auto
    have "should_preempt c (Some p) n \<longleftrightarrow>
      (\<exists>x \<in># pq_bag q. c < snd x) \<or> TIME_QUANTUM_TICKS \<le> n \<and> (\<exists>x \<in># pq_bag q. c \<le> snd x)" for c n
      using p(2,3) by (fastforce simp: should_preempt_def)
    then show ?thesis using False empty set p(1) by (intro exI [of _ "Some p"]) simp
  qed
qed

lemma preempt_abs:
  assumes "preempt_if_outranked pf frame k = Inr (frame', k')" and o: "ordered m k" and m: "m + 1 \<le> 2 ^ 31"
  shows "ordered (m + 1) k' \<and> rr_abs k' = (if rr_outranked (rr_abs k) then rr_requeue (rr_abs k) else rr_abs k)"
proof -
  have fifo: "pq_fifo (ready_queue k)" using o by (simp add: ordered_def)
  obtain h where h: "(if pq_is_empty (ready_queue k) then Inr None
      else bind_res (pq_peek_max_priority (ready_queue k)) (\<lambda>p. Inr (Some p))) = Inr h"
    "\<forall>c n. should_preempt c h n \<longleftrightarrow> (\<exists>x \<in> set (pq_arrivals (ready_queue k)). c < snd x) \<or>
      TIME_QUANTUM_TICKS \<le> n \<and> (\<exists>x \<in> set (pq_arrivals (ready_queue k)). c \<le> snd x)"
    using head_decides [OF fifo] by blast
  have out: "rr_outranked (rr_abs k) \<longleftrightarrow> should_preempt (current_effective k) h 0"
    using h(2) by (simp add: rr_outranked_def rr_abs_def TIME_QUANTUM_TICKS_def)
  have "if should_preempt (current_effective k) h 0
    then bind_res (requeue_current (save_current frame k)) (dispatch_next pf) = Inr (frame', k') else k' = k"
    using assms(1) h(1)
    by (auto simp: preempt_if_outranked_def Let_def should_preempt_def bind_res_eq_Inr_iff TIME_QUANTUM_TICKS_def
        split: if_splits)
  with requeue_dispatch_abs [of "save_current frame k"] save_abs [OF o, of frame] m ordered_mono [OF o]
  show ?thesis unfolding out by (auto split: if_splits)
qed

section \<open>Traps on the abstract state\<close>

text \<open>A call that leaves the scheduler alone.\<close>

lemma ret_abs: "ret frame v k = Inr (frame', k') \<Longrightarrow> ordered m k \<Longrightarrow> m \<le> 2 ^ 31 \<Longrightarrow>
    ordered m k' \<and> rr_abs k' = rr_abs k"
  by (rule same_queue_abs [OF ret_same_queue])

lemma block_and_restart_abs:
  assumes "block_and_restart pf frame reason k = Inr (frame', k')" and "ordered m k" and "m \<le> 2 ^ 31"
  shows "ordered m k' \<and> rr_abs k' = rr_leave (rr_abs k) \<and> rr_waiting (rr_abs k) \<noteq> []"
proof -
  obtain k1 where k1: "upd_frame frame (\<lambda>f. f\<lparr>mepc := mepc f - 4\<rparr>) k = Inr k1"
    "block_current pf frame reason k1 = Inr (frame', k')"
    using assms(1) by (auto simp: block_and_restart_def bind_res_eq_Inr_iff)
  have "same_queue k k1" using k1(1) by (auto simp: upd_frame_def bind_res_eq_Inr_iff same_queue_def)
  from same_queue_abs [OF this assms(2,3)] block_abs [OF k1(2), of m] assms(3) show ?thesis by simp
qed

text \<open>
  What a channel call can do: nothing, wake at most one task and yield to it if it is more
  important, or block.
\<close>

definition rr_channel_call :: "round_robin \<Rightarrow> round_robin \<Rightarrow> bool" where
  "rr_channel_call s s' \<longleftrightarrow>
     (\<exists>js. length js \<le> 1 \<and> s' = rr_wake js s) \<or> s' = rr_leave s \<and> rr_waiting s \<noteq> []"

definition channel_served :: "nat \<Rightarrow> kernel \<Rightarrow> kernel \<Rightarrow> bool" where
  "channel_served m k k' \<longleftrightarrow> ordered (m + 2) k' \<and> rr_channel_call (rr_abs k) (rr_abs k')"

lemma not_outranked:
  assumes "live pf idle k" and "ordered m k"
  shows "\<not> rr_outranked (rr_abs k)"
  using assms by (auto simp: rr_outranked_def rr_abs_def ordered_def set_arrivals kernel_invs sched_inv_def
      running_best_def not_less)

lemma rr_wake_none: "\<not> rr_outranked s \<Longrightarrow> rr_wake [] s = s"
  by (simp add: rr_wake_def rr_join_def Let_def)

lemma channel_op_abs:
  assumes "bind_res (ret frame v k) (\<lambda>(_, k1). bind_res (wake_blocked_on reason k1) (\<lambda>(_, k2).
             preempt_if_outranked pf frame k2)) = Inr (frame', k')"
    and o: "ordered m k" and m: "m + 2 \<le> 2 ^ 31"
  shows "channel_served m k k'"
proof -
  obtain f1 k1 r k2 where s: "ret frame v k = Inr (f1, k1)" "wake_blocked_on reason k1 = Inr (r, k2)"
    "preempt_if_outranked pf frame k2 = Inr (frame', k')"
    using assms(1) by (auto simp: bind_res_eq_Inr_iff)
  have k1: "ordered m k1" "rr_abs k1 = rr_abs k" using ret_abs [OF s(1) o] m by simp_all
  obtain js where js: "length js \<le> 1" "arrives js k1 k2"
    using wake_blocked_enqueued [OF s(2)] by (auto simp: arrives_enqueued)
  have k2: "ordered (m + 1) k2" "rr_abs k2 = rr_join js (rr_abs k)"
    using arrives_abs [OF js(2) k1(1)] js(1) m k1(2) ordered_mono [of "m + length js" k2 "m + 1"] by simp_all
  from preempt_abs [OF s(3) k2(1)] m
  have "ordered (m + 2) k'" "rr_abs k' = rr_wake js (rr_abs k)"
    by (simp_all add: k2(2) rr_wake_def Let_def)
  with js(1) show ?thesis by (auto simp: channel_served_def rr_channel_call_def)
qed

lemma channel_same_abs:
  assumes "same_queue k k1" and "ordered m k" and "m + 2 \<le> 2 ^ 31"
    and "\<And>m. ordered m k1 \<Longrightarrow> m + 2 \<le> 2 ^ 31 \<Longrightarrow> channel_served m k1 k'"
  shows "channel_served m k k'"
  using same_queue_abs [OF assms(1,2)] assms(3) assms(4) [of m] by (simp add: channel_served_def)

lemma channel_block_abs:
  assumes "block_and_restart pf frame reason k = Inr (frame', k')" and "ordered m k" and "m + 2 \<le> 2 ^ 31"
  shows "channel_served m k k'"
  using block_and_restart_abs [OF assms(1,2)] assms(3) ordered_mono [of m k' "m + 2"] by (simp add: channel_served_def rr_channel_call_def)

lemma channel_ret_abs:
  assumes "ret frame v k = Inr (frame', k')" and "ordered m k" and "m + 2 \<le> 2 ^ 31" and "\<not> rr_outranked (rr_abs k)"
  shows "channel_served m k k'"
proof -
  have "ordered m k'" "rr_abs k' = rr_abs k" using ret_abs [OF assms(1,2)] assms(3) by simp_all
  moreover have "rr_channel_call (rr_abs k) (rr_abs k)"
    using rr_wake_none [OF assms(4)] unfolding rr_channel_call_def
    by (intro disjI1 exI [of _ "[]"]) simp
  ultimately show ?thesis using ordered_mono [of m k' "m + 2"] by (simp add: channel_served_def)
qed

lemma sys_send_abs:
  assumes "sys_send pf frame ch ptr len flags k = Inr (frame', k')"
    and om: "ordered m k" "m + 2 \<le> 2 ^ 31" and no: "\<not> rr_outranked (rr_abs k)"
  shows "channel_served m k k'"
proof -
  have served: "bind_res (ret frame 0 (k\<lparr>channels := c\<rparr>)) (\<lambda>(_, k1). bind_res (wake_blocked_on reason k1)
      (\<lambda>(_, k2). preempt_if_outranked pf frame k2)) = Inr (frame', k') \<Longrightarrow>
      channel_served m k k'" for c reason
    by (rule channel_same_abs [OF same_queue_upd(1) om channel_op_abs])
  have wait: "block_and_restart pf frame reason k = Inr (frame', k') \<Longrightarrow>
      channel_served m k k'" for reason
    by (rule channel_block_abs [OF _ om])
  have ret: "ret frame v k = Inr (frame', k') \<Longrightarrow>
      channel_served m k k'" for v
    by (rule channel_ret_abs [OF _ om no])
  show ?thesis
    using assms(1) unfolding sys_send_def
    by (auto split: option.splits if_splits simp: bind_res_eq_Inr_iff [of "try_send _ _"] intro: ret served wait)
qed

lemma sys_receive_abs:
  assumes "sys_receive pf frame ch ptr cap flags k = Inr (frame', k')"
    and om: "ordered m k" "m + 2 \<le> 2 ^ 31" and no: "\<not> rr_outranked (rr_abs k)"
  shows "channel_served m k k'"
proof -
  have served: "bind_res (ret frame v (k\<lparr>channels := c, mem := mm\<rparr>)) (\<lambda>(_, k1). bind_res (wake_blocked_on reason k1)
      (\<lambda>(_, k2). preempt_if_outranked pf frame k2)) = Inr (frame', k') \<Longrightarrow>
      channel_served m k k'" for v c mm reason
    by (rule channel_same_abs [OF same_queue_upd(2) om channel_op_abs])
  have wait: "block_and_restart pf frame reason (k\<lparr>channels := c\<rparr>) = Inr (frame', k') \<Longrightarrow>
      channel_served m k k'" for reason c
    by (rule channel_same_abs [OF same_queue_upd(1) om channel_block_abs])
  have same: "rr_abs (k\<lparr>channels := c\<rparr>) = rr_abs k" for c
    using same_queue_abs [OF same_queue_upd(1) om(1)] om(2) by simp
  have ret: "ret frame v (k\<lparr>channels := c\<rparr>) = Inr (frame', k') \<Longrightarrow>
      channel_served m k k'" for v c
    by (rule channel_same_abs [OF same_queue_upd(1) om channel_ret_abs]) (simp_all add: same no)
  have ret': "ret frame v k = Inr (frame', k') \<Longrightarrow>
      channel_served m k k'" for v
    by (rule channel_ret_abs [OF _ om no])
  show ?thesis
    using assms(1) unfolding sys_receive_def Let_def
    by (auto split: option.splits if_splits simp: bind_res_eq_Inr_iff [of "try_receive _"] bind_res_eq_Inr_iff [of "message_bytes _"]
        intro: ret' ret served wait)
qed

definition rr_called :: "usize \<Rightarrow> round_robin \<Rightarrow> round_robin \<Rightarrow> bool" where
  "rr_called n s s' \<longleftrightarrow>
     (if n = SYS_YIELD then s' = rr_requeue s
      else if n = SYS_SLEEP then s' = rr_leave s \<and> rr_waiting s \<noteq> []
      else if n = SYS_SEND \<or> n = SYS_RECEIVE then rr_channel_call s s'
      else s' = s)"

lemma dispatch_abs:
  assumes "dispatch pf frame k = Inr (frame', k')" and f: "frames k frame = Some f" "length (regs f) = 32"
    and om: "ordered m k" "m + 2 \<le> 2 ^ 31" and no: "\<not> rr_outranked (rr_abs k)"
  shows "ordered (m + 2) k' \<and> rr_called (regs f ! REG_A7) (rr_abs k) (rr_abs k')"
proof -
  let ?a7 = "regs f ! REG_A7" and ?goal = "\<lambda>k'. ordered (m + 2) k' \<and> rr_called (regs f ! REG_A7) (rr_abs k) (rr_abs k')"
  have le: "m \<le> 2 ^ 31" "m + 1 \<le> 2 ^ 31" using om(2) by simp_all
  have mono: "ordered m k' \<Longrightarrow> ordered (m + 2) k'" "ordered (m + 1) k' \<Longrightarrow> ordered (m + 2) k'" for k'
    by (erule ordered_mono, simp)+
  have get: "frame_at frame k = Inr f" "\<And>r. r < 32 \<Longrightarrow> arr_get (regs f) r = Inr (regs f ! r)"
    using f by (simp_all add: frame_at_def)
  have yield: ?thesis if n: "?a7 = SYS_YIELD"
  proof -
    obtain f1 k1 where k1: "ret frame 0 k = Inr (f1, k1)" "yield_current pf frame k1 = Inr (frame', k')"
      using assms(1) n by (auto simp: dispatch_def get bind_res_eq_Inr_iff)
    from ret_abs [OF k1(1) om(1) le(1)] yield_abs [OF k1(2) _ le(2)] mono(2) n show ?thesis by (simp add: rr_called_def)
  qed
  have sleep: ?thesis if n: "?a7 = SYS_SLEEP"
  proof -
    obtain f1 k1 where k1: "ret frame 0 k = Inr (f1, k1)" "sleep_current pf frame (regs f ! REG_A0) k1 = Inr (frame', k')"
      using assms(1) n by (auto simp: dispatch_def get bind_res_eq_Inr_iff sys_numbers)
    from ret_abs [OF k1(1) om(1) le(1)] sleep_abs [OF k1(2) _ le(1)] mono(1) n show ?thesis
      by (auto simp: rr_called_def sys_numbers)
  qed
  have channel: ?thesis if n: "?a7 = SYS_SEND \<or> ?a7 = SYS_RECEIVE"
  proof -
    have "channel_served m k k'"
      using assms(1) n sys_send_abs [OF _ om no] sys_receive_abs [OF _ om no]
      by (auto simp: dispatch_def get sys_numbers)
    with n show ?thesis by (auto simp: channel_served_def rr_called_def sys_numbers)
  qed
  have other: ?thesis if n: "?a7 \<notin> {SYS_YIELD, SYS_SLEEP, SYS_SEND, SYS_RECEIVE}"
  proof -
    have log: "ret frame v (snd (sys_log pf ptr len k)) = Inr (frame', k') \<Longrightarrow> same_queue k k'" for v ptr len
      by (auto simp: sys_log_def same_queue_def dest!: ret_same_queue split: option.splits if_splits)
    have "same_queue k k'"
      using assms(1) n
      by (auto simp: dispatch_def get case_prod_beta split: if_splits intro: log ret_same_queue)
    from same_queue_abs [OF this om(1) le(1)] mono(1) n show ?thesis by (simp add: rr_called_def)
  qed
  show ?thesis using yield sleep channel other by blast
qed

lemma ecall_abs:
  assumes "trap_handler pf hw (frame_of (current_task_idx k) k) (saved f k) = Inr (frame, k')"
    and f: "is_ecall f" "length (regs f) = 32" and om: "ordered m k" "m + 2 \<le> 2 ^ 31" and no: "\<not> rr_outranked (rr_abs k)"
  shows "ordered (m + 2) k' \<and> rr_called (regs f ! REG_A7) (rr_abs k) (rr_abs k')"
proof -
  let ?p = "frame_of (current_task_idx k) k"
  obtain k1 k2 where k2: "upd_frame ?p (\<lambda>f. f\<lparr>mepc := mepc f + 4\<rparr>) (saved f k) = Inr k1"
    "note_syscall_mode (mcause f = 8) k1 = Inr k2" "dispatch pf ?p k2 = Inr (frame, k')"
    using f(1) assms(1) by (auto simp: trap_handler_def frame_at_def saved_def is_ecall_def Let_def bind_res_eq_Inr_iff)
  have k1: "same_queue k k1" "frames k1 ?p = Some (f\<lparr>mepc := mepc f + 4\<rparr>)"
    using k2(1) by (auto simp: upd_frame_def frame_at_def saved_def bind_res_eq_Inr_iff same_queue_def)
  have same: "same_queue k k2" "frames k2 ?p = Some (f\<lparr>mepc := mepc f + 4\<rparr>)"
    using k2(2) k1 note_syscall_mode_state [of "mcause f = 8" k1] by (auto simp: same_queue_def)
  have "ordered m k2" "rr_abs k2 = rr_abs k" using same_queue_abs [OF same(1) om(1)] om(2) by simp_all
  from dispatch_abs [OF k2(3) same(2) _ this(1) om(2)] f(2) no this(2) show ?thesis by simp
qed

text \<open>The timer tick.\<close>

lemma sched_tick_abs:
  assumes "sched_tick pf isr_entry instret k = Inr (r, k')" and o: "ordered m k" and m: "m + 1 \<le> 2 ^ 31"
  shows "ordered (m + 1) k' \<and> rr_abs k' =
    (let s = (rr_abs k)\<lparr>rr_used := ticks_since_switch k + 1\<rparr> in if rr_turn_over s then rr_requeue s else s)"
proof -
  let ?k1 = "k\<lparr>ticks_since_switch := ticks_since_switch k + 1\<rparr>" and ?s = "(rr_abs k)\<lparr>rr_used := ticks_since_switch k + 1\<rparr>"
  have fifo: "pq_fifo (ready_queue k)" using o by (simp add: ordered_def)
  obtain h where h: "(if pq_is_empty (ready_queue k) then Inr None
      else bind_res (pq_peek_max_priority (ready_queue k)) (\<lambda>p. Inr (Some p))) = Inr h"
    "\<forall>c n. should_preempt c h n \<longleftrightarrow> (\<exists>x \<in> set (pq_arrivals (ready_queue k)). c < snd x) \<or>
      TIME_QUANTUM_TICKS \<le> n \<and> (\<exists>x \<in> set (pq_arrivals (ready_queue k)). c \<le> snd x)"
    using head_decides [OF fifo] by blast
  have eff: "current_effective ?k1 = current_effective k"
    by (simp add: current_effective_def task_ptr_def)
  have over: "rr_turn_over ?s \<longleftrightarrow> should_preempt (current_effective k) h (ticks_since_switch k + 1)"
    using h(2) by (simp add: rr_turn_over_def rr_outranked_def rr_abs_def)
  have s: "ordered m ?k1" "rr_abs ?k1 = ?s" using o eff by (simp_all add: ordered_def rr_abs_def)
  show ?thesis
  proof (cases "rr_turn_over ?s")
    case True
    then obtain k2 f k3 where k: "requeue_current ?k1 = Inr k2" "dispatch_next pf k2 = Inr (f, k3)" "same_queue k3 k'"
      using assms(1) h(1)
      by (auto simp: over sched_tick_def Let_def eff bind_res_eq_Inr_iff same_queue_def split: if_splits)
    from requeue_dispatch_abs [of ?k1 pf f k3 m] k(1,2) s m
    have "ordered (m + 1) k3" "rr_abs k3 = rr_requeue ?s" by simp_all
    with same_queue_abs [OF k(3) _ m] True show ?thesis by (simp add: Let_def)
  next
    case False
    then have "k' = ?k1"
      using assms(1) h(1) by (auto simp: over sched_tick_def Let_def eff bind_res_eq_Inr_iff split: if_splits)
    with s False ordered_mono [OF s(1), of "m + 1"] show ?thesis by (simp add: Let_def)
  qed
qed

lemma timer_abs:
  assumes "on_timer_interrupt pf a mtime b frame k = Inr (frame', k')" and "task_count k \<le> MAX_TASKS"
    and o: "ordered m k" and m: "m + 17 \<le> 2 ^ 31"
  shows "ordered (m + 17) k' \<and> (\<exists>js. rr_abs k' = rr_tick js (rr_abs k))"
proof -
  define k1 where "k1 = save_current frame (k\<lparr>clint := snd (timer_isr mtime (clint k))\<rparr>)"
  obtain k2 r where k2: "wake_sleepers (fst (timer_isr mtime (clint k))) k1 = Inr k2" "sched_tick pf a b k2 = Inr (r, k')"
    using assms(1) by (auto simp: on_timer_interrupt_def k1_def case_prod_beta Let_def bind_res_eq_Inr_iff)
  have "same_queue (k\<lparr>clint := snd (timer_isr mtime (clint k))\<rparr>) k1" by (simp add: k1_def)
  then have "same_queue k k1" by (simp add: same_queue_def)
  from same_queue_abs [OF this o] m have k1: "ordered m k1" "rr_abs k1 = rr_abs k" by simp_all
  have "task_count k1 = task_count k" by (simp add: k1_def save_current_def upd_task_def split: option.split)
  then obtain js where js: "length js \<le> MAX_TASKS" "arrives js k1 k2"
    using wake_sleepers_enqueued [OF k2(1)] assms(2) by (auto simp: arrives_enqueued)
  have k2': "ordered (m + 16) k2" "rr_abs k2 = rr_join js (rr_abs k)"
    using arrives_abs [OF js(2) k1(1)] js(1) m k1(2) ordered_mono [of "m + length js" k2 "m + 16"] by simp_all
  moreover have "ticks_since_switch k2 = rr_used (rr_abs k)"
    using js(2) k1(2) by (simp add: arrives_def rr_abs_def)
  ultimately have "rr_abs k' = rr_tick js (rr_abs k)" "ordered (m + 16 + 1) k'"
    using sched_tick_abs [OF k2(2) k2'(1)] m by (simp_all add: rr_tick_def Let_def rr_join_def)
  then show ?thesis by (auto simp: numeral_eq_Suc)
qed

section \<open>No task is there twice\<close>

lemma ready_bag_list:
  "ready_bag reg = mset (map (\<lambda>i. (of_nat i, effective_priority (the (reg ! i))))
     (filter (\<lambda>i. \<exists>d. reg ! i = Some d \<and> td_state d = Ready) [0..<MAX_TASKS]))"
proof -
  have "(\<Sum>i < n. slot_bag i (reg ! i)) = mset (map (\<lambda>i. (of_nat i, effective_priority (the (reg ! i))))
      (filter (\<lambda>i. \<exists>d. reg ! i = Some d \<and> td_state d = Ready) [0..<n]))" for n
    by (induction n) (auto simp: slot_bag_def split: option.split)
  then show ?thesis by (simp only: ready_bag_def)
qed

lemma live_new:
  assumes "live pf idle k" and "ordered m k"
  shows "rr_new [] (rr_abs k)"
proof -
  let ?ready = "filter (\<lambda>i. \<exists>d. registry k ! i = Some d \<and> td_state d = Ready) [0..<MAX_TASKS]"
  let ?ws = "pq_arrivals (ready_queue k)"
  have inv: "core_inv k" "running k" using assms(1) by (auto simp: kernel_invs sched_inv_def)
  have "mset ?ws = pq_bag (ready_queue k)"
    using assms(2) by (auto simp: ordered_def pq_arrivals_rep elim!: pq_fifo_obtain)
  then have ms: "mset (map fst ?ws) = mset (map of_nat ?ready :: u8 list)"
    using inv(1) by (simp add: core_inv_def ready_bag_list comp_def image_mset.compositionality)
  have "inj_on (of_nat :: nat \<Rightarrow> u8) {..<MAX_TASKS}"
    by (rule inj_on_inverseI [of _ unat]) (simp add: unat_of_nat)
  then have "distinct (map of_nat ?ready :: u8 list)"
    by (auto simp: distinct_map intro: inj_on_subset)
  with mset_eq_imp_distinct_iff [OF ms] have "distinct (map fst ?ws)" by blast
  moreover have "current_task_idx k \<notin> set (map fst ?ws)"
  proof
    assume "current_task_idx k \<in> set (map fst ?ws)"
    then have "current_task_idx k \<in> set (map of_nat ?ready)" using mset_eq_setD [OF ms] by simp
    then show False using inv(2) by (auto simp: running_def task_ptr_of_nat)
  qed
  ultimately show ?thesis by (simp add: rr_new_def rr_abs_def)
qed

lemma fifo_best_mem: "ps \<noteq> [] \<Longrightarrow> fifo_best ps \<in> set ps"
  using fifo_best_split by (metis in_set_conv_decomp)

lemma rr_requeue_tasks:
  "mset (rr_running (rr_requeue s) # rr_waiting (rr_requeue s)) = mset (rr_running s # rr_waiting s)"
  using fifo_best_mem [of "rr_waiting s @ [rr_running s]"] by (simp add: rr_requeue_def rr_pick_def)

lemma rr_tasks:
  "mset (rr_running (rr_tick js s) # rr_waiting (rr_tick js s)) = mset (rr_running s # rr_waiting s @ js)"
  "mset (rr_running (rr_wake js s) # rr_waiting (rr_wake js s)) = mset (rr_running s # rr_waiting s @ js)"
  unfolding rr_tick_def rr_wake_def Let_def
  by (simp_all only: rr_requeue_tasks split: if_split) (simp_all add: rr_join_def)

lemma rr_new_before:
  assumes "rr_new [] s'" and "mset (rr_running s' # rr_waiting s') = mset (rr_running s # rr_waiting s @ js)"
  shows "rr_new js s"
proof -
  from assms(2) have "mset (map fst (rr_running s' # rr_waiting s')) = mset (map fst (rr_running s # rr_waiting s @ js))"
    by (simp only: mset_map)
  from mset_eq_imp_distinct_iff [OF this] assms(1) show ?thesis by (simp add: rr_new_def)
qed

section \<open>The kernel implements it\<close>

text \<open>The queue is in arrival order and stays comparable for \<open>n\<close> more steps.\<close>

definition rr_good :: "platform \<Rightarrow> nat \<Rightarrow> nat \<Rightarrow> kernel \<Rightarrow> bool" where
  "rr_good pf idle n k \<longleftrightarrow> live pf idle k \<and> (\<exists>m. ordered m k \<and> m + 17 * n \<le> 2 ^ 31)"

lemma kevent_rr:
  assumes step: "kevent pf idle e k k'" and live: "live pf idle k" "live pf idle k'"
    and o: "ordered m k" and m: "m + 17 \<le> 2 ^ 31"
  shows "ordered (m + 17) k' \<and> rr_step e (rr_abs k) (rr_abs k')"
  using step
proof (cases rule: kevent.cases)
  case (store mm)
  have "same_queue k k'" by (simp add: store same_queue_def)
  from same_queue_abs [OF this o] m ordered_mono [of m k' "m + 17"] show ?thesis
    by (simp add: store rr_step.store)
next
  case (ecall f hw frame)
  from ecall_abs [OF ecall(5,2,3) o _ not_outranked [OF live(1) o]] m
  have c: "ordered (m + 2) k'" "rr_called (regs f ! REG_A7) (rr_abs k) (rr_abs k')" by simp_all
  have new: "rr_new js (rr_abs k)" if "rr_abs k' = rr_wake js (rr_abs k)" for js
    using rr_new_before [OF live_new [OF live(2) c(1)]] rr_tasks(2) [of js "rr_abs k"] that by simp
  have woken: "rr_step (Call n) (rr_abs k) (rr_wake js (rr_abs k))"
    if "length js \<le> Suc 0" "rr_abs k' = rr_wake js (rr_abs k)" "n = SYS_SEND \<or> n = SYS_RECEIVE" for n js
    using rr_step.channel [OF that(3) _ new [OF that(2)]] that(1) by simp
  from c(2) have "rr_step (Call (regs f ! REG_A7)) (rr_abs k) (rr_abs k')"
    by (auto simp: rr_called_def rr_channel_call_def split: if_splits intro: rr_step.intros woken)
  with c(1) ordered_mono [of "m + 2" k' "m + 17"] ecall(1) show ?thesis by simp
next
  case (timer f hw frame)
  have tc: "task_count (saved f k) \<le> MAX_TASKS"
    using live(1) by (auto simp: kernel_invs saved_def dest!: sched_inv_wf(1)) (simp add: table_wf_def)
  have "same_queue k (saved f k)" by (simp add: same_queue_def saved_def)
  from same_queue_abs [OF this o] m have s: "ordered m (saved f k)" "rr_abs (saved f k) = rr_abs k" by simp_all
  have "on_timer_interrupt pf (hw_entry hw) (hw_mtime hw) (hw_exit hw) (frame_of (current_task_idx k) k) (saved f k) =
      Inr (frame, k')"
    using timer(2,4) by (simp add: trap_handler_def frame_at_def saved_def is_timer_def Let_def)
  from timer_abs [OF this tc s(1) m] s(2) obtain js where
    t: "ordered (m + 17) k'" "rr_abs k' = rr_tick js (rr_abs k)" by auto
  have "rr_new js (rr_abs k)"
    using rr_new_before [OF live_new [OF live(2) t(1)]] rr_tasks(1) [of js "rr_abs k"] t(2) by simp
  with t rr_step.tick timer(1) show ?thesis by simp
qed

interpretation kernel_rr: budgeted_simulation "kevent pf idle" rr_step rr_abs "rr_good pf idle" for pf idle
proof
  fix n k e k'
  assume g: "rr_good pf idle (Suc n) k" and step: "kevent pf idle e k k'"
  then obtain m where m: "live pf idle k" "ordered m k" "m + 17 * Suc n \<le> 2 ^ 31"
    by (auto simp: rr_good_def)
  have live: "live pf idle k'" using kstep_live [OF _ m(1)] step by (auto simp: kstep_iff_kevent)
  from kevent_rr [OF step m(1) live m(2)] m(3) live
  show "rr_good pf idle n k' \<and> rr_step e (rr_abs k) (rr_abs k')"
    by (auto simp: rr_good_def intro!: exI [of _ "m + 17"])
qed

lemma boot_good:
  assumes "clean_reset pf r" and "kernel_main pf env (initial_kernel m r t fs) = Inr (frame, k)" and "16 + 17 * n \<le> 2 ^ 31"
  shows "rr_good pf (length (boot_tasks env) - 1) n k"
proof -
  have "boot_done pf env m frame k"
    using kernel_main_boots [OF assms(1), of env m t fs] assms(2) by (auto split: if_splits)
  note live = boot_done_live(1) [OF this]
  then have inv: "core_inv k" "sched_inv k" by (auto simp: kernel_invs sched_inv_def)
  have fifo: "pq_fifo (ready_queue k)" "ages_within 16 (ready_queue k)"
    using kernel_main_fifo [OF assms(2)] by simp_all
  obtain d where "task_ptr (current_task_idx k) k = Some d" using current_slot [OF inv(2)] by blast
  then have "prio_of k (current_task_idx k) = Some (current_effective k)"
    by (simp add: prio_of_def current_effective_def)
  with fifo arrival_prio [OF inv(1) fifo(1)] have "ordered 16 k" by (simp add: ordered_def)
  with live assms(3) show ?thesis by (auto simp: rr_good_def)
qed

text \<open>
  C9: the kernel implements the abstract scheduler. From the state a boot leaves, every run of the
  machine of \<open>n\<close> stores, system calls and timer interrupts in any order, \<open>16 + 17 n \<le> 2^31\<close>, is, event by
  event, a run of the abstract scheduler on the running task with its effective priority, the waiting
  tasks in order of arrival and the ticks of the turn: a tick counts, and ends the turn exactly when a
  more important task waits or the quantum is used up and one of equal priority waits; a yield
  goes behind the equals; a sleep or a blocked channel call takes the task out of the list; another channel call
  wakes at most one task and gives way to it exactly when it is more important; no other event switches.
  The bound keeps the sequence numbers of the queue comparable, for more than 126 million events.
\<close>

theorem scheduler_refines_round_robin:
  assumes "clean_reset pf r" and "kernel_main pf env (initial_kernel m r t fs) = Inr (frame, k)"
    and "trace (kevent pf (length (boot_tasks env) - 1)) es k k'" and "16 + 17 * length es \<le> 2 ^ 31"
  shows "trace rr_step es (rr_abs k) (rr_abs k')"
  using kernel_rr.run_simulates [OF assms(3)] boot_good [OF assms(1,2,4)] by simp

text \<open>Witness: the first timer interrupt after a boot of the pipeline.\<close>

theorem scheduler_refines_round_robin_witness:
  "\<exists>k'. trace rr_step [Tick] (rr_abs booted) (rr_abs k')"
proof -
  from demo_timer [OF booted_live kept_refl] obtain f hw frame k' where
    "is_timer f" "length (regs f) = 32"
    "trap_handler demo_platform hw (frame_of (current_task_idx booted) booted) (saved f booted) = Inr (frame, k')" by blast
  then have "trace (kevent demo_platform (length (boot_tasks demo_env) - 1)) [Tick] booted k'"
    by (blast intro: trace.intros kevent.timer)
  from scheduler_refines_round_robin [OF demo_clean demo_boots(1) [unfolded demo_reset_def] this] show ?thesis by auto
qed

end
