(* ===== verification/Kani_Proofs.thy ===== *)
theory Kani_Proofs
  imports Contention_Graph Capability_Allocator Priority_Queue Ipc_Channel
begin

text \<open>
  The bounded model-checking harnesses of \<^verbatim>\<open>kernel/src/kani_proofs.rs\<close>, each as a function of its
  symbolic values (\<open>kani::any()\<close>). The tool explores every path up to an unwind bound; here each
  harness is proved for all values of its inputs, from the contracts of the components it drives.
\<close>

section \<open>Assumptions and overflow\<close>

definition kani_assume :: "bool \<Rightarrow> verdict \<Rightarrow> verdict" where
  "kani_assume c rest = (if c then rest else Discarded)"

lemmas kani_simps = kani_assume_def asserting_def

text \<open>Overflow checks are on under the model checker.\<close>

definition add_u8 :: "u8 \<Rightarrow> u8 \<Rightarrow> (u8 \<Rightarrow> verdict) \<Rightarrow> verdict" where
  "add_u8 a b rest = (if unat a + unat b < 256 then rest (a + b) else Panicked)"

definition sub_u8 :: "u8 \<Rightarrow> u8 \<Rightarrow> (u8 \<Rightarrow> verdict) \<Rightarrow> verdict" where
  "sub_u8 a b rest = (if b \<le> a then rest (a - b) else Panicked)"

section \<open>The harnesses\<close>

definition arbitrary_task :: "u8 \<Rightarrow> u8 \<times> u32 \<times> u32 \<times> u32 \<Rightarrow> task_descriptor" where
  "arbitrary_task i = (\<lambda>(priority, exclusive, shared, required).
     with_capabilities i priority (0x20000000 + ucast i * 0x1000) 256 (0x20001000 + ucast i * 0x1000)
       (0x20002000 + ucast i * 0x1000) exclusive shared required)"

definition verify_ccg_build_no_oob :: "nat \<Rightarrow> (nat \<Rightarrow> u8 \<times> u32 \<times> u32 \<times> u32) \<Rightarrow> verdict" where
  "verify_ccg_build_no_oob n tasks =
     kani_assume (n \<le> 4)
       (calling (fold_res (\<lambda>i reg. arr_set reg i (Some (arbitrary_task (of_nat i) (tasks i)))) [0..<n]
                     (replicate MAX_TASKS None)) (\<lambda>reg.
        calling (ccg_build reg) (\<lambda>ccg.
          asserting (ccg_task_count ccg = n)
            (calling (fold_res (\<lambda>i _. fold_res (\<lambda>j _.
                  if i < MAX_TASKS \<and> j < MAX_TASKS
                  then bind_res (arr_get (ccg_edges ccg) i) (\<lambda>row. bind_res (arr_get row j) (\<lambda>_. Inr ()))
                  else Inr ()) [0..<MAX_TASKS] ()) [0..<MAX_TASKS] ()) (\<lambda>_. Completed)))))"

definition verify_ccg_edge_iff_contention ::
  "u8 \<times> u32 \<times> u32 \<times> u32 \<Rightarrow> u8 \<times> u32 \<times> u32 \<times> u32 \<Rightarrow> verdict" where
  "verify_ccg_edge_iff_contention a b =
     (let l = arbitrary_task 0 a; h = arbitrary_task 1 b in
      calling (arr_set (replicate MAX_TASKS None) 0 (Some l)) (\<lambda>reg0.
      calling (arr_set reg0 1 (Some h)) (\<lambda>reg.
      calling (ccg_build reg) (\<lambda>ccg.
        let contention = (td_exclusive_cap_mask l AND td_required_cap_mask h \<noteq> 0);
            contention_rev = (td_exclusive_cap_mask h AND td_required_cap_mask l \<noteq> 0)
        in asserting (has_edge ccg 0 1 = contention)
             (asserting (has_edge ccg 1 0 = contention_rev) Completed)))))"

definition count_ones :: "u32 \<Rightarrow> nat" where
  "count_ones w = length (filter (bit w) [0..<32])"

text \<open>The registry of the two detector harnesses; they scan its populated slots.\<close>

definition two_exclusive :: "u32 \<Rightarrow> u32 \<Rightarrow> task_descriptor option list" where
  "two_exclusive a b =
     (replicate MAX_TASKS None)
       [0 := Some (with_capabilities 0 1 0x20000000 256 0x20001000 0x20002000 a 0 0),
        1 := Some (with_capabilities 1 2 0x20001000 256 0x20002000 0x20003000 b 0 0)]"

definition verify_conflict_detector_catches_double_exclusive :: "u32 \<Rightarrow> verdict" where
  "verify_conflict_detector_catches_double_exclusive shared_bit =
     kani_assume (count_ones shared_bit = 1)
       (calling (check_capability_conflicts (take 2 (two_exclusive shared_bit shared_bit))) (\<lambda>_. Completed))"

definition verify_conflict_detector_no_false_positive :: "u32 \<Rightarrow> u32 \<Rightarrow> verdict" where
  "verify_conflict_detector_no_false_positive cap_a cap_b =
     kani_assume (cap_a < 16) (kani_assume (cap_b < 16) (kani_assume (cap_a AND cap_b = 0)
       (calling (check_capability_conflicts (take 2 (two_exclusive cap_a cap_b))) (\<lambda>_. Completed))))"

definition verify_priority_queue_pop_is_max :: "u8 \<Rightarrow> u8 \<Rightarrow> u8 \<Rightarrow> u8 \<Rightarrow> verdict" where
  "verify_priority_queue_pop_is_max p0 p1 p2 p3 =
     calling (pq_insert (pq_new MAX_TASKS) 0 p0) (\<lambda>q0.
     calling (pq_insert q0 1 p1) (\<lambda>q1.
     calling (pq_insert q1 2 p2) (\<lambda>q2.
     calling (pq_insert q2 3 p3) (\<lambda>q3.
       let expected_max = max (max (max p0 p1) p2) p3 in
       calling (pq_peek_max_priority q3) (\<lambda>p. asserting (p = expected_max) Completed)))))"

definition verify_priority_queue_sorted_pop_order :: "u8 \<Rightarrow> u8 \<Rightarrow> u8 \<Rightarrow> verdict" where
  "verify_priority_queue_sorted_pop_order p0 p1 p2 =
     calling (pq_insert (pq_new MAX_TASKS) 0 p0) (\<lambda>q0.
     calling (pq_insert q0 1 p1) (\<lambda>q1.
     calling (pq_insert q1 2 p2) (\<lambda>q2.
     calling (pq_peek_max_priority q2) (\<lambda>prev.
     calling (pq_pop_max q2) (\<lambda>(_, q3).
       let last = (\<lambda>prev q. if \<not> pq_is_empty q
                  then calling (pq_peek_max_priority q) (\<lambda>cur. asserting (cur \<le> prev) Completed)
                  else Completed)
       in if \<not> pq_is_empty q3
          then calling (pq_peek_max_priority q3) (\<lambda>cur.
               asserting (cur \<le> prev) (calling (pq_pop_max q3) (\<lambda>(_, q4). last cur q4)))
          else last prev q3)))))"

definition verify_priority_queue_insert_pop_roundtrip :: "u8 \<Rightarrow> u8 \<Rightarrow> verdict" where
  "verify_priority_queue_insert_pop_roundtrip tid priority =
     calling (pq_insert (pq_new MAX_TASKS) tid priority) (\<lambda>q.
     calling (pq_pop_max q) (\<lambda>(popped, q').
       asserting (popped = Some tid) (asserting (pq_is_empty q') Completed)))"

definition CHANNEL_CAP :: nat where "CHANNEL_CAP = 3"

definition CHANNEL_OPS :: nat where "CHANNEL_OPS = 7"

text \<open>Each iteration draws whether to send and, if so, the value.\<close>

fun capacity_loop :: "(bool \<times> u8) list \<Rightarrow> u8 channel \<Rightarrow> verdict" where
  "capacity_loop [] ch = Completed"
| "capacity_loop ((send, v) # draws) ch =
     (let before = ch_len ch;
          after = (\<lambda>ch. asserting (ch_len ch \<le> CHANNEL_CAP)
            (asserting (ch_is_full ch = (ch_len ch = CHANNEL_CAP))
            (asserting (ch_is_empty ch = (ch_len ch = 0)) (capacity_loop draws ch))))
      in if send
         then calling (try_send ch v) (\<lambda>(r, ch').
           (case r of
              Sent \<Rightarrow> asserting (before < CHANNEL_CAP) (asserting (ch_len ch' = before + 1) (after ch'))
            | ChannelFull back \<Rightarrow>
                asserting (before = CHANNEL_CAP) (asserting (back = v)
                  (asserting (ch_len ch' = before) (after ch')))))
         else calling (try_receive ch) (\<lambda>(r, ch').
           (case r of
              Some _ \<Rightarrow> asserting (before > 0 \<and> ch_len ch' = before - 1) (after ch')
            | None \<Rightarrow> asserting (before = 0 \<and> ch_len ch' = 0) (after ch'))))"

definition verify_channel_capacity_respected :: "(nat \<Rightarrow> bool \<times> u8) \<Rightarrow> verdict" where
  "verify_channel_capacity_respected draw =
     capacity_loop (map draw [0..<CHANNEL_OPS]) (channel_new CHANNEL_CAP)"

fun fifo_loop :: "bool list \<Rightarrow> u8 \<Rightarrow> u8 \<Rightarrow> u8 channel \<Rightarrow> verdict" where
  "fifo_loop [] next_send next_recv ch = Completed"
| "fifo_loop (send # draws) next_send next_recv ch =
     (let after = (\<lambda>next_send next_recv ch. sub_u8 next_send next_recv (\<lambda>d.
            asserting (unat d = ch_len ch) (fifo_loop draws next_send next_recv ch)))
      in if send
         then calling (try_send ch next_send) (\<lambda>(r, ch').
           (case r of
              Sent \<Rightarrow> add_u8 next_send 1 (\<lambda>next_send'. after next_send' next_recv ch')
            | ChannelFull _ \<Rightarrow> after next_send next_recv ch'))
         else calling (try_receive ch) (\<lambda>(r, ch').
           (case r of
              Some v \<Rightarrow> asserting (v = next_recv)
                (add_u8 next_recv 1 (\<lambda>next_recv'. after next_send next_recv' ch'))
            | None \<Rightarrow> after next_send next_recv ch')))"

definition verify_channel_fifo_no_loss_no_duplication :: "(nat \<Rightarrow> bool) \<Rightarrow> verdict" where
  "verify_channel_fifo_no_loss_no_duplication draw =
     fifo_loop (map draw [0..<CHANNEL_OPS]) 0 0 (channel_new CHANNEL_CAP)"

definition verify_channel_detector_catches_double_sender :: "nat \<Rightarrow> verdict" where
  "verify_channel_detector_catches_double_sender ch =
     kani_assume (ch < MAX_CHANNELS)
       (let a = with_channels (push_bit ch 1) 0 (task_new 0 1 0 16 0 0);
            b = with_channels (push_bit ch 1) 0 (task_new 1 1 0 16 0 0)
        in calling (check_channel_conflicts [Some a, Some b]) (\<lambda>_. Completed))"

section \<open>The contention graph\<close>

lemma fold_res_unit: "(\<And>x. x \<in> set xs \<Longrightarrow> f x () = Inr ()) \<Longrightarrow> fold_res f xs () = Inr ()"
  by (induction xs) auto

lemma populate_registry:
  "n \<le> MAX_TASKS \<Longrightarrow>
   fold_res (\<lambda>i reg. arr_set reg i (Some (f i))) [0..<n] (replicate MAX_TASKS None) =
   Inr (map (\<lambda>i. if i < n then Some (f i) else None) [0..<MAX_TASKS])"
proof (induction n)
  case 0
  then show ?case by (simp add: map_replicate_const)
next
  case (Suc n)
  then have "fold_res (\<lambda>i reg. arr_set reg i (Some (f i))) [0..<n] (replicate MAX_TASKS None) =
      Inr (map (\<lambda>i. if i < n then Some (f i) else None) [0..<MAX_TASKS])" by simp
  moreover have "(map (\<lambda>i. if i < n then Some (f i) else None) [0..<MAX_TASKS])[n := Some (f n)] =
      map (\<lambda>i. if i < Suc n then Some (f i) else None) [0..<MAX_TASKS]"
    using Suc.prems by (intro nth_equalityI) (auto simp: nth_list_update)
  ultimately show ?case using Suc.prems by (simp add: fold_res_append)
qed

lemma filter_upt_less: "n \<le> m \<Longrightarrow> length (filter (\<lambda>i. i < n) [0..<m]) = n"
proof -
  assume "n \<le> m"
  then have "[0..<m] = [0..<n] @ [n..<m]" using upt_add_eq_append [of 0 n "m - n"] by simp
  then show ?thesis by simp
qed

lemma verify_ccg_build_no_oob_holds: "verify_ccg_build_no_oob n tasks \<noteq> Panicked"
proof (cases "n \<le> 4")
  case True
  define reg where "reg = map (\<lambda>i. if i < n then Some (arbitrary_task (of_nat i) (tasks i)) else None) [0..<MAX_TASKS]"
  have len: "length reg = MAX_TASKS" by (simp add: reg_def)
  have pop: "fold_res (\<lambda>i reg. arr_set reg i (Some (arbitrary_task (of_nat i) (tasks i)))) [0..<n]
      (replicate MAX_TASKS None) = Inr reg"
    unfolding reg_def using True by (intro populate_registry) simp
  have "filter (\<lambda>i. reg ! i \<noteq> None) [0..<MAX_TASKS] = filter (\<lambda>i. i < n) [0..<MAX_TASKS]"
    by (rule filter_cong) (auto simp: reg_def)
  then have count: "ccg_task_count (ccg_of reg) = n"
    using filter_upt_less [of n MAX_TASKS] True by (simp add: ccg_of_def slots_of_def len Let_def)
  have sq: "length (ccg_edges (ccg_of reg)) = MAX_TASKS"
    "\<And>i. i < MAX_TASKS \<Longrightarrow> length (ccg_edges (ccg_of reg) ! i) = MAX_TASKS"
    using ccg_of_edges [OF len] square_nth by (auto simp: square_def)
  have "fold_res (\<lambda>i _. fold_res (\<lambda>j _.
      if i < MAX_TASKS \<and> j < MAX_TASKS
      then bind_res (arr_get (ccg_edges (ccg_of reg)) i) (\<lambda>row. bind_res (arr_get row j) (\<lambda>_. Inr ()))
      else Inr ()) [0..<MAX_TASKS] ()) [0..<MAX_TASKS] () = Inr ()"
    by (intro fold_res_unit) (auto simp: sq)
  with True pop count show ?thesis
    by (simp only: verify_ccg_build_no_oob_def kani_simps calling_simps ccg_build_total [OF len] if_True) simp
qed (simp add: verify_ccg_build_no_oob_def kani_simps)

lemma verify_ccg_edge_iff_contention_holds: "verify_ccg_edge_iff_contention a b = Completed"
proof -
  let ?reg = "(replicate MAX_TASKS None)[0 := Some (arbitrary_task 0 a), 1 := Some (arbitrary_task 1 b)]"
  have "length ?reg = MAX_TASKS" by simp
  note build = ccg_build_total [OF this] ccg_of_has_edge [OF this]
  then show ?thesis
    by (simp add: verify_ccg_edge_iff_contention_def kani_simps Let_def contends_def)
qed

section \<open>The detectors\<close>

lemma occupied_two: "occupied (take 2 (two_exclusive a b)) =
    [with_capabilities 0 1 0x20000000 256 0x20001000 0x20002000 a 0 0,
     with_capabilities 1 2 0x20001000 256 0x20002000 0x20003000 b 0 0]"
  by (simp add: two_exclusive_def numeral_eq_Suc)

lemma two_exclusive_check:
  "check_capability_conflicts (take 2 (two_exclusive a b)) = Inr () \<longleftrightarrow> a AND b = 0"
  by (simp add: capability_check_ok_iff occupied_two with_capabilities_def)

lemma verify_conflict_detector_catches_double_exclusive_holds:
  "verify_conflict_detector_catches_double_exclusive m \<noteq> Completed"
proof (cases "count_ones m = 1")
  case True
  then have "m \<noteq> 0" by (auto simp: count_ones_def)
  then have "check_capability_conflicts (take 2 (two_exclusive m m)) \<noteq> Inr ()" by (simp add: two_exclusive_check)
  then show ?thesis
    by (cases "check_capability_conflicts (take 2 (two_exclusive m m))")
      (simp_all add: verify_conflict_detector_catches_double_exclusive_def kani_simps)
qed (simp add: verify_conflict_detector_catches_double_exclusive_def kani_simps)

lemma verify_conflict_detector_no_false_positive_holds:
  "verify_conflict_detector_no_false_positive a b \<noteq> Panicked"
  using two_exclusive_check [of a b] by (auto simp: verify_conflict_detector_no_false_positive_def kani_simps)

lemma verify_channel_detector_catches_double_sender_holds:
  "verify_channel_detector_catches_double_sender ch \<noteq> Completed"
proof (cases "ch < MAX_CHANNELS")
  case True
  let ?a = "with_channels (push_bit ch 1) 0 (task_new 0 1 0 16 0 0)"
    and ?b = "with_channels (push_bit ch 1) 0 (task_new 1 1 0 16 0 0)"
  have "push_bit ch (1 :: u32) \<noteq> 0" using True by (simp add: push_bit_eq_0_iff)
  then have "check_channel_conflicts [Some ?a, Some ?b] \<noteq> Inr ()"
    by (simp add: channel_check_ok_iff with_channels_def task_new_def)
  then show ?thesis
    by (cases "check_channel_conflicts [Some ?a, Some ?b]")
      (simp_all add: verify_channel_detector_catches_double_sender_def kani_simps Let_def)
qed (simp add: verify_channel_detector_catches_double_sender_def kani_simps)

section \<open>The ready queue\<close>

lemma pq_is_empty_bag: "pq_wf q \<Longrightarrow> pq_is_empty q \<longleftrightarrow> pq_bag q = {#}"
  by (auto simp: pq_is_empty_def elim!: pq_wf_obtain)

lemma pq_insert_room:
  assumes "pq_wf q" and "pq_capacity q = MAX_TASKS" and "size (pq_bag q) < MAX_TASKS"
  obtains q' where "pq_insert q t p = Inr q'" "pq_wf q'" "pq_capacity q' = MAX_TASKS" "pq_bag q' = add_mset (t, p) (pq_bag q)"
  using ready_queue.put_room [OF assms(1), of t p] assms(2,3) by auto

lemma pq_fresh: "pq_wf (pq_new MAX_TASKS)" "pq_capacity (pq_new MAX_TASKS) = MAX_TASKS" "pq_bag (pq_new MAX_TASKS) = {#}"
  by (simp_all add: pq_new_rep heap_ordered_def)

lemma three_inserts:
  obtains q0 q1 q2 where "pq_insert (pq_new MAX_TASKS) 0 p0 = Inr q0" "pq_insert q0 1 p1 = Inr q1" "pq_insert q1 2 p2 = Inr q2"
    "pq_wf q2" "pq_capacity q2 = MAX_TASKS" "pq_bag q2 = {#(2, p2), (1, p1), (0, p0)#}"
proof -
  obtain q0 where q0: "pq_insert (pq_new MAX_TASKS) 0 p0 = Inr q0" "pq_wf q0" "pq_capacity q0 = MAX_TASKS" "pq_bag q0 = {#(0, p0)#}"
    using pq_insert_room [OF pq_fresh(1,2), of 0 p0] by (auto simp: pq_fresh)
  obtain q1 where q1: "pq_insert q0 1 p1 = Inr q1" "pq_wf q1" "pq_capacity q1 = MAX_TASKS" "pq_bag q1 = {#(1, p1), (0, p0)#}"
    using pq_insert_room [OF q0(2,3), of 1 p1] by (auto simp: q0(4))
  obtain q2 where "pq_insert q1 2 p2 = Inr q2" "pq_wf q2" "pq_capacity q2 = MAX_TASKS" "pq_bag q2 = {#(2, p2), (1, p1), (0, p0)#}"
    using pq_insert_room [OF q1(2,3), of 2 p2] by (auto simp: q1(4))
  with q0 q1 show thesis using that by blast
qed

lemma verify_priority_queue_pop_is_max_holds: "verify_priority_queue_pop_is_max p0 p1 p2 p3 = Completed"
proof -
  obtain q0 q1 q2 where q: "pq_insert (pq_new MAX_TASKS) 0 p0 = Inr q0" "pq_insert q0 1 p1 = Inr q1" "pq_insert q1 2 p2 = Inr q2"
    "pq_wf q2" "pq_capacity q2 = MAX_TASKS" "pq_bag q2 = {#(2, p2), (1, p1), (0, p0)#}" by (rule three_inserts)
  obtain q3 where q3: "pq_insert q2 3 p3 = Inr q3" "pq_wf q3" "pq_bag q3 = {#(3, p3), (2, p2), (1, p1), (0, p0)#}"
    using pq_insert_room [OF q(4,5), of 3 p3] by (auto simp: q(6))
  obtain p where p: "pq_peek_max_priority q3 = Inr p" "p \<in> {p0, p1, p2, p3}" "\<forall>r \<in> {p0, p1, p2, p3}. r \<le> p"
    using ready_queue.peek_max [OF q3(2)] by (auto simp: q3(3))
  then have "p = max (max (max p0 p1) p2) p3" by (auto simp: max_def)
  with q(1-3) q3(1) p(1) show ?thesis by (simp add: verify_priority_queue_pop_is_max_def kani_simps)
qed

text \<open>Popping leaves a queue whose next priority is no higher.\<close>

lemma pop_then_peek:
  assumes "pq_wf q" and "pq_bag q \<noteq> {#}"
  shows "\<exists>p t q'. pq_peek_max_priority q = Inr p \<and> pq_pop_max q = Inr (Some t, q') \<and> pq_wf q' \<and>
    (\<not> pq_is_empty q' \<longrightarrow> (\<exists>p'. pq_peek_max_priority q' = Inr p' \<and> p' \<le> p))"
proof -
  obtain p where p: "pq_peek_max_priority q = Inr p" "\<forall>(u, r) \<in># pq_bag q. r \<le> p"
    using ready_queue.peek_max [OF assms] by auto
  obtain t r q' where q': "pq_pop_max q = Inr (Some t, q')" "pq_wf q'" "pq_bag q = add_mset (t, r) (pq_bag q')"
    using ready_queue.pop_max [OF assms] by blast
  have "\<exists>p'. pq_peek_max_priority q' = Inr p' \<and> p' \<le> p" if "\<not> pq_is_empty q'"
    using ready_queue.peek_max [OF q'(2)] that p(2) q'(2,3) by (auto simp: pq_is_empty_bag)
  with p(1) q'(1,2) show ?thesis by auto
qed

lemma verify_priority_queue_sorted_pop_order_holds: "verify_priority_queue_sorted_pop_order p0 p1 p2 = Completed"
proof -
  obtain q0 q1 q2 where q: "pq_insert (pq_new MAX_TASKS) 0 p0 = Inr q0" "pq_insert q0 1 p1 = Inr q1" "pq_insert q1 2 p2 = Inr q2"
    "pq_wf q2" "pq_bag q2 = {#(2, p2), (1, p1), (0, p0)#}" by (rule three_inserts)
  then have "pq_bag q2 \<noteq> {#}" by simp
  from pop_then_peek [OF q(4) this] obtain prev t q3 where
    a: "pq_peek_max_priority q2 = Inr prev" "pq_pop_max q2 = Inr (Some t, q3)" "pq_wf q3"
      "\<not> pq_is_empty q3 \<longrightarrow> (\<exists>p'. pq_peek_max_priority q3 = Inr p' \<and> p' \<le> prev)" by (elim exE conjE)
  show ?thesis
  proof (cases "pq_is_empty q3")
    case False
    with a(3) have "pq_bag q3 \<noteq> {#}" by (simp add: pq_is_empty_bag)
    from pop_then_peek [OF a(3) this] obtain cur u q4 where
      b: "pq_peek_max_priority q3 = Inr cur" "pq_pop_max q3 = Inr (Some u, q4)"
        "\<not> pq_is_empty q4 \<longrightarrow> (\<exists>p'. pq_peek_max_priority q4 = Inr p' \<and> p' \<le> cur)" by (elim exE conjE)
    have "cur \<le> prev" using a(4) False b(1) by simp
    with False q(1-3) a(1,2) b show ?thesis
      by (cases "pq_is_empty q4") (auto simp: verify_priority_queue_sorted_pop_order_def kani_simps Let_def)
  qed (use q(1-3) a(1,2) in \<open>simp add: verify_priority_queue_sorted_pop_order_def kani_simps Let_def\<close>)
qed

lemma verify_priority_queue_insert_pop_roundtrip_holds: "verify_priority_queue_insert_pop_roundtrip tid p = Completed"
proof -
  obtain q where q: "pq_insert (pq_new MAX_TASKS) tid p = Inr q" "pq_wf q" "pq_bag q = {#(tid, p)#}"
    using pq_insert_room [OF pq_fresh(1,2), of tid p] by (auto simp: pq_fresh)
  then obtain q' where "pq_pop_max q = Inr (Some tid, q')" "pq_wf q'" "pq_bag q' = {#}"
    using ready_queue.pop_max [OF q(2)] by auto
  with q(1) show ?thesis by (simp add: verify_priority_queue_insert_pop_roundtrip_def kani_simps pq_is_empty_bag)
qed

section \<open>The channel\<close>

lemma capacity_loop_completes:
  assumes "ch_wf ch" and "ch_capacity ch = CHANNEL_CAP"
  shows "capacity_loop draws ch = Completed"
  using assms
proof (induction draws arbitrary: ch)
  case (Cons d draws)
  obtain send v where d: "d = (send, v)" by (cases d)
  have after: "ch_len c \<le> CHANNEL_CAP \<and> ch_is_full c = (ch_len c = CHANNEL_CAP) \<and> ch_is_empty c = (ch_len c = 0)"
    if "ch_wf c" "ch_capacity c = CHANNEL_CAP" for c :: "u8 channel"
    using that by (simp add: ch_wf_def ch_is_full_def ch_is_empty_def)
  show ?case
  proof (cases send)
    case True
    show ?thesis
    proof (cases "ch_len ch = CHANNEL_CAP")
      case full: True
      with ring.send_full [OF Cons.prems(1), of v] Cons True after [OF Cons.prems] show ?thesis
        by (simp add: d kani_simps Let_def)
    next
      case False
      with ring.send_room [OF Cons.prems(1), of v] Cons.prems(2) obtain c where
        c: "try_send ch v = Inr (Sent, c)" "ch_wf c" "ch_contents c = ch_contents ch @ [v]" "ch_capacity c = CHANNEL_CAP"
        by auto
      have "ch_len c = ch_len ch + 1" using arg_cong [OF c(3), of length] by simp
      moreover have "ch_len ch < CHANNEL_CAP" using Cons.prems False by (simp add: ch_wf_def)
      ultimately show ?thesis
        using True c Cons.IH [OF c(2,4)] after [OF c(2,4)] by (simp add: d kani_simps Let_def)
    qed
  next
    case False
    show ?thesis
    proof (cases "ch_contents ch")
      case Nil
      then have "ch_len ch = 0" by (metis ch_contents_length list.size(3))
      with ring.receive_empty [OF Cons.prems(1) Nil] Cons False after [OF Cons.prems] show ?thesis
        by (simp add: d kani_simps Let_def)
    next
      case cons: (Cons x xs)
      from ring.receive_some [OF Cons.prems(1) cons] Cons.prems(2) obtain c where
        c: "try_receive ch = Inr (Some x, c)" "ch_wf c" "ch_contents c = xs" "ch_capacity c = CHANNEL_CAP" by auto
      have "ch_len ch = Suc (length xs)" "ch_len c = length xs"
        using arg_cong [OF cons, of length] arg_cong [OF c(3), of length] by simp_all
      then show ?thesis
        using False c Cons.IH [OF c(2,4)] after [OF c(2,4)] by (simp add: d kani_simps Let_def)
    qed
  qed
qed simp

text \<open>The channel holds the numbers sent and not yet received.\<close>

lemma fifo_loop_completes:
  assumes "ch_wf ch" and "ch_capacity ch = CHANNEL_CAP" and "ch_contents ch = map of_nat [a..<b]" and "a \<le> b"
    and "b + length draws < 256"
  shows "fifo_loop draws (of_nat b) (of_nat a) ch = Completed"
  using assms
proof (induction draws arbitrary: ch a b)
  case (Cons send draws)
  have u: "unat (of_nat n :: u8) = n" if "n < 256" for n using that by (simp add: unat_of_nat)
  have len: "ch_len ch = b - a" using arg_cong [OF Cons.prems(3), of length] by simp
  have sub: "sub_u8 (of_nat y) (of_nat x) rest = rest (of_nat (y - x))" if "x \<le> y" "y < 256" for x y rest
    using that u [of x] u [of y] by (simp add: sub_u8_def word_le_nat_alt)
  have add: "add_u8 (of_nat x) 1 rest = rest (of_nat (Suc x))" if "Suc x < 256" for x rest
    using that u [of x] by (simp add: add_u8_def add.commute)
  show ?case
  proof (cases send)
    case True
    show ?thesis
    proof (cases "ch_len ch = CHANNEL_CAP")
      case full: True
      with ring.send_full [OF Cons.prems(1), of "of_nat b"] Cons True len show ?thesis
        by (simp add: kani_simps Let_def sub u)
    next
      case False
      with ring.send_room [OF Cons.prems(1), of "of_nat b"] Cons.prems(2) obtain c where
        c: "try_send ch (of_nat b) = Inr (Sent, c)" "ch_wf c" "ch_contents c = ch_contents ch @ [of_nat b]"
          "ch_capacity c = CHANNEL_CAP" by auto
      have *: "ch_contents c = map of_nat [a..<Suc b]" using c(3) Cons.prems(3,4) by simp
      have "ch_len c = Suc b - a" using arg_cong [OF *, of length] by (simp only: ch_contents_length length_map length_upt)
      with True c(1) Cons.IH [OF c(2,4) *] Cons.prems(4,5) u [of "Suc b - a"] show ?thesis
        by (simp add: kani_simps Let_def add sub del: of_nat_Suc of_nat_diff)
    qed
  next
    case False
    show ?thesis
    proof (cases "a = b")
      case True
      then have "ch_contents ch = []" using Cons.prems(3) by simp
      with ring.receive_empty [OF Cons.prems(1)] Cons False len True show ?thesis
        by (simp add: kani_simps Let_def sub u)
    next
      case lt: False
      then have "ch_contents ch = of_nat a # map of_nat [Suc a..<b]"
        using Cons.prems(3,4) by (simp add: upt_conv_Cons)
      from ring.receive_some [OF Cons.prems(1) this] Cons.prems(2) obtain c where
        c: "try_receive ch = Inr (Some (of_nat a), c)" "ch_wf c" "ch_contents c = map of_nat [Suc a..<b]"
          "ch_capacity c = CHANNEL_CAP" by auto
      have "ch_len c = b - Suc a" using arg_cong [OF c(3), of length] by simp
      with False lt c(1) Cons.IH [OF c(2,4,3)] Cons.prems(4,5) u [of "b - Suc a"] show ?thesis
        by (simp add: kani_simps Let_def add sub del: of_nat_Suc of_nat_diff)
    qed
  qed
qed simp

lemma channel_harnesses_complete:
  "verify_channel_capacity_respected draw = Completed" "verify_channel_fifo_no_loss_no_duplication draw' = Completed"
proof -
  have ch: "ch_wf (channel_new CHANNEL_CAP)" "ch_capacity (channel_new CHANNEL_CAP) = CHANNEL_CAP"
    "ch_contents (channel_new CHANNEL_CAP) = []"
    by (rule ch_wf_new; simp add: CHANNEL_CAP_def) (simp_all add: ch_capacity_def channel_new_def ch_contents_def)
  show "verify_channel_capacity_respected draw = Completed"
    unfolding verify_channel_capacity_respected_def by (rule capacity_loop_completes [OF ch(1,2)])
  show "verify_channel_fifo_no_loss_no_duplication draw' = Completed"
    unfolding verify_channel_fifo_no_loss_no_duplication_def
    using fifo_loop_completes [OF ch(1,2), of 0 0 "map draw' [0..<CHANNEL_OPS]"] ch(3) by (simp add: CHANNEL_OPS_def)
qed

section \<open>All harnesses\<close>

text \<open>
  C35: every harness of the model-checking suite holds for all values of its symbolic inputs: the eight
  proof harnesses never panic, and the two that must panic never return and do panic for some input.
\<close>

theorem kani_harnesses_hold:
  "(\<forall>n tasks. verify_ccg_build_no_oob n tasks \<noteq> Panicked) \<and>
   (\<forall>a b. verify_ccg_edge_iff_contention a b = Completed) \<and>
   (\<forall>a b. verify_conflict_detector_no_false_positive a b \<noteq> Panicked) \<and>
   (\<forall>p0 p1 p2 p3. verify_priority_queue_pop_is_max p0 p1 p2 p3 = Completed) \<and>
   (\<forall>p0 p1 p2. verify_priority_queue_sorted_pop_order p0 p1 p2 = Completed) \<and>
   (\<forall>tid p. verify_priority_queue_insert_pop_roundtrip tid p = Completed) \<and>
   (\<forall>draw. verify_channel_capacity_respected draw = Completed) \<and>
   (\<forall>draw. verify_channel_fifo_no_loss_no_duplication draw = Completed) \<and>
   (\<forall>m. verify_conflict_detector_catches_double_exclusive m \<noteq> Completed) \<and>
   (\<exists>m. verify_conflict_detector_catches_double_exclusive m = Panicked) \<and>
   (\<forall>ch. verify_channel_detector_catches_double_sender ch \<noteq> Completed) \<and>
   (\<exists>ch. verify_channel_detector_catches_double_sender ch = Panicked)"
proof -
  have "count_ones 1 = 1" by code_simp
  then have "verify_conflict_detector_catches_double_exclusive 1 = Panicked"
    using verify_conflict_detector_catches_double_exclusive_holds [of 1]
    by (simp add: verify_conflict_detector_catches_double_exclusive_def kani_simps calling_def split: sum.splits)
  moreover have "verify_channel_detector_catches_double_sender 0 = Panicked"
    using verify_channel_detector_catches_double_sender_holds [of 0]
    by (simp add: verify_channel_detector_catches_double_sender_def kani_simps calling_def Let_def split: sum.splits)
  ultimately show ?thesis
    using verify_ccg_build_no_oob_holds verify_ccg_edge_iff_contention_holds verify_conflict_detector_no_false_positive_holds
      verify_priority_queue_pop_is_max_holds verify_priority_queue_sorted_pop_order_holds
      verify_priority_queue_insert_pop_roundtrip_holds channel_harnesses_complete
      verify_conflict_detector_catches_double_exclusive_holds verify_channel_detector_catches_double_sender_holds
    by blast
qed

end
