(* ===== verification/Fault_Reports.thy ===== *)
theory Fault_Reports
  imports Boot
begin

text \<open>
  What the kernel prints before it halts: the reports of the two boot scans
  (\<^verbatim>\<open>kernel/src/capability/allocator.rs\<close>), of the stack check (\<^verbatim>\<open>kernel/src/scheduler/mod.rs\<close>) and of the
  panic handler (\<^verbatim>\<open>kernel/src/panic.rs\<close>), as the calls of the UART driver they make. In the other theories
  a halt is the fault value alone; the text of a hardware fault is \<open>fault_report\<close> of \<open>Syscall\<close>, that of a
  misplaced stack is part of \<open>check_placement\<close> of \<open>Boot\<close>.
\<close>

section \<open>Model\<close>

definition report_conflict :: "nat \<Rightarrow> u8 \<Rightarrow> u8 \<Rightarrow> print list" where
  "report_conflict cap_id task_a task_b =
     [Puts ''CAPABILITY CONFLICT: peripheral '', Usize (of_nat cap_id),
      Puts '' claimed by task '', Usize (ucast task_a), Puts '' and task '', Usize (ucast task_b), Puts nl,
      Puts (''System halted. Fix capability declarations and reboot.'' @ nl)]"

definition report_out_of_range :: "nat \<Rightarrow> u8 \<Rightarrow> print list" where
  "report_out_of_range cap_id task_id =
     [Puts ''CAPABILITY ERROR: peripheral ID '', Usize (of_nat cap_id),
      Puts '' out of range (MAX_PERIPHERALS='', Usize (of_nat MAX_PERIPHERALS), Puts '') in task '',
      Usize (ucast task_id), Puts nl, Puts (''System halted. Fix capability declarations and reboot.'' @ nl)]"

definition endpoint_name :: "endpoint \<Rightarrow> string" where
  "endpoint_name e = (case e of Sender \<Rightarrow> ''sender'' | Receiver \<Rightarrow> ''receiver'')"

definition report_channel :: "endpoint \<Rightarrow> nat \<Rightarrow> u8 \<Rightarrow> u8 option \<Rightarrow> print list" where
  "report_channel e chan task prior =
     (case prior of
        Some p \<Rightarrow>
          [Puts ''CHANNEL CONFLICT: '', Puts (endpoint_name e), Puts '' of channel '', Usize (of_nat chan),
           Puts '' claimed by task '', Usize (ucast p), Puts '' and task '', Usize (ucast task)]
      | None \<Rightarrow>
          [Puts ''CHANNEL ERROR: '', Puts (endpoint_name e), Puts '' channel ID '', Usize (of_nat chan),
           Puts '' out of range (MAX_CHANNELS='', Usize (of_nat MAX_CHANNELS), Puts '') in task '',
           Usize (ucast task)]) @
     [Puts (nl @ ''System halted. Fix channel declarations and reboot.'' @ nl)]"

definition report_stack_overflow :: "nat \<Rightarrow> print list" where
  "report_stack_overflow i =
     [Puts ''[FAULT] stack overflow: canary overwritten in task '', Usize (of_nat i), Puts (nl @ ''System halted.'' @ nl)]"

text \<open>The panic handler; the message and the location come with the panic.\<close>

definition panic_report :: "string \<Rightarrow> (string \<times> u32) option \<Rightarrow> print list" where
  "panic_report message location =
     [Puts (nl @ nl @ ''!!! KERNEL PANIC !!!'' @ nl @ ''PANIC: ''), Puts message, Puts nl] @
     (case location of
        Some (file, line) \<Rightarrow> [Puts ''  --> '', Puts file, Puts '':'', Usize line, Puts nl]
      | None \<Rightarrow> []) @
     [Puts (''System halted.'' @ nl)]"

text \<open>The report of a fault, for the faults that have one of their own.\<close>

definition halt_report :: "fault \<Rightarrow> print list option" where
  "halt_report f =
     (case f of
        CapabilityConflict c a b \<Rightarrow> Some (report_conflict c a b)
      | CapabilityOutOfRange c t \<Rightarrow> Some (report_out_of_range c t)
      | ChannelConflict e c p t \<Rightarrow> Some (report_channel e c t (Some p))
      | ChannelOutOfRange e c t \<Rightarrow> Some (report_channel e c t None)
      | StackCanaryOverwritten i \<Rightarrow> Some (report_stack_overflow i)
      | _ \<Rightarrow> None)"

definition fault_index :: "fault \<Rightarrow> nat" where
  "fault_index f =
     (case f of
        CapabilityConflict c a b \<Rightarrow> c | CapabilityOutOfRange c t \<Rightarrow> c | ChannelConflict e c p t \<Rightarrow> c
      | ChannelOutOfRange e c t \<Rightarrow> c | StackCanaryOverwritten i \<Rightarrow> i | _ \<Rightarrow> 0)"

section \<open>The checks with their reports\<close>

text \<open>
  The scans of \<open>Capability_Allocator\<close> and the stack check again, now with what they print: a halt is the fault
  and the text printed where the source calls \<open>report_*_and_halt\<close>. A panic prints nothing here; its text is
  the handler's. The scans halt with the same faults as the ones that print nothing, and the
  text is the report of the fault.
\<close>

type_synonym 'a reported = "fault \<times> print list + 'a"

definition bind_rep :: "'a reported \<Rightarrow> ('a \<Rightarrow> 'b reported) \<Rightarrow> 'b reported" where
  "bind_rep m f = (case m of Inl e \<Rightarrow> Inl e | Inr x \<Rightarrow> f x)"

definition panics :: "'a res \<Rightarrow> 'a reported" where
  "panics m = (case m of Inl f \<Rightarrow> Inl (f, []) | Inr x \<Rightarrow> Inr x)"

definition report_conflict_and_halt :: "nat \<Rightarrow> u8 \<Rightarrow> u8 \<Rightarrow> 'a reported" where
  "report_conflict_and_halt cap_id task_a task_b =
     Inl (CapabilityConflict cap_id task_a task_b, report_conflict cap_id task_a task_b)"

definition report_out_of_range_and_halt :: "nat \<Rightarrow> u8 \<Rightarrow> 'a reported" where
  "report_out_of_range_and_halt cap_id task_id =
     Inl (CapabilityOutOfRange cap_id task_id, report_out_of_range cap_id task_id)"

definition report_channel_and_halt :: "endpoint \<Rightarrow> nat \<Rightarrow> u8 \<Rightarrow> u8 option \<Rightarrow> 'a reported" where
  "report_channel_and_halt e i task prior =
     Inl (case prior of Some p \<Rightarrow> ChannelConflict e i p task | None \<Rightarrow> ChannelOutOfRange e i task,
          report_channel e i task prior)"

definition claim_reporting ::
  "nat \<Rightarrow> (nat \<Rightarrow> u8 \<Rightarrow> u8 option list reported) \<Rightarrow> (nat \<Rightarrow> u8 \<Rightarrow> u8 \<Rightarrow> u8 option list reported) \<Rightarrow>
   u32 \<Rightarrow> u8 \<Rightarrow> nat \<Rightarrow> u8 option list \<Rightarrow> u8 option list reported" where
  "claim_reporting limit out_of_range conflict msk tid i owners =
     (if \<not> mask_has msk i then Inr owners
      else if i \<ge> limit then out_of_range i tid
      else bind_rep (panics (arr_get owners i)) (\<lambda>prior.
        (case prior of
           Some p \<Rightarrow> conflict i p tid
         | None \<Rightarrow> panics (arr_set owners i (Some tid)))))"

fun cap_bits_reporting :: "task_descriptor \<Rightarrow> nat list \<Rightarrow> u8 option list \<Rightarrow> u8 option list reported" where
  "cap_bits_reporting t [] claimed = Inr claimed"
| "cap_bits_reporting t (cap_id # ids) claimed =
     bind_rep (claim_reporting MAX_PERIPHERALS report_out_of_range_and_halt report_conflict_and_halt
                 (td_exclusive_cap_mask t) (td_id t) cap_id claimed)
       (cap_bits_reporting t ids)"

fun cap_slots_reporting :: "task_descriptor option list \<Rightarrow> u8 option list \<Rightarrow> u8 option list reported" where
  "cap_slots_reporting [] claimed = Inr claimed"
| "cap_slots_reporting (None # rest) claimed = cap_slots_reporting rest claimed"
| "cap_slots_reporting (Some t # rest) claimed =
     bind_rep (cap_bits_reporting t [0..<32] claimed) (cap_slots_reporting rest)"

fun chan_bits_reporting ::
  "task_descriptor \<Rightarrow> nat list \<Rightarrow> u8 option list \<Rightarrow> u8 option list \<Rightarrow>
   (u8 option list \<times> u8 option list) reported" where
  "chan_bits_reporting t [] senders receivers = Inr (senders, receivers)"
| "chan_bits_reporting t (i # ids) senders receivers =
     bind_rep (claim_reporting MAX_CHANNELS (\<lambda>i t. report_channel_and_halt Sender i t None)
                 (\<lambda>i p t. report_channel_and_halt Sender i t (Some p)) (td_sends_mask t) (td_id t) i senders) (\<lambda>senders'.
     bind_rep (claim_reporting MAX_CHANNELS (\<lambda>i t. report_channel_and_halt Receiver i t None)
                 (\<lambda>i p t. report_channel_and_halt Receiver i t (Some p)) (td_receives_mask t) (td_id t) i receivers) (\<lambda>receivers'.
       chan_bits_reporting t ids senders' receivers'))"

fun chan_slots_reporting ::
  "task_descriptor option list \<Rightarrow> u8 option list \<Rightarrow> u8 option list \<Rightarrow>
   (u8 option list \<times> u8 option list) reported" where
  "chan_slots_reporting [] senders receivers = Inr (senders, receivers)"
| "chan_slots_reporting (None # rest) senders receivers = chan_slots_reporting rest senders receivers"
| "chan_slots_reporting (Some t # rest) senders receivers =
     bind_rep (chan_bits_reporting t [0..<32] senders receivers) (\<lambda>(s, r). chan_slots_reporting rest s r)"

text \<open>The stack check, slot by slot; it runs inside the timer interrupt.\<close>

fun canaries_reporting :: "kernel \<Rightarrow> nat list \<Rightarrow> unit reported" where
  "canaries_reporting k [] = Inr ()"
| "canaries_reporting k (i # is) =
     bind_rep (case task_ptr (of_nat i) k of
         None \<Rightarrow> Inr ()
       | Some t \<Rightarrow> if canary_intact (td_stack_base t) (mem k) then Inr ()
                   else Inl (StackCanaryOverwritten i, report_stack_overflow i)) (\<lambda>_. canaries_reporting k is)"

text \<open>A result with the report of its fault.\<close>

definition with_report :: "'a res \<Rightarrow> 'a reported" where
  "with_report m =
     (case m of Inl f \<Rightarrow> Inl (f, case halt_report f of Some ps \<Rightarrow> ps | None \<Rightarrow> []) | Inr x \<Rightarrow> Inr x)"

lemma with_report_bind: "with_report (bind_res m f) = bind_rep (with_report m) (\<lambda>x. with_report (f x))"
  by (cases m) (simp_all add: with_report_def bind_rep_def)

lemma bind_with_report:
  "(\<And>x. m = Inr x \<Longrightarrow> g x = with_report (f x)) \<Longrightarrow> bind_rep (with_report m) g = with_report (bind_res m f)"
  by (cases m) (simp_all add: with_report_def bind_rep_def)

lemma with_report_Inr [simp]: "with_report (Inr x) = Inr x" by (simp add: with_report_def)

lemma panics_array: "panics (arr_get xs i) = with_report (arr_get xs i)" "panics (arr_set xs i x) = with_report (arr_set xs i x)"
  by (simp_all add: panics_def with_report_def arr_get_def arr_set_def halt_report_def)

lemma claim_reporting_eq:
  assumes "\<And>i t. oor' i t = with_report (Inl (oor i t))" and "\<And>i p t. conf' i p t = with_report (Inl (conf i p t))"
  shows "claim_reporting limit oor' conf' msk tid i owners = with_report (claim limit oor conf msk tid i owners)"
  by (auto simp: claim_reporting_def claim_def with_report_bind assms panics_array intro!: arg_cong2 [of _ _ _ _ bind_rep]
      split: option.split)

lemma cap_bits_reporting_eq: "cap_bits_reporting t ids claimed = with_report (cap_bits t ids claimed)"
proof (induction ids arbitrary: claimed)
  case (Cons i ids)
  have "claim_reporting MAX_PERIPHERALS report_out_of_range_and_halt report_conflict_and_halt msk tid i claimed =
      with_report (claim MAX_PERIPHERALS CapabilityOutOfRange CapabilityConflict msk tid i claimed)" for msk tid
    by (rule claim_reporting_eq) (simp_all add: report_out_of_range_and_halt_def report_conflict_and_halt_def
        with_report_def halt_report_def)
  then show ?case by (auto simp: Cons.IH intro!: bind_with_report)
qed simp

lemma chan_bits_reporting_eq: "chan_bits_reporting t ids s r = with_report (chan_bits t ids s r)"
proof (induction ids arbitrary: s r)
  case (Cons i ids)
  have "claim_reporting MAX_CHANNELS (\<lambda>i t. report_channel_and_halt e i t None)
      (\<lambda>i p t. report_channel_and_halt e i t (Some p)) msk tid i owners =
      with_report (claim MAX_CHANNELS (ChannelOutOfRange e) (ChannelConflict e) msk tid i owners)" for e msk tid owners
    by (rule claim_reporting_eq) (simp_all add: report_channel_and_halt_def with_report_def halt_report_def)
  then show ?case by (auto simp: Cons.IH intro!: bind_with_report)
qed simp

lemma scans_report:
  "cap_slots_reporting reg claimed = with_report (cap_slots reg claimed)"
  "chan_slots_reporting reg senders receivers = with_report (chan_slots reg senders receivers)"
  "canaries_reporting k [0..<task_count k] = with_report (check_stack_canaries k)"
proof -
  show "cap_slots_reporting reg claimed = with_report (cap_slots reg claimed)"
    by (induction reg claimed rule: cap_slots.induct) (auto simp: cap_bits_reporting_eq intro!: bind_with_report)
  show "chan_slots_reporting reg senders receivers = with_report (chan_slots reg senders receivers)"
    by (induction reg senders receivers rule: chan_slots.induct)
      (auto simp: chan_bits_reporting_eq intro!: bind_with_report)
  have "canaries_reporting k is = with_report (fold_res (\<lambda>i _. case task_ptr (of_nat i) k of
         None \<Rightarrow> Inr ()
       | Some t \<Rightarrow> if canary_intact (td_stack_base t) (mem k) then Inr ()
                   else Inl (StackCanaryOverwritten i)) is ())" for "is"
    by (induction "is") (auto simp: with_report_bind with_report_def bind_rep_def halt_report_def split: option.split)
  then show "canaries_reporting k [0..<task_count k] = with_report (check_stack_canaries k)"
    by (simp add: check_stack_canaries_def)
qed

section \<open>The printed text\<close>

definition hex_text :: "usize \<Rightarrow> u8 list" where
  "hex_text v = bytes_of ''0x'' @ map (\<lambda>i. HEX ! unat (drop_bit (4 * i) v AND 0xF)) (rev [0..<8])"

fun printed :: "print list \<Rightarrow> u8 list" where
  "printed [] = []"
| "printed (Puts s # ps) = bytes_of s @ printed ps"
| "printed (Usize v # ps) = decimal (unat v) @ printed ps"
| "printed (Hex v # ps) = hex_text v @ printed ps"

lemma print_hex_loop_eq:
  "print_hex_loop val n out = Inr (out @ map (\<lambda>i. HEX ! unat (drop_bit (4 * i) val AND 0xF)) (rev [0..<n]))"
  by (induction n arbitrary: out) (simp_all add: HEX_index uart_putchar_def Let_def)

lemma uart_print_hex_eq: "uart_print_hex val out = Inr (out @ hex_text val)"
  by (simp add: uart_print_hex_def print_hex_loop_eq uart_puts_append hex_text_def)

lemma emit_printed: "emit ps k = Inr (k\<lparr>uart := uart k @ printed ps\<rparr>)"
  by (induction ps k rule: emit.induct) (simp_all add: uart_puts_append uart_print_usize_eq uart_print_hex_eq)

section \<open>Reading a report\<close>

definition is_digit :: "u8 \<Rightarrow> bool" where
  "is_digit c \<longleftrightarrow> 48 \<le> c \<and> c \<le> 57"

lemma decimal_digits: "d \<in> set (decimal n) \<Longrightarrow> is_digit d"
proof (induction n rule: decimal.induct)
  case (1 n)
  have digit: "is_digit (48 + of_nat i)" if "i < 10" for i
  proof -
    have "unat (48 + of_nat i :: u8) = 48 + i" using that by (simp add: unat_word_ariths unat_of_nat)
    then show ?thesis using that by (simp add: is_digit_def word_le_nat_alt)
  qed
  show ?case
  proof (cases "n < 10")
    case True
    with 1 digit show ?thesis by (simp add: decimal.simps [of n])
  next
    case False
    with 1 digit [of "n mod 10"] show ?thesis by (auto simp: decimal.simps [of n])
  qed
qed

lemma decimal_inj: "decimal m = decimal n \<longleftrightarrow> m = n"
  by (metis digits_value_decimal)

lemma decimal_cancel:
  assumes "\<not> is_digit c" and "\<not> is_digit c'"
  shows "decimal m @ c # r = decimal n @ c' # r' \<longleftrightarrow> m = n \<and> c = c' \<and> r = r'"
proof
  assume eq: "decimal m @ c # r = decimal n @ c' # r'"
  have "takeWhile is_digit (decimal i @ x # y) = decimal i" if "\<not> is_digit x" for i x y
    using that by (subst takeWhile_append2) (auto dest: decimal_digits)
  from this [OF assms(1), of m r] this [OF assms(2), of n r'] eq have "decimal m = decimal n" by simp
  with eq show "m = n \<and> c = c' \<and> r = r'" by (simp add: decimal_inj)
qed simp

lemma unat_u8_usize: "unat (ucast (a :: u8) :: usize) = unat a"
proof -
  have "unat a < 2 ^ LENGTH(8)" by (rule unsigned_less)
  then have "unat a < 2 ^ 32" by simp
  then show ?thesis by (simp add: unsigned_ucast_eq take_bit_nat_eq_self)
qed

lemmas report_defs = report_conflict_def report_out_of_range_def report_channel_def report_stack_overflow_def
  halt_report_def endpoint_name_def fault_index_def bytes_of_def is_digit_def

lemma report_text_inj:
  assumes "halt_report f \<noteq> None" and "halt_report g \<noteq> None" and "fault_index f < 2 ^ 32" and "fault_index g < 2 ^ 32"
    and "printed (the (halt_report f)) = printed (the (halt_report g))"
  shows "f = g"
  using assms(1,2)
  by (cases f; cases g; simp_all only: halt_report_def fault.case option.distinct option.sel not_True_eq_False simp_thms)
    (use assms(3-5) in \<open>simp_all add: report_defs decimal_cancel decimal_inj unat_u8_usize unat_of_nat
      word_unat_eq_iff [symmetric] split: endpoint.splits\<close>)

text \<open>
  C36: the last thing a halted kernel printed says which fault it was. Two halts by the boot scans or the
  stack check that leave the same console are the same fault, with the same peripheral or channel, the
  same endpoint and the same tasks; and every report is printed completely.
\<close>

theorem halt_report_identifies_fault:
  assumes "halt_report f = Some ps" and "halt_report g = Some qs" and "fault_index f < 2 ^ 32" and "fault_index g < 2 ^ 32"
  shows "\<exists>kf kg. emit ps k = Inr kf \<and> emit qs k = Inr kg \<and> (uart kf = uart kg \<longleftrightarrow> f = g)"
proof -
  have "f = g" if "printed (the (halt_report f)) = printed (the (halt_report g))"
    by (rule report_text_inj [OF _ _ assms(3,4) that]) (simp_all add: assms(1,2))
  then have "f = g" if "printed ps = printed qs" using assms(1,2) that by simp
  moreover have "printed ps = printed qs" if "f = g" using assms(1,2) that by simp
  ultimately show ?thesis by (auto simp: emit_printed)
qed

theorem halt_report_identifies_fault_witness:
  "\<exists>kf kg. emit (report_conflict 3 0 1) demo_reset = Inr kf \<and> emit (report_conflict 3 0 2) demo_reset = Inr kg \<and> uart kf \<noteq> uart kg"
  using halt_report_identifies_fault [of "CapabilityConflict 3 0 1" "report_conflict 3 0 1" "CapabilityConflict 3 0 2"
      "report_conflict 3 0 2" demo_reset]
  by (auto simp: halt_report_def fault_index_def)

end
