(* ===== verification/Unit_Tests.thy ===== *)
theory Unit_Tests
  imports Config_Source Task_Library Fault_Reports
begin

text \<open>
  The unit tests of the repository, each as a run of the model: the tests at the end of the component
  sources and those of \<^verbatim>\<open>capability/tests.rs\<close>. A test panics when an assertion of it fails or the code
  under test panics or halts. They check the definitions of the model against the expectations the
  authors wrote down.
\<close>

section \<open>Ready queue\<close>

text \<open>\<open>pops expected q\<close>: pop once per expected answer and compare.\<close>

fun inserting :: "(u8 \<times> u8) list \<Rightarrow> prio_queue \<Rightarrow> (prio_queue \<Rightarrow> verdict) \<Rightarrow> verdict" where
  "inserting [] q rest = rest q"
| "inserting (x # xs) q rest = calling (pq_insert q (fst x) (snd x)) (\<lambda>q1. inserting xs q1 rest)"

fun popping :: "u8 option list \<Rightarrow> prio_queue \<Rightarrow> verdict" where
  "popping [] q = Completed"
| "popping (x # xs) q = calling (pq_pop_max q) (\<lambda>(r, q1). asserting (r = x) (popping xs q1))"

definition pops_highest_priority_first :: verdict where
  "pops_highest_priority_first =
     inserting [(0, 1), (1, 3), (2, 2)] (pq_new 8) (popping [Some 1, Some 2, Some 0, None])"

definition equal_priorities_leave_in_fifo_order :: verdict where
  "equal_priorities_leave_in_fifo_order =
     inserting (map (\<lambda>i. (of_nat i, 5)) [0..<6]) (pq_new 8) (popping (map (\<lambda>i. Some (of_nat i)) [0..<6]))"

definition reinserted_task_goes_behind_equal_peers :: verdict where
  "reinserted_task_goes_behind_equal_peers =
     inserting [(1, 3), (2, 3)] (pq_new 8) (\<lambda>q.
       calling (pq_pop_max q) (\<lambda>(r, q1).
         (case r of
            None \<Rightarrow> Panicked
          | Some cur \<Rightarrow>
              asserting (cur = 1) (inserting [(cur, 3)] q1 (popping [Some 2, Some 1])))))"

definition fifo_survives_sequence_wraparound :: verdict where
  "fifo_survives_sequence_wraparound =
     inserting [(7, 1), (8, 1), (9, 1)] ((pq_new 4)\<lparr>pq_next_seq := - 1 - 1\<rparr>) (popping [Some 7, Some 8, Some 9])"

definition remove_keeps_heap_order :: verdict where
  "remove_keeps_heap_order =
     inserting [(0, 4), (1, 2), (2, 6), (3, 1)] (pq_new 8) (\<lambda>q.
       calling (pq_remove q 0) (\<lambda>(r1, q1). asserting r1
         (calling (pq_remove q1 0) (\<lambda>(r2, q2). asserting (\<not> r2)
            (popping [Some 2, Some 1, Some 3] q2)))))"

section \<open>Memory protection\<close>

definition napot_encoding_of_4k_region :: verdict where
  "napot_encoding_of_4k_region =
     asserting (is_napot 0x800B8000 0x800B9000) (asserting (napot_addr 0x800B8000 0x800B9000 = 0x2002E1FF) Completed)"

definition napot_encoding_of_flash :: verdict where
  "napot_encoding_of_flash =
     asserting (is_napot 0x80000000 0x80080000) (asserting (napot_addr 0x80000000 0x80080000 = 0x2000FFFF) Completed)"

definition misaligned_or_odd_sized_region_falls_back_to_tor :: verdict where
  "misaligned_or_odd_sized_region_falls_back_to_tor =
     asserting (\<not> is_napot 0x800B8800 0x800B9800)
     (asserting (\<not> is_napot 0x800B8000 0x800B8C00)
      (let e = encode_region 0x800B8000 0x800B8C00 (PMP_R OR PMP_W) in
       asserting (addr_lo e = drop_bit 2 0x800B8000)
       (asserting (addr_hi e = drop_bit 2 0x800B8C00)
       (asserting (cfg_lo e = 0)
       (asserting (cfg_hi e = PMP_TOR OR PMP_R OR PMP_W) Completed)))))"

definition napot_region_uses_high_entry_only :: verdict where
  "napot_region_uses_high_entry_only =
     (let e = encode_region 0x800B9000 0x800BA000 (PMP_R OR PMP_W) in
      asserting (cfg_lo e = 0)
      (asserting (cfg_hi e = PMP_NAPOT OR PMP_R OR PMP_W)
      (asserting (addr_hi e = napot_addr 0x800B9000 0x800BA000) Completed)))"

definition empty_region_grants_nothing :: verdict where
  "empty_region_grants_nothing =
     asserting (encode_region 0 0 (PMP_R OR PMP_W) = \<lparr>addr_lo = 0, addr_hi = 0, cfg_lo = 0, cfg_hi = 0\<rparr>)
     (asserting (cfg_hi (encode_region 0x2000 0x1000 PMP_R) = 0) Completed)"

definition user_task_gets_rw_without_execute_and_machine_task_gets_nothing :: verdict where
  "user_task_gets_rw_without_execute_and_machine_task_gets_nothing =
     (let user = task_new 0 1 0x800B8000 4096 0x800B8000 0x800B9000;
          e = task_entries user
      in asserting (cfg_hi e AND (PMP_R OR PMP_W OR PMP_X) = PMP_R OR PMP_W)
         (let kernel = with_mode Machine user in
          asserting (cfg_hi (task_entries kernel) = 0) Completed))"

definition mode_bits_match_privileged_spec :: verdict where
  "mode_bits_match_privileged_spec =
     asserting (PMP_TOR = 0x08)
     (asserting (PMP_NAPOT = 0x18)
     (asserting (PMP_NAPOT OR PMP_R OR PMP_W OR PMP_X = 0x1F) Completed))"

section \<open>System calls\<close>

definition buffer_inside_range_is_readable :: verdict where
  "buffer_inside_range_is_readable =
     asserting (buffer_readable 0x1000 16 [(0x1000, 0x2000)])
     (asserting (buffer_readable 0x1ff0 16 [(0x1000, 0x2000)]) Completed)"

definition buffer_crossing_range_end_is_rejected :: verdict where
  "buffer_crossing_range_end_is_rejected =
     asserting (\<not> buffer_readable 0x1ff8 16 [(0x1000, 0x2000)])
     (asserting (\<not> buffer_readable 0x0ff8 16 [(0x1000, 0x2000)]) Completed)"

definition buffer_spanning_two_adjacent_ranges_is_rejected :: verdict where
  "buffer_spanning_two_adjacent_ranges_is_rejected =
     asserting (\<not> buffer_readable 0x1ff8 16 [(0x1000, 0x2000), (0x2000, 0x3000)]) Completed"

definition wrapping_buffer_is_rejected :: verdict where
  "wrapping_buffer_is_rejected = asserting (\<not> buffer_readable (- 1 - 4) 16 [(0, - 1)]) Completed"

definition empty_buffer_is_accepted :: verdict where
  "empty_buffer_is_accepted = asserting (buffer_readable 0xdead0000 0 []) Completed"

definition console_capability_gates_logging :: verdict where
  "console_capability_gates_logging =
     (let t = task_new 0 1 0 16 0 0 in
      asserting (\<not> may_log t)
      (let t1 = t\<lparr>td_shared_cap_mask := CONSOLE_CAP_BIT\<rparr> in
       asserting (may_log t1)
       (let t2 = t1\<lparr>td_shared_cap_mask := 0, td_exclusive_cap_mask := 1\<rparr> in
        asserting (\<not> may_log t2) Completed)))"

definition access_faults_are_named :: verdict where
  "access_faults_are_named =
     asserting (exception_name 1 = ''instruction access fault'')
     (asserting (exception_name 5 = ''load access fault'')
     (asserting (exception_name 7 = ''store access fault'')
     (asserting (exception_name 99 = ''exception'') Completed)))"

section \<open>Frames and regions\<close>

text \<open>\<open>buf\<close> is the address of the test's buffer, which the compiler aligns to 16.\<close>

definition init_frame_places_frame_below_kernel_stack_top :: "usize \<Rightarrow> verdict" where
  "init_frame_places_frame_below_kernel_stack_top buf =
     (let stack_top = buf + 512;
          (f, fs) = init_frame stack_top 0x4000 0x1234 0x5678 0x9abc MSTATUS_MPIE Map.empty
      in asserting (f = stack_top - TRAP_FRAME_SIZE)
         (case fs f of
            None \<Rightarrow> Panicked
          | Some fr \<Rightarrow>
              asserting (mepc fr = 0x1234)
              (asserting (regs fr ! REG_RA = 0x5678)
              (asserting (regs fr ! REG_GP = 0x9abc)
              (asserting (regs fr ! REG_SP = 0x4000)
              (asserting (mstatus fr = MSTATUS_MPIE) Completed))))))"

text \<open>\<open>stacks\<close> is the address of \<open>KERNEL_STACKS\<close>, which is aligned to 16.\<close>

definition kernel_stacks_are_disjoint_and_aligned :: "usize \<Rightarrow> verdict" where
  "kernel_stacks_are_disjoint_and_aligned stacks =
     foldr (\<lambda>slot rest.
       calling (kernel_stack_top stacks slot) (\<lambda>tp.
         asserting (tp mod 16 = 0)
         (if slot > 0
          then calling (kernel_stack_top stacks (slot - 1)) (\<lambda>prev. asserting (tp - prev = KERNEL_STACK_SIZE) rest)
          else rest))) [0..<MAX_TASKS] Completed"

definition region_accessors :: verdict where
  "region_accessors =
     asserting (region_base 0x80000000 0x80080000 = 0x80000000)
     (asserting (region_end 0x80000000 0x80080000 = 0x80080000)
     (asserting (region_size 0x80000000 0x80080000 = 0x00080000)
     (asserting (region_base 0x80080000 0x800C0000 = 0x80080000)
     (asserting (region_size 0x80080000 0x800C0000 = 0x00040000) Completed))))"

definition contains_works :: verdict where
  "contains_works =
     asserting (region_contains 0x80000000 0x80080000 0x80000000)
     (asserting (region_contains 0x80000000 0x80080000 0x8007FFFF)
     (asserting (\<not> region_contains 0x80000000 0x80080000 0x80080000)
     (asserting (\<not> region_contains 0x80000000 0x80080000 0x7FFFFFFF) Completed)))"

definition no_overlap_adjacent :: verdict where
  "no_overlap_adjacent = asserting (assert_no_overlap 0x80000000 0x80080000 0x80080000 0x800C0000) Completed"

section \<open>Messages, lines and results\<close>

definition message_round_trips_bytes :: verdict where
  "message_round_trips_bytes =
     (case message_from_bytes (bytes_of ''abc'') of
        None \<Rightarrow> Panicked
      | Some m \<Rightarrow>
          calling (message_bytes m) (\<lambda>bs. asserting (bs = bytes_of ''abc'')
          (case message_from_bytes (replicate MSG_MAX 0) of
             None \<Rightarrow> Panicked
           | Some z \<Rightarrow> calling (message_bytes z) (\<lambda>zs. asserting (length zs = MSG_MAX) Completed))))"

definition oversized_message_is_rejected :: verdict where
  "oversized_message_is_rejected = asserting (message_from_bytes (replicate (MSG_MAX + 1) 0) = None) Completed"

definition out_of_range_channel_is_none :: verdict where
  "out_of_range_channel_is_none =
     asserting (channel_at channel_table (MAX_CHANNELS - 1) \<noteq> None)
     (asserting (channel_at channel_table MAX_CHANNELS = None) Completed)"

definition line_buf_formats_numbers :: verdict where
  "line_buf_formats_numbers =
     calling (line 32 [Str ''t='', Dec 0, Str '' '', Dec 4294967295]) (\<lambda>bs.
       asserting (bs = bytes_of ''t=0 4294967295'') Completed)"

definition line_buf_formats_hex :: verdict where
  "line_buf_formats_hex =
     calling (line 32 [HexWord 0x80080780, Str '' '', HexWord 0]) (\<lambda>bs.
       asserting (bs = bytes_of ''0x80080780 0x00000000'') Completed)"

definition line_buf_truncates_at_capacity :: verdict where
  "line_buf_truncates_at_capacity =
     calling (line 4 [Str ''abc'', Dec 123]) (\<lambda>bs. asserting (bs = bytes_of ''abc1'') Completed)"

definition decode_maps_error_codes :: verdict where
  "decode_maps_error_codes =
     asserting (decode ENOSYS = Inl NoSys)
     (asserting (decode EPERM = Inl Permission)
     (asserting (decode EFAULT = Inl Fault)
     (asserting (decode 42 = Inr 42) Completed)))"

section \<open>Boot-time ownership scans\<close>

definition make_task :: "u8 \<Rightarrow> u32 \<Rightarrow> u32 \<Rightarrow> task_descriptor option" where
  "make_task i exclusive shared =
     Some (with_capabilities i 1 0x20000000 256 0x20000000 0x20001000 exclusive shared 0)"

definition passing :: "'a res \<Rightarrow> verdict" where
  "passing r = calling r (\<lambda>_. Completed)"

definition should_panic :: "verdict \<Rightarrow> verdict" where
  "should_panic v = (if v = Panicked then Completed else Panicked)"

definition test_no_conflict_passes :: verdict where
  "test_no_conflict_passes = passing (check_capability_conflicts [make_task 0 1 0, make_task 1 2 0])"

definition test_exclusive_conflict_halts :: verdict where
  "test_exclusive_conflict_halts = should_panic (passing (check_capability_conflicts [make_task 0 1 0, make_task 1 1 0]))"

definition test_shared_capability_allowed :: verdict where
  "test_shared_capability_allowed = passing (check_capability_conflicts [make_task 0 0 1, make_task 1 0 1])"

definition test_multiple_exclusive_same_task_ok :: verdict where
  "test_multiple_exclusive_same_task_ok =
     passing (check_capability_conflicts [make_task 0 (push_bit 0 1 OR push_bit 13 1) 0])"

definition test_empty_registry_passes :: verdict where
  "test_empty_registry_passes = passing (check_capability_conflicts [None, None, None, None])"

definition test_none_slots_ignored :: verdict where
  "test_none_slots_ignored = passing (check_capability_conflicts [make_task 0 7 0, None, None, None])"

definition chan_task :: "u8 \<Rightarrow> u32 \<Rightarrow> u32 \<Rightarrow> task_descriptor option" where
  "chan_task i sends receives = Some (with_channels sends receives (task_new i 1 0 16 0 0))"

text \<open>What the two branches of \<open>report_channel_and_halt\<close> say in a test build.\<close>

definition channel_panic_message :: "endpoint \<Rightarrow> nat \<Rightarrow> u8 \<Rightarrow> u8 option \<Rightarrow> string" where
  "channel_panic_message e chan task prior =
     (case prior of
        Some p \<Rightarrow> ''CHANNEL CONFLICT: '' @ endpoint_name e @ '' of channel '' @ show_nat chan @
                  '' claimed by task '' @ show_nat (unat p) @ '' and task '' @ show_nat (unat task)
      | None \<Rightarrow> ''CHANNEL ERROR: '' @ endpoint_name e @ '' channel ID '' @ show_nat chan @
                '' out of range in task '' @ show_nat (unat task))"

definition should_panic_with :: "string \<Rightarrow> 'a res \<Rightarrow> verdict" where
  "should_panic_with expected r =
     (case r of
        Inl (ChannelConflict e chan p task) \<Rightarrow>
          asserting (contains expected (channel_panic_message e chan task (Some p))) Completed
      | Inl (ChannelOutOfRange e chan task) \<Rightarrow>
          asserting (contains expected (channel_panic_message e chan task None)) Completed
      | _ \<Rightarrow> Panicked)"

definition pipeline_endpoints_pass :: verdict where
  "pipeline_endpoints_pass = passing (check_channel_conflicts [chan_task 0 1 0, chan_task 1 2 1, chan_task 2 0 2])"

definition task_may_hold_both_ends_of_different_channels :: verdict where
  "task_may_hold_both_ends_of_different_channels =
     passing (check_channel_conflicts [chan_task 0 1 2, chan_task 1 2 1])"

definition two_senders_on_one_channel_halt :: verdict where
  "two_senders_on_one_channel_halt =
     should_panic_with ''CHANNEL CONFLICT: sender of channel 0 claimed by task 0 and task 1''
       (check_channel_conflicts [chan_task 0 1 0, chan_task 1 1 0])"

definition two_receivers_on_one_channel_halt :: verdict where
  "two_receivers_on_one_channel_halt =
     should_panic_with ''CHANNEL CONFLICT: receiver of channel 3 claimed by task 1 and task 2''
       (check_channel_conflicts [chan_task 0 (push_bit 3 1) 0, chan_task 1 0 (push_bit 3 1), chan_task 2 0 (push_bit 3 1)])"

definition channel_id_beyond_max_channels_halts :: verdict where
  "channel_id_beyond_max_channels_halts =
     should_panic_with ''CHANNEL ERROR: sender channel ID 8 out of range''
       (check_channel_conflicts [chan_task 0 (push_bit 8 1) 0])"

definition empty_registry_passes_channel_check :: verdict where
  "empty_registry_passes_channel_check = passing (check_channel_conflicts [None, None])"

section \<open>Build-time generator\<close>

definition gen_task :: "u8 \<Rightarrow> u32 \<Rightarrow> u32 \<Rightarrow> task_config" where
  "gen_task priority exclusive required =
     \<lparr>tc_priority = priority, tc_exclusive_cap_mask = exclusive, tc_required_cap_mask = required\<rparr>"

definition UART0 :: u32 where "UART0 = push_bit 0 1"

definition expecting_mip :: "task_config list \<Rightarrow> u8 list \<Rightarrow> verdict \<Rightarrow> verdict" where
  "expecting_mip tasks mip rest = calling (compute_mip tasks) (\<lambda>m. asserting (m = mip) rest)"

definition empty_task_set :: verdict where
  "empty_task_set =
     expecting_mip [] [] (calling (find_cycle_back_edges []) (\<lambda>es. asserting (es = []) Completed))"

definition single_task_mip_is_own_priority :: verdict where
  "single_task_mip_is_own_priority = expecting_mip [gen_task 4 UART0 UART0] [4] Completed"

definition demo_h_m_l :: verdict where
  "demo_h_m_l =
     (let tasks = [gen_task 1 UART0 0, gen_task 2 0 0, gen_task 3 0 UART0];
          edges = build_edges tasks
      in asserting (edges ! 0 ! 2)
         (asserting (\<not> edges ! 2 ! 0 \<and> \<not> edges ! 0 ! 1 \<and> \<not> edges ! 1 ! 2)
         (expecting_mip tasks [3, 2, 3]
         (calling (find_cycle_back_edges tasks) (\<lambda>es. asserting (es = []) Completed)))))"

definition chain_inherits_transitively :: verdict where
  "chain_inherits_transitively =
     expecting_mip [gen_task 1 (push_bit 0 1) 0, gen_task 2 (push_bit 1 1) (push_bit 0 1), gen_task 9 0 (push_bit 1 1)]
       [9, 9, 9] Completed"

definition diamond_reaches_sink_once :: verdict where
  "diamond_reaches_sink_once =
     expecting_mip [gen_task 1 (push_bit 0 1) 0, gen_task 2 (push_bit 1 1) (push_bit 0 1),
                    gen_task 3 (push_bit 2 1) (push_bit 0 1), gen_task 7 0 (push_bit 1 1 OR push_bit 2 1)]
       [7, 7, 7, 7] Completed"

definition unrelated_tasks_keep_own_priority :: verdict where
  "unrelated_tasks_keep_own_priority =
     expecting_mip [gen_task 5 (push_bit 0 1) 0, gen_task 1 (push_bit 1 1) 0, gen_task 3 0 (push_bit 2 1)]
       [5, 1, 3] Completed"

definition mip_never_below_own_priority :: verdict where
  "mip_never_below_own_priority = expecting_mip [gen_task 8 UART0 0, gen_task 1 0 UART0] [8, 1] Completed"

definition two_cycle_is_reported_and_bfs_terminates :: verdict where
  "two_cycle_is_reported_and_bfs_terminates =
     (let tasks = [gen_task 2 (push_bit 0 1) (push_bit 1 1), gen_task 4 (push_bit 1 1) (push_bit 0 1)] in
      expecting_mip tasks [4, 4]
        (calling (find_cycle_back_edges tasks) (\<lambda>es. asserting (length es = 1) Completed)))"

definition parses_decimal_hex_and_tab_indented_fields :: verdict where
  "parses_decimal_hex_and_tab_indented_fields =
     (let src = unlines
          [''pub static TASK_A: TaskConfig = TaskConfig {'',
           [CHR 0x09] @ ''priority: 7,'',
           [CHR 0x09] @ ''exclusive_cap_mask: 0x0000_0003,'',
           [CHR 0x09] @ ''required_cap_mask: 12,'',
           ''};'',
           ''pub static OTHER: u32 = 5;'',
           ''pub static TASK_B: TaskConfig = TaskConfig {'',
           ''    priority: 0x10,'',
           ''};'']
      in asserting (parse_task_configs src = [gen_task 7 3 12, gen_task 16 0 0]) Completed)"

definition field_prefix_does_not_match_longer_name :: verdict where
  "field_prefix_does_not_match_longer_name =
     (let block = unlines [''    priority_class: 9,'', ''    priority: 2,''] in
      asserting (parse_u32_field block ''priority'' = 2) Completed)"

definition render_pads_to_max_tasks :: verdict where
  "render_pads_to_max_tasks =
     (let out = render_ccg_constants [\<lparr>mt_const_name = ''X'', mt_source = ''x.rs'', mt_mip = [3, 2, 3]\<rparr>] 6;
          expected = ''pub const X: [u8; 6] = [3, 2, 3, 0, 0, 0];'' @ [CHR 0x0A]
      in asserting (drop (length out - length expected) out = expected) Completed)"

definition committed_ccg_constants_match_generator :: verdict where
  "committed_ccg_constants_match_generator =
     calling (compute_mip (parse_task_configs demo_tasks_rs)) (\<lambda>hml.
     calling (compute_mip (parse_task_configs pipeline_tasks_rs)) (\<lambda>pipe.
       let tables =
         [\<lparr>mt_const_name = snd (TASK_SETS ! 0), mt_source = fst (TASK_SETS ! 0), mt_mip = hml\<rparr>,
          \<lparr>mt_const_name = snd (TASK_SETS ! 1), mt_source = fst (TASK_SETS ! 1), mt_mip = pipe\<rparr>]
       in asserting (render_ccg_constants tables MAX_TASKS = ccg_constants_rs) Completed))"

definition generator_test_sets :: "task_config list list" where
  "generator_test_sets =
     [[gen_task 1 UART0 0, gen_task 2 0 0, gen_task 3 0 UART0],
      [gen_task 1 (push_bit 0 1) 0, gen_task 2 (push_bit 1 1) (push_bit 0 1), gen_task 9 0 (push_bit 1 1)],
      [gen_task 2 (push_bit 0 1) (push_bit 1 1), gen_task 4 (push_bit 1 1) (push_bit 0 1)],
      [gen_task 5 (push_bit 0 1) 0, gen_task 1 (push_bit 1 1) 0, gen_task 3 0 (push_bit 2 1)],
      [gen_task 1 (push_bit 0 1) 0, gen_task 2 (push_bit 1 1) (push_bit 0 1),
       gen_task 3 (push_bit 2 1) (push_bit 0 1), gen_task 7 0 6]]"

definition registry_for :: "task_config list \<Rightarrow> task_descriptor option list res" where
  "registry_for tasks =
     fold_res (\<lambda>(i, tc) reg. arr_set reg i (Some (with_capabilities (of_nat i) (tc_priority tc) 0 16 0 0
         (tc_exclusive_cap_mask tc) 0 (tc_required_cap_mask tc))))
       (enumerate 0 tasks) (replicate MAX_TASKS None)"

definition generator_agrees_with_in_kernel_algorithm :: verdict where
  "generator_agrees_with_in_kernel_algorithm =
     foldr (\<lambda>tasks rest.
       calling (registry_for tasks) (\<lambda>reg.
       calling (bind_res (ccg_build reg) (\<lambda>g. compute_mip_values g reg)) (\<lambda>kernel.
         expecting_mip tasks (take (length tasks) kernel) rest))) generator_test_sets Completed"

section \<open>They pass\<close>

definition all_pass :: "verdict list \<Rightarrow> bool" where
  "all_pass vs = list_all (\<lambda>v. v = Completed) vs"

lemma all_pass_append [simp]: "all_pass (vs @ ws) \<longleftrightarrow> all_pass vs \<and> all_pass ws"
  by (simp add: all_pass_def)

definition queue_tests :: "verdict list" where
  "queue_tests =
     [pops_highest_priority_first, equal_priorities_leave_in_fifo_order, reinserted_task_goes_behind_equal_peers,
      fifo_survives_sequence_wraparound, remove_keeps_heap_order]"

definition pmp_tests :: "verdict list" where
  "pmp_tests =
     [napot_encoding_of_4k_region, napot_encoding_of_flash, misaligned_or_odd_sized_region_falls_back_to_tor,
      napot_region_uses_high_entry_only, empty_region_grants_nothing,
      user_task_gets_rw_without_execute_and_machine_task_gets_nothing, mode_bits_match_privileged_spec]"

definition syscall_tests :: "verdict list" where
  "syscall_tests =
     [buffer_inside_range_is_readable, buffer_crossing_range_end_is_rejected,
      buffer_spanning_two_adjacent_ranges_is_rejected, wrapping_buffer_is_rejected, empty_buffer_is_accepted,
      console_capability_gates_logging, access_faults_are_named]"

definition frame_tests :: "usize \<Rightarrow> usize \<Rightarrow> verdict list" where
  "frame_tests buf stacks =
     [init_frame_places_frame_below_kernel_stack_top buf, kernel_stacks_are_disjoint_and_aligned stacks]"

definition region_and_message_tests :: "verdict list" where
  "region_and_message_tests =
     [region_accessors, contains_works, no_overlap_adjacent, message_round_trips_bytes,
      oversized_message_is_rejected, out_of_range_channel_is_none, decode_maps_error_codes]"

definition line_tests :: "verdict list" where
  "line_tests = [line_buf_formats_numbers, line_buf_formats_hex, line_buf_truncates_at_capacity]"

definition capability_tests :: "verdict list" where
  "capability_tests =
     [test_no_conflict_passes, test_exclusive_conflict_halts, test_shared_capability_allowed,
      test_multiple_exclusive_same_task_ok, test_empty_registry_passes, test_none_slots_ignored]"

definition endpoint_tests :: "verdict list" where
  "endpoint_tests =
     [pipeline_endpoints_pass, task_may_hold_both_ends_of_different_channels, two_senders_on_one_channel_halt,
      two_receivers_on_one_channel_halt, channel_id_beyond_max_channels_halts, empty_registry_passes_channel_check]"

definition generator_tests :: "verdict list" where
  "generator_tests =
     [empty_task_set, single_task_mip_is_own_priority, demo_h_m_l, chain_inherits_transitively,
      diamond_reaches_sink_once, unrelated_tasks_keep_own_priority, mip_never_below_own_priority,
      two_cycle_is_reported_and_bfs_terminates, parses_decimal_hex_and_tab_indented_fields,
      field_prefix_does_not_match_longer_name, render_pads_to_max_tasks, generator_agrees_with_in_kernel_algorithm]"

definition unit_tests :: "usize \<Rightarrow> usize \<Rightarrow> verdict list" where
  "unit_tests buf stacks =
     queue_tests @ pmp_tests @ syscall_tests @ frame_tests buf stacks @ region_and_message_tests @ line_tests @
     capability_tests @ endpoint_tests @ generator_tests @ [committed_ccg_constants_match_generator]"

text \<open>Bounds on addresses are checked on words, not on the numbers they stand for, when tests run.\<close>

lemma checked_add_code [code]: "checked_add a b = (if b \<le> - 1 - a then Some (a + b) else None)"
proof -
  have "unat (- 1 :: usize) = 2 ^ 32 - 1" by (simp add: unsigned_minus_1_eq_mask mask_eq_exp_minus_1)
  then have "unat (- 1 - a) = 2 ^ 32 - 1 - unat a"
    using unat_u32_less [of a] by (simp add: unat_sub_u32)
  then show ?thesis using unat_u32_less [of a] unat_u32_less [of b] by (auto simp: checked_add_def word_le_nat_alt)
qed

lemma queue_tests_pass: "all_pass queue_tests" by code_simp
lemma pmp_tests_pass: "all_pass pmp_tests" by code_simp
lemma syscall_tests_pass: "all_pass syscall_tests" by code_simp
lemma region_and_message_tests_pass: "all_pass region_and_message_tests" by code_simp
lemma capability_tests_pass: "all_pass capability_tests" by code_simp
lemma endpoint_tests_pass: "all_pass endpoint_tests" by code_simp
lemma generator_tests_pass: "all_pass generator_tests" by code_simp

lemma line_tests_pass: "all_pass line_tests"
  by (simp add: all_pass_def line_tests_def line_buf_formats_numbers_def line_buf_formats_hex_def
      line_buf_truncates_at_capacity_def line_text asserting_def decimal.simps bytes_of_def HEX_def upt_rec)

lemma mod16_add:
  assumes "a mod 16 = (0 :: usize)" and "b mod 16 = 0"
  shows "(a + b) mod 16 = 0"
proof -
  have "unat a mod 16 = 0" "unat b mod 16 = 0"
    using assms by (simp_all add: unat_eq_zero [symmetric] unat_mod_distrib del: unat_eq_0)
  then have "unat (a + b) mod 16 = 0" by (simp add: unat_word_ariths mod_mod_cancel) presburger
  then show ?thesis by (simp add: unat_eq_zero [symmetric] unat_mod_distrib del: unat_eq_0)
qed

lemma aligned_mod16: "(16 * w) mod 16 = (0 :: usize)"
  by (simp add: unat_eq_zero [symmetric] unat_mod_distrib unat_word_ariths mod_mod_cancel del: unat_eq_0)

lemma frame_tests_pass: "all_pass (frame_tests buf (16 * stacks))"
  by (simp add: all_pass_def frame_tests_def init_frame_places_frame_below_kernel_stack_top_def init_frame_def Let_def
      kernel_stacks_are_disjoint_and_aligned_def kernel_stack_top_def asserting_def KERNEL_STACK_SIZE_def upt_rec
      mod16_add aligned_mod16)

lemma committed_test_passes: "committed_ccg_constants_match_generator = Completed"
  using committed_configs committed_tables committed_rendered
  by (simp add: committed_ccg_constants_match_generator_def committed_def TASK_SETS_def asserting_def Let_def)

lemma unit_tests_all_pass: "all_pass (unit_tests buf (16 * stacks))"
  unfolding unit_tests_def
  by (simp add: queue_tests_pass pmp_tests_pass syscall_tests_pass frame_tests_pass region_and_message_tests_pass
      line_tests_pass capability_tests_pass endpoint_tests_pass generator_tests_pass committed_test_passes)
     (simp add: all_pass_def)

end
