(* ===== verification/Scheduler_Tests.thy ===== *)
theory Scheduler_Tests
  imports Unit_Tests Cycle_Detection
begin

text \<open>
  The tests of \<^verbatim>\<open>scheduler/tests.rs\<close> and \<^verbatim>\<open>scheduler/ipc_tests.rs\<close> as runs of the model. The second file drives the
  system-call dispatcher with synthetic trap frames: tasks block on channels, wake each other and
  preempt, through the same definitions the kernel's theorems are about.
\<close>

section \<open>Driving the dispatcher\<close>

text \<open>
  A simulated task has 256 bytes of memory and a frame outside it; the addresses are fixed here, the
  allocator of the host chooses them in the test build. On the host there is no flash image and no
  memory protection.
\<close>

definition host :: platform where
  "host = \<lparr>pmp_feature = False, kernel_stacks = 0, flash_image = (0, 0), kernel_data = (\<lambda>_. False)\<rparr>"

definition sim_mem :: "u8 \<Rightarrow> usize" where
  "sim_mem i = 0x10000 + ucast i * 0x100"

definition sim_frame :: "u8 \<Rightarrow> usize" where
  "sim_frame i = 0x20000 + ucast i * 0x100"

definition new_frame :: trap_frame where
  "new_frame = \<lparr>regs = replicate 32 0, mepc = 0, mstatus = 0, mcause = 0, mtval = 0\<rparr>"

definition sim_register :: "u8 \<Rightarrow> task_descriptor \<Rightarrow> kernel \<Rightarrow> kernel res" where
  "sim_register i d k =
     register_task (d\<lparr>td_stack_ptr := sim_frame i\<rparr>) (k\<lparr>frames := (frames k)(sim_frame i \<mapsto> new_frame)\<rparr>)"

definition sim_task :: "u8 \<Rightarrow> u8 \<Rightarrow> u32 \<Rightarrow> u32 \<Rightarrow> kernel \<Rightarrow> kernel res" where
  "sim_task i pri sends receives =
     sim_register i (with_channels sends receives (task_new i pri (sim_mem i) 256 (sim_mem i) (sim_mem i + 256)))"

definition sim_idle :: "u8 \<Rightarrow> kernel \<Rightarrow> kernel res" where
  "sim_idle i = sim_register i (with_mode Machine (task_new i 0 0 16 0 0))"

definition reset_registry_for_test :: "kernel \<Rightarrow> kernel" where
  "reset_registry_for_test k = k\<lparr>registry := replicate MAX_TASKS None, task_count := 0\<rparr>"

definition reset_for_test :: "kernel \<Rightarrow> kernel" where
  "reset_for_test k =
     reset_registry_for_test (k\<lparr>ready_queue := pq_new MAX_TASKS, current_task_idx := NO_TASK, ticks_since_switch := 0\<rparr>)"

text \<open>The loop that empties a channel is the loop of \<open>Channel\<close>'s destructor.\<close>

definition setup_test :: "kernel \<Rightarrow> kernel res" where
  "setup_test k =
     fold_res (\<lambda>ch k1. case channel_at (channels k1) ch of
         None \<Rightarrow> Inl IndexOutOfBounds
       | Some c \<Rightarrow> bind_res (channel_drop c) (\<lambda>c'. Inr (k1\<lparr>channels := (channels k1)[ch := c']\<rparr>)))
       [0..<MAX_CHANNELS] (reset_for_test k)"

definition host_kernel :: kernel where
  "host_kernel =
     initial_kernel (\<lambda>_. 0) \<lparr>pmpaddr = (\<lambda>_. 0), pmpcfg0 = 0, pmpcfg3 = 0\<rparr> \<lparr>tick_count = 0, next_deadline = 0, mtimecmp = 0\<rparr> Map.empty"

text \<open>A test body starts with the tasks registered and the ready queue filled.\<close>

definition sim_start :: "(kernel \<Rightarrow> kernel res) list \<Rightarrow> (kernel \<Rightarrow> verdict) \<Rightarrow> verdict" where
  "sim_start registrations body =
     calling (setup_test host_kernel) (\<lambda>k0.
     calling (fold_res (\<lambda>r k. r k) registrations k0) (\<lambda>k1.
     calling (populate_ready_queue host k1) body))"

definition sim_call ::
  "u8 \<Rightarrow> usize \<Rightarrow> usize \<Rightarrow> usize \<Rightarrow> usize \<Rightarrow> usize \<Rightarrow> kernel \<Rightarrow> (usize \<times> kernel) res" where
  "sim_call i n a0 a1 a2 a3 k =
     bind_res (upd_frame (sim_frame i) (\<lambda>f. f\<lparr>regs := (regs f)[REG_A7 := n, REG_A0 := a0, REG_A1 := a1, REG_A2 := a2, REG_A3 := a3],
         mepc := 0x1004\<rparr>) k) (dispatch host (sim_frame i))"

definition sim_syscall ::
  "u8 \<Rightarrow> usize \<Rightarrow> usize \<Rightarrow> usize \<Rightarrow> usize \<Rightarrow> usize \<Rightarrow> kernel \<Rightarrow> (usize \<Rightarrow> kernel \<Rightarrow> verdict) \<Rightarrow> verdict" where
  "sim_syscall i n a0 a1 a2 a3 k rest = calling (sim_call i n a0 a1 a2 a3 k) (\<lambda>(next, k1). rest next k1)"

definition sim_a0 :: "u8 \<Rightarrow> kernel \<Rightarrow> usize option" where
  "sim_a0 i k = map_option (\<lambda>f. regs f ! REG_A0) (frames k (sim_frame i))"

definition sim_state :: "nat \<Rightarrow> kernel \<Rightarrow> (task_state \<times> block_reason) option" where
  "sim_state slot k = map_option (\<lambda>t. (td_state t, td_blocked_on t)) (registry k ! slot)"

definition sim_write :: "u8 \<Rightarrow> u8 list \<Rightarrow> kernel \<Rightarrow> kernel" where
  "sim_write i bs k = k\<lparr>mem := write_bytes (sim_mem i) bs (mem k)\<rparr>"

definition consumer_blocks_on_empty_and_preempts_producer_when_data_arrives :: verdict where
  "consumer_blocks_on_empty_and_preempts_producer_when_data_arrives =
     sim_start [sim_task 0 1 1 0, sim_task 1 3 0 1, sim_idle 2] (\<lambda>k0.
       asserting (current_task_idx k0 = 1)
       (sim_syscall 1 SYS_RECEIVE 0 (sim_mem 1) 16 0 k0 (\<lambda>next k1.
        asserting (next = sim_frame 0)
       (asserting (sim_state 1 k1 = Some (Blocked, Receive 0))
       (asserting (map_option mepc (frames k1 (sim_frame 1)) = Some 0x1000)
       (asserting (current_task_idx k1 = 0)
       (sim_syscall 0 SYS_SEND 0 (sim_mem 0) 5 0 (sim_write 0 (bytes_of ''hello'') k1) (\<lambda>next k2.
        asserting (sim_a0 0 k2 = Some 0)
       (asserting (next = sim_frame 1)
       (asserting (current_task_idx k2 = 1)
       (asserting (map_option fst (sim_state 0 k2) = Some Ready)
       (sim_syscall 1 SYS_RECEIVE 0 (sim_mem 1) 16 0 k2 (\<lambda>next k3.
        asserting (next = sim_frame 1)
       (asserting (sim_a0 1 k3 = Some 5)
       (asserting (read_bytes (mem k3) (sim_mem 1) 5 = bytes_of ''hello'') Completed)))))))))))))))"

text \<open>The rounds of a loop of sends, with the frames they return to.\<close>

definition sim_send :: "usize \<Rightarrow> kernel \<times> usize list \<Rightarrow> (kernel \<times> usize list) res" where
  "sim_send flags s =
     bind_res (sim_call 0 SYS_SEND 0 (sim_mem 0) 1 flags (fst s)) (\<lambda>(next, k1). Inr (k1, snd s @ [next]))"

definition sim_round :: "nat \<Rightarrow> kernel \<times> usize list \<Rightarrow> (kernel \<times> usize list) res" where
  "sim_round i s = sim_send 0 (sim_write 0 [of_nat i] (fst s), snd s)"

definition sim_try_round :: "nat \<Rightarrow> kernel \<times> usize list \<Rightarrow> (kernel \<times> usize list) res" where
  "sim_try_round i s = sim_send FLAG_NONBLOCK s"

definition producer_blocks_on_full_and_resumes_when_consumer_reads :: verdict where
  "producer_blocks_on_full_and_resumes_when_consumer_reads =
     sim_start [sim_task 0 3 1 0, sim_task 1 1 0 1, sim_idle 2] (\<lambda>k0.
       asserting (current_task_idx k0 = 0)
       (calling (fold_res sim_round [0..<CHANNEL_CAPACITY] (k0, []))
         (\<lambda>(k1, nexts). asserting (nexts = replicate CHANNEL_CAPACITY (sim_frame 0))
       (sim_syscall 0 SYS_SEND 0 (sim_mem 0) 1 0 k1 (\<lambda>next k2.
        asserting (next = sim_frame 1)
       (asserting (sim_state 0 k2 = Some (Blocked, Send 0))
       (sim_syscall 1 SYS_RECEIVE 0 (sim_mem 1) 16 0 k2 (\<lambda>next k3.
        asserting (mem k3 (sim_mem 1) = 0)
       (asserting (next = sim_frame 0)
       (asserting (current_task_idx k3 = 0)
       (sim_syscall 0 SYS_SEND 0 (sim_mem 0) 1 0 (sim_write 0 [99] k3) (\<lambda>next k4.
        asserting (next = sim_frame 0)
       (asserting (sim_a0 0 k4 = Some 0) Completed)))))))))))))"

definition nonblocking_variants_return_eagain :: verdict where
  "nonblocking_variants_return_eagain =
     sim_start [sim_task 0 1 1 1, sim_idle 1] (\<lambda>k0.
       sim_syscall 0 SYS_RECEIVE 0 (sim_mem 0) 16 FLAG_NONBLOCK k0 (\<lambda>_ k1.
        asserting (sim_a0 0 k1 = Some EAGAIN)
       (asserting (map_option fst (sim_state 0 k1) = Some Running)
       (calling (fold_res sim_try_round [0..<CHANNEL_CAPACITY] (k1, [])) (\<lambda>(k2, _).
        sim_syscall 0 SYS_SEND 0 (sim_mem 0) 1 FLAG_NONBLOCK k2 (\<lambda>_ k3.
        asserting (sim_a0 0 k3 = Some EAGAIN) Completed))))))"

definition endpoint_capability_and_arguments_are_checked :: verdict where
  "endpoint_capability_and_arguments_are_checked =
     sim_start [sim_task 0 1 1 2, sim_idle 1] (\<lambda>k0.
       let b = sim_mem 0 in
       sim_syscall 0 SYS_SEND 1 b 1 0 k0 (\<lambda>_ k1. asserting (sim_a0 0 k1 = Some EPERM)
      (sim_syscall 0 SYS_RECEIVE 0 b 1 0 k1 (\<lambda>_ k2. asserting (sim_a0 0 k2 = Some EPERM)
      (sim_syscall 0 SYS_SEND 0 b (of_nat MSG_MAX + 1) 0 k2 (\<lambda>_ k3. asserting (sim_a0 0 k3 = Some EINVAL)
      (sim_syscall 0 SYS_SEND 99 b 1 0 k3 (\<lambda>_ k4. asserting (sim_a0 0 k4 = Some EINVAL)
      (sim_syscall 0 SYS_SEND 0 0x10 4 0 k4 (\<lambda>_ k5. asserting (sim_a0 0 k5 = Some EFAULT)
      (sim_syscall 0 SYS_RECEIVE 1 (b + 250) 16 0 k5 (\<lambda>_ k6. asserting (sim_a0 0 k6 = Some EFAULT) Completed))))))))))))"

section \<open>Contention and inherited priorities\<close>

text \<open>
  The tests compute the inherited priorities with a search of their own, which writes into the table
  as it goes.
\<close>

function mip_local_bfs ::
  "ccg \<Rightarrow> task_descriptor option list \<Rightarrow> nat \<Rightarrow> nat list \<Rightarrow> bool list \<Rightarrow> nat \<Rightarrow> nat \<Rightarrow> u8 list \<Rightarrow> u8 list res" where
  "mip_local_bfs g reg src queue visited head tail mip =
     (if head < tail then
        bind_res (arr_get queue head) (\<lambda>cur.
        bind_res (arr_get reg cur) (\<lambda>slot.
        bind_res (case slot of
                    None \<Rightarrow> Inr mip
                  | Some d \<Rightarrow> bind_res (arr_get mip src) (\<lambda>m.
                      if td_priority d > m then arr_set mip src (td_priority d) else Inr mip)) (\<lambda>mip1.
        bind_res (successors g cur) (\<lambda>succs.
        bind_res (fold_res (bfs_visit reg) succs (queue, visited, tail)) (\<lambda>st.
          mip_local_bfs g reg src (fst st) (fst (snd st)) (head + 1) (snd (snd st)) mip1)))))
      else Inr mip)"
  by pat_completeness auto
termination
proof (relation "measure (\<lambda>(g, reg, src, queue, visited, head, tail, mip). length queue - head)", goal_cases)
  case (2 g reg src queue visited head tail mip cur slot mip1 succs st)
  obtain q v t where "st = (q, v, t)" by (cases st) auto
  with 2 fold_bfs_visit_length [of reg succs queue visited tail q v t] show ?case
    by (auto simp: arr_get_def split: if_splits)
qed simp

definition compute_mip_local :: "task_descriptor option list \<Rightarrow> u8 list res" where
  "compute_mip_local reg =
     bind_res (ccg_build reg) (\<lambda>g.
      bind_res (fold_res (\<lambda>(i, slot) mip. case slot of None \<Rightarrow> Inr mip | Some d \<Rightarrow> arr_set mip i (td_priority d))
                  (enumerate 0 reg) (replicate MAX_TASKS 0)) (\<lambda>seeded.
        fold_res (\<lambda>src mip. bind_res (arr_get reg src) (\<lambda>slot.
            if slot = None then Inr mip
            else bind_res (arr_set (replicate MAX_TASKS 0) 0 src) (\<lambda>queue.
                 bind_res (arr_set (replicate MAX_TASKS False) src True) (\<lambda>visited.
                   mip_local_bfs g reg src queue visited 0 1 mip)))) [0..<MAX_TASKS] seeded))"

text \<open>The task sets of the tests differ in the distance of the tasks' memory, which plays no role.\<close>

definition test_registry :: "usize \<Rightarrow> (u8 \<times> u32 \<times> u32) list \<Rightarrow> task_descriptor option list" where
  "test_registry step tasks =
     map (\<lambda>(i, p, exclusive, required).
       Some (with_capabilities (of_nat i) p (0x20000000 + of_nat i * step) 256 (0x20001000 + of_nat i * step)
         (0x20002000 + of_nat i * step) exclusive 0 required)) (enumerate 0 tasks) @
     replicate (MAX_TASKS - length tasks) None"

definition cap0 :: u32 where "cap0 = push_bit 0 1"
definition cap1 :: u32 where "cap1 = push_bit 1 1"
definition cap2 :: u32 where "cap2 = push_bit 2 1"

definition chain_registry :: "task_descriptor option list" where
  "chain_registry = test_registry 0x2000 [(1, cap0, 0), (3, cap1, cap0), (5, 0, cap1)]"

definition two_cycle_registry :: "task_descriptor option list" where
  "two_cycle_registry = test_registry 0x2000 [(2, cap0, cap1), (4, cap1, cap0)]"

definition diamond_registry :: "task_descriptor option list" where
  "diamond_registry =
     test_registry 0x2000 [(1, cap0, 0), (2, cap1, cap0), (3, cap2, cap0), (7, 0, cap1 OR cap2)]"

definition expecting_local :: "task_descriptor option list \<Rightarrow> (u8 list \<Rightarrow> verdict) \<Rightarrow> verdict" where
  "expecting_local reg rest = calling (compute_mip_local reg) rest"

definition srp_ceiling_uart0_equals_3 :: verdict where
  "srp_ceiling_uart0_equals_3 = asserting (srp_ceiling demo_registry UART0_BIT = 3) Completed"

definition mip_l_meets_srp_ceiling_for_uart0 :: verdict where
  "mip_l_meets_srp_ceiling_for_uart0 =
     expecting_local demo_registry (\<lambda>mips. asserting (srp_ceiling demo_registry UART0_BIT \<le> mips ! 0) Completed)"

definition mip_l_is_exactly_3 :: verdict where
  "mip_l_is_exactly_3 = expecting_local demo_registry (\<lambda>mips. asserting (mips ! 0 = 3) Completed)"

definition mip_m_is_zero_no_contention :: verdict where
  "mip_m_is_zero_no_contention = expecting_local demo_registry (\<lambda>mips. asserting (mips ! 1 = 2) Completed)"

definition mip_h_equals_own_priority_no_outgoing_edges :: verdict where
  "mip_h_equals_own_priority_no_outgoing_edges =
     expecting_local demo_registry (\<lambda>mips. asserting (mips ! 2 = 3) Completed)"

definition effective_priority_l_beats_m_preventing_preemption :: verdict where
  "effective_priority_l_beats_m_preventing_preemption =
     expecting_local demo_registry (\<lambda>mips.
       (case (demo_registry ! 0, demo_registry ! 1) of
          (Some l, Some m) \<Rightarrow> asserting (td_priority m < max (td_priority l) (mips ! 0)) Completed
        | _ \<Rightarrow> Panicked))"

definition ccg_has_edge_l_to_h :: verdict where
  "ccg_has_edge_l_to_h = calling (ccg_build demo_registry) (\<lambda>g. asserting (has_edge g 0 2) Completed)"

definition ccg_no_edge_h_to_l :: verdict where
  "ccg_no_edge_h_to_l = calling (ccg_build demo_registry) (\<lambda>g. asserting (\<not> has_edge g 2 0) Completed)"

definition ccg_no_edges_involving_m :: verdict where
  "ccg_no_edges_involving_m =
     calling (ccg_build demo_registry) (\<lambda>g.
      asserting (list_all (\<lambda>i. \<not> has_edge g 1 i) [0..<3])
      (asserting (list_all (\<lambda>i. \<not> has_edge g i 1) [0..<3]) Completed))"

definition mip_propagates_transitively_through_chain :: verdict where
  "mip_propagates_transitively_through_chain =
     expecting_local chain_registry (\<lambda>mips.
       asserting (mips ! 0 = 5) (asserting (mips ! 1 = 5) (asserting (mips ! 2 = 5) Completed)))"

definition detect_cycle_finds_two_cycle :: verdict where
  "detect_cycle_finds_two_cycle =
     calling (bind_res (ccg_build two_cycle_registry) detect_cycle) (\<lambda>r. asserting (r \<noteq> None) Completed)"

definition detect_cycle_demo_registry_is_acyclic :: verdict where
  "detect_cycle_demo_registry_is_acyclic =
     calling (bind_res (ccg_build demo_registry) detect_cycle) (\<lambda>r. asserting (r = None) Completed)"

definition detect_cycle_empty_registry_is_acyclic :: verdict where
  "detect_cycle_empty_registry_is_acyclic =
     calling (bind_res (ccg_build (replicate MAX_TASKS None)) detect_cycle) (\<lambda>r. asserting (r = None) Completed)"

definition detect_cycle_chain_is_acyclic :: verdict where
  "detect_cycle_chain_is_acyclic =
     calling (bind_res (ccg_build chain_registry) detect_cycle) (\<lambda>r. asserting (r = None) Completed)"

definition no_edges_below :: "nat \<Rightarrow> ccg \<Rightarrow> bool" where
  "no_edges_below n g = list_all (\<lambda>i. list_all (\<lambda>j. \<not> has_edge g i j) [0..<n]) [0..<n]"

definition ccg_empty_registry_no_panic :: verdict where
  "ccg_empty_registry_no_panic =
     calling (ccg_build (replicate MAX_TASKS None)) (\<lambda>g.
      asserting (ccg_task_count g = 0) (asserting (no_edges_below MAX_TASKS g) Completed))"

definition ccg_single_task_no_edges :: verdict where
  "ccg_single_task_no_edges =
     calling (ccg_build (test_registry 0 [(5, 1, 1)])) (\<lambda>g.
      asserting (ccg_task_count g = 1) (asserting (no_edges_below MAX_TASKS g) Completed))"

definition ccg_cyclic_graph_bfs_terminates :: verdict where
  "ccg_cyclic_graph_bfs_terminates =
     calling (ccg_build two_cycle_registry) (\<lambda>g.
      asserting (has_edge g 0 1) (asserting (has_edge g 1 0)
      (expecting_local two_cycle_registry (\<lambda>mips.
         asserting (mips ! 0 = 4) (asserting (mips ! 1 = 4) Completed)))))"

definition ccg_no_contention_tasks_have_own_mip :: verdict where
  "ccg_no_contention_tasks_have_own_mip =
     (let reg = test_registry 0x1000 (map (\<lambda>i. (of_nat (i + 1), push_bit i 1, 0)) [0..<8])
      in calling (ccg_build reg) (\<lambda>g. asserting (ccg_task_count g = 8)
         (asserting (no_edges_below 8 g)
         (expecting_local reg (\<lambda>mips.
            asserting (list_all (\<lambda>(i, m). m = of_nat (i + 1)) (take 8 (enumerate 0 mips))) Completed)))))"

definition ccg_diamond_graph_mip_reaches_sink :: verdict where
  "ccg_diamond_graph_mip_reaches_sink =
     calling (ccg_build diamond_registry) (\<lambda>g.
      asserting (has_edge g 0 1) (asserting (has_edge g 0 2) (asserting (has_edge g 1 3) (asserting (has_edge g 2 3)
      (asserting (\<not> has_edge g 0 3)
      (expecting_local diamond_registry (\<lambda>mips.
         asserting (mips ! 0 = 7) (asserting (mips ! 1 = 7) (asserting (mips ! 2 = 7) (asserting (mips ! 3 = 7)
         Completed))))))))))"

section \<open>The preemption rule\<close>

definition preempts_for_strictly_higher_priority :: verdict where
  "preempts_for_strictly_higher_priority = asserting (should_preempt 2 (Some 3) 0) Completed"

definition no_preemption_when_queue_empty :: verdict where
  "no_preemption_when_queue_empty = asserting (\<not> should_preempt 0 None (TIME_QUANTUM_TICKS * 10)) Completed"

definition no_preemption_by_lower_priority_even_after_quantum :: verdict where
  "no_preemption_by_lower_priority_even_after_quantum =
     asserting (\<not> should_preempt 3 (Some 2) (TIME_QUANTUM_TICKS * 10)) Completed"

definition equal_priority_waits_for_quantum :: verdict where
  "equal_priority_waits_for_quantum =
     asserting (\<not> should_preempt 3 (Some 3) (TIME_QUANTUM_TICKS - 1))
     (asserting (should_preempt 3 (Some 3) TIME_QUANTUM_TICKS) Completed)"

definition idle_is_preempted_by_any_real_task :: verdict where
  "idle_is_preempted_by_any_real_task = asserting (should_preempt 0 (Some 1) 0) Completed"

section \<open>They pass\<close>

definition ipc_tests :: "verdict list" where
  "ipc_tests =
     [consumer_blocks_on_empty_and_preempts_producer_when_data_arrives,
      producer_blocks_on_full_and_resumes_when_consumer_reads, nonblocking_variants_return_eagain,
      endpoint_capability_and_arguments_are_checked]"

definition ccg_tests :: "verdict list" where
  "ccg_tests =
     [srp_ceiling_uart0_equals_3, mip_l_meets_srp_ceiling_for_uart0, mip_l_is_exactly_3, mip_m_is_zero_no_contention,
      mip_h_equals_own_priority_no_outgoing_edges, effective_priority_l_beats_m_preventing_preemption,
      ccg_has_edge_l_to_h, ccg_no_edge_h_to_l, ccg_no_edges_involving_m, mip_propagates_transitively_through_chain,
      detect_cycle_finds_two_cycle, detect_cycle_demo_registry_is_acyclic, detect_cycle_empty_registry_is_acyclic,
      detect_cycle_chain_is_acyclic, ccg_empty_registry_no_panic, ccg_single_task_no_edges,
      ccg_cyclic_graph_bfs_terminates, ccg_no_contention_tasks_have_own_mip, ccg_diamond_graph_mip_reaches_sink]"

definition preemption_tests :: "verdict list" where
  "preemption_tests =
     [preempts_for_strictly_higher_priority, no_preemption_when_queue_empty,
      no_preemption_by_lower_priority_even_after_quantum, equal_priority_waits_for_quantum,
      idle_is_preempted_by_any_real_task]"

lemma ipc_tests_pass: "all_pass ipc_tests" by code_simp
lemma ccg_tests_pass: "all_pass ccg_tests" by code_simp
lemma preemption_tests_pass: "all_pass preemption_tests" by code_simp

text \<open>
  Every unit test of the repository passes on the model: those of the component sources, with the test
  buffer and the kernel stacks at any aligned address, those of the boot scans, of the scheduler and its
  contention graph, and those that drive system calls of several tasks through the dispatcher.
\<close>

theorem repository_tests_pass:
  "all_pass (unit_tests (16 * buf) (16 * stacks) @ ccg_tests @ preemption_tests @ ipc_tests)"
  by (simp add: unit_tests_all_pass ccg_tests_pass preemption_tests_pass ipc_tests_pass)

end
