(* ===== verification/Spec2Isabelle.thy ===== *)
theory Spec2Isabelle
  imports Context_Switch Demo_Bodies Pipeline Static_Checks Build_Script Scheduler_Refinement Kani_Proofs Scheduler_Tests
begin

text \<open>
  This development models FerretOS, a microkernel for 32-bit RISC-V written in Rust, and proves what
  its design documents promise of it: fixed-priority scheduling with precomputed priority
  inheritance, memory isolation between tasks, and channels between them.

  \<^bold>\<open>The program.\<close> \<open>kernel_main\<close> (\<open>src/kernel/src/boot.rs\<close>) registers the tasks of one of the two demo task
  sets and an idle task, checks that no two tasks own the same peripheral or channel endpoint, sets up
  memory protection, the ready queue and one saved register frame per task, and starts the first
  task. From then on the kernel runs only in traps: \<open>trap_handler\<close> receives the frame of the
  interrupted task and returns the frame to resume. System calls and the timer interrupt act on the
  registry, the ready queue, the channels, the timer and the protection registers.

  \<^bold>\<open>The theories.\<close>
  \<^item> \<open>Ferret_Prelude\<close>: machine integers, the fault type, the error monad, checked array access.
  \<^item> \<open>Priority_Queue\<close> (\<open>scheduler/queue.rs\<close>): the binary heap; it implements the interface \<open>bag_queue\<close>
    and runs like a stable priority list.
  \<^item> \<open>Task_Registry\<close> (\<open>memory/task.rs\<close>): descriptors and the registry.
  \<^item> \<open>Capability_Allocator\<close> (\<open>capability/allocator.rs\<close>): the two ownership scans, three instances of
    one locale \<open>owner_table\<close>.
  \<^item> \<open>Graph_Search\<close>, \<open>Contention_Graph\<close> (\<open>scheduler/ccg.rs\<close>, \<open>mip.rs\<close>) and \<open>Ccg_Generator\<close>
    (\<open>build/ccg_gen.rs\<close>): the two computations of the inherited priorities, both instances of
    breadth-first search in a \<open>successor_graph\<close>; \<open>Cycle_Detection\<close>: the iterative and the recursive cycle
    detector, over the same locale; \<open>Config_Source\<close>: the generator's reading and printing of Rust source;
    \<open>Build_Script\<close> (\<open>build.rs\<close>): the build script around it, on a map of files.
  \<^item> \<open>Ipc_Channel\<close> (\<open>ipc/channel.rs\<close>, \<open>ipc/kernel.rs\<close>): the ring buffer, an instance of \<open>bounded_fifo\<close>.
  \<^item> \<open>Memory_Protection\<close> (\<open>memory/pmp.rs\<close>): the register encoding, against the matching rule of the
    privileged specification.
  \<^item> \<open>Uart_Console\<close>, \<open>Task_Stack\<close>, \<open>Machine_Timer\<close>, \<open>Trap_Frame\<close> (\<open>uart.rs\<close>, \<open>memory/stack.rs\<close> and
    \<open>region.rs\<close>, \<open>clint.rs\<close>, \<open>context/mod.rs\<close>).
  \<^item> \<open>Scheduler\<close> (\<open>scheduler/mod.rs\<close>) with \<open>Scheduler_Invariant\<close>, \<open>Scheduler_Entry\<close> and
    \<open>Scheduler_Boot\<close>: the operations on the kernel state, and that each keeps the scheduling invariant.
  \<^item> \<open>Syscall\<close> (\<open>syscall.rs\<close>, the dispatcher of \<open>context/trap.rs\<close>), \<open>Kernel_Invariant\<close> and
    \<open>Syscall_Safety\<close>: the calls, the invariant of the whole kernel, and that every call returns.
  \<^item> \<open>Kernel_Safety\<close>: the step relation \<open>kstep\<close> (a store of the running task outside the memory of the
    kernel, a system call, a timer interrupt) and what every reachable state satisfies.
  \<^item> \<open>Boot\<close> (\<open>boot.rs\<close>, \<open>demo/\<close>, \<open>generated/\<close>): the boot path and the shipped task sets.
  \<^item> \<open>Round_Robin\<close>: what every path through the kernel does to the ready queue, and with it how long a
    ready task can be passed over. \<open>Scheduler_Refinement\<close>: event by event the kernel simulates a labelled
    round-robin scheduler over lists, through a locale of simulations with a budget.
  \<^item> \<open>Fault_Reports\<close> (\<open>capability/allocator.rs\<close>, \<open>panic.rs\<close>): the text printed before a halt, and the boot
    scans with it.
  \<^item> \<open>Kani_Proofs\<close> (\<open>kani_proofs.rs\<close>): the model-checking harnesses, proved for all inputs.
  \<^item> \<open>Unit_Tests\<close>, \<open>Scheduler_Tests\<close> (the tests in the component sources, \<open>capability/tests.rs\<close>,
    \<open>scheduler/tests.rs\<close>, \<open>scheduler/ipc_tests.rs\<close>): the unit tests, run on the model.
  \<^item> \<open>Communication\<close>: runs in which a task is away and what it finds when it is back, stores into the
    memory of the kernel (\<open>mstep\<close>), channels over a run, blocking calls and how they restart.
  \<^item> \<open>Trap_Stub\<close> (the assembly of \<open>context/trap.rs\<close>) and \<open>Context_Switch\<close>: the two stubs, instruction by
    instruction, and that with them the hart implements the frame-level model of the other theories.
  \<^item> \<open>Line_Buffer\<close>, \<open>Task_Library\<close> (\<open>sys.rs\<close>): the library the tasks are linked with; the results its
    wrappers return are stated against the kernel's handlers.
  \<^item> \<open>Demo_Tasks\<close>, \<open>Demo_Bodies\<close> (\<open>demo/\<close>): one iteration of each demo task's loop, as a function of the
    values its system calls return. \<open>Pipeline\<close>: the loops of the three pipeline tasks on the step relation
    of the kernel, and a reading followed from the sensor to the logger.
  \<^item> \<open>Capability_Tokens\<close> (\<open>capability/types.rs\<close>, \<open>wrappers.rs\<close>): the zero-sized token types with their
    traits, and the programs over them that Rust's ownership rules accept. \<open>Static_Checks\<close>: the
    assertions evaluated when the kernel is compiled.

  \<^bold>\<open>State and effects.\<close> The kernel's statics are the fields of one record \<open>kernel\<close>; memory is a
  function from addresses to bytes; the console is the list of bytes written. A panic or a halt is
  the left value of the result type, so every operation is a total function; array accesses and unwraps are
  checked and fail with a fault. Addresses the linker
  chooses and the values the hardware delivers are parameters (\<open>platform\<close>, \<open>boot_env\<close>, \<open>hw_input\<close>).
  No definition uses fuel: every loop terminates by a measure or is a recursion on a list; a busy wait
  is a recursion on the list of the values the clock returns, and its theorem says how far that list
  has to go.

  \<^bold>\<open>Memory of the kernel.\<close> Statics, saved frames and device registers are fields of the state, while \<open>mem\<close>
  holds the memory of the tasks. That they share one address space is the parameter \<open>kernel_data\<close> of the
  platform: the addresses that belong to the kernel. \<open>may_store\<close> says where the machine lets the running task
  store (anywhere in machine mode, where the protection registers grant it in user mode). \<open>kstep\<close> has the
  stores outside \<open>kernel_data\<close>, so a theorem over \<open>kstep\<close> is about tasks that leave the memory of the kernel
  alone; \<open>mstep\<close> adds the others, after which the state is arbitrary. With the feature \<open>pmp\<close>, tasks in user mode
  in expressible regions (word-aligned bounds, as the documented layout has them) and no kernel address in a
  region, \<open>mstep_kstep\<close> shows that the two relations agree, so that the restriction is enforced by the
  hardware; without the feature it is an assumption about the tasks.

  \<^bold>\<open>What is shown.\<close> Of the components: the ready queue is a stable priority list, a channel a bounded
  first-in first-out list, the boot checks accept exactly the admissible task sets, the inherited
  priorities are the maxima over the reachable tasks, in the kernel and in the generator alike. Of the
  running system, in every reachable state: one task runs and none with a higher effective priority
  waits, no holder of a peripheral is kept waiting by a task of lower priority than a task that needs
  it, tasks of equal priority take turns within a bounded number of ticks, every run (within the
  range of the queue's sequence numbers) is, event by event, a run of a round-robin scheduler over lists,
  every system call returns, with protection memory and registers of a task survive
  while others run and a stray store halts the system, channels lose, duplicate and reorder nothing, sleeps
  of up to \<open>2^31\<close> ticks end at the tick asked for.
  Below it: the assembly stubs
  save and restore what the model says. Above it: the library calls return the documented results,
  the demo tasks compute and time what their comments say, up to the wrap-around of the tick
  counter that two theorems exhibit and the average the filter computes after a dropped reading, and
  the pipeline they form delivers every reading it accepts to the logger, in order and unaltered,
  under every interleaving the kernel allows.

  Around it: a build leaves tables that match its task sets and repeats without writing, and the
  repository's model-checking harnesses hold for all inputs; its unit tests pass on the model.

  \<^bold>\<open>Not modelled.\<close> The formatting of panic messages by the standard library, and of Rust's ownership rules
  what the tokens do not use (borrows, lifetimes).
\<close>

section \<open>Boot\<close>

text \<open>
  C1: \<open>kernel_main\<close> halts exactly for the configurations the boot checks reject (a task stack outside
  its region, two owners of a peripheral or of a channel endpoint); otherwise it starts the first
  task in a state that satisfies the kernel invariant, with every task able to run, every descriptor
  as registered but for its inherited priority, and the task stacks' canaries written.
\<close>

theorem boot_establishes_invariant:
  assumes "clean_reset pf r"
  shows "if boot_admissible env
         then \<exists>frame k. kernel_main pf env (initial_kernel m r t fs) = Inr (frame, k) \<and> boot_done pf env m frame k
         else \<exists>e. kernel_main pf env (initial_kernel m r t fs) = Inl e"
  by (rule kernel_main_boots [OF assms])

theorem boot_establishes_invariant_witness:
  "\<exists>frame k. kernel_main demo_platform demo_env demo_reset = Inr (frame, k) \<and>
             boot_done demo_platform demo_env demo_memory frame k"
  using boot_establishes_invariant [OF demo_clean, of demo_env demo_memory
      "\<lparr>tick_count = 0, next_deadline = 0, mtimecmp = 0\<rparr>" Map.empty] linked_admissible [OF demo_linked]
  by (simp add: demo_reset_def)

text \<open>
  With the stacks where the linker script puts them, both demo task sets, with and without the
  fault-injection task, pass every boot check.
\<close>

theorem shipped_configurations_admissible:
  assumes "linked env" shows "boot_admissible env"
  by (rule linked_admissible [OF assms])

theorem shipped_configurations_admissible_witness:
  "boot_admissible (demo_env\<lparr>demo_hml := True, fault_demo := True\<rparr>)"
  by (rule shipped_configurations_admissible) (simp add: linked_def demo_env_def)

section \<open>Scheduling\<close>

text \<open>
  C2: in every state reachable from a live one by traps and by stores of the running task, exactly one
  task is \<open>Running\<close>, it is the current one, and no \<open>Ready\<close> task has a higher effective priority.
\<close>

theorem highest_priority_runs:
  assumes "live pf idle k" and "(kstep pf idle)\<^sup>*\<^sup>* k k'"
  shows "(\<exists>t. current_task k' = Some t \<and> td_state t = Running) \<and>
         (\<forall>i < MAX_TASKS. \<forall>d. registry k' ! i = Some d \<longrightarrow>
            (td_state d = Running \<longrightarrow> i = unat (current_task_idx k')) \<and>
            (td_state d = Ready \<longrightarrow> effective_priority d \<le> current_effective k'))"
proof -
  have s: "sched_inv k'"
    using reachable_live [OF assms(2,1)] by (simp add: kernel_invs)
  have "effective_priority d \<le> current_effective k'"
    if "i < MAX_TASKS" "registry k' ! i = Some d" "td_state d = Ready" for i d
  proof -
    have "(of_nat i, effective_priority d) \<in># pq_bag (ready_queue k')"
      using s that in_ready_bag [of _ _ "registry k'"] by (auto simp: sched_inv_def core_inv_def)
    then show ?thesis using s by (fastforce simp: sched_inv_def running_best_def)
  qed
  moreover have "i = unat (current_task_idx k')"
    if "i < MAX_TASKS" "registry k' ! i = Some d" "td_state d = Running" for i d
    using s that by (auto simp: sched_inv_def core_inv_def unat_of_nat)
  moreover have "\<exists>t. current_task k' = Some t \<and> td_state t = Running"
    using s by (auto simp: sched_inv_def running_def current_task_def)
  ultimately show ?thesis by blast
qed

theorem highest_priority_runs_witness:
  "\<exists>t. current_task booted = Some t \<and> td_state t = Running"
  using highest_priority_runs [OF booted_live rtranclp.rtrancl_refl] by blast

text \<open>
  C3: from the state a boot leaves, every reachable state is well-formed: the task table, the heap of the ready
  queue and the channels have their declared lengths, the current task, the queued tasks and the ring-buffer
  positions are in range, the queue has room to take the running task back, and every registered task has a
  saved frame of 32 registers.
\<close>

theorem reachable_state_in_bounds:
  assumes "clean_reset pf r" and "kernel_main pf env (initial_kernel m r t fs) = Inr (frame, k0)"
    and "(kstep pf (length (boot_tasks env) - 1))\<^sup>*\<^sup>* k0 k"
  shows "kernel_typed pf k"
proof -
  have "boot_done pf env m frame k0"
    using kernel_main_boots [OF assms(1), of env m t fs] assms(2) by (auto split: if_splits)
  from reachable_live [OF assms(3) boot_done_live(1) [OF this]] show ?thesis
    by (auto simp: live_def intro: kernel_inv_typed)
qed

theorem reachable_state_in_bounds_witness: "kernel_typed demo_platform booted"
  by (rule reachable_state_in_bounds [OF demo_clean demo_boots(1) [unfolded demo_reset_def] rtranclp.rtrancl_refl])

text \<open>
  C5: a system call of any task but the idle task always returns, whatever its number and arguments:
  the handler neither panics nor halts, it hands the entry stub the frame of the task that is now
  current, which lies on that task's own kernel stack, and the new state is live again.
\<close>

theorem system_calls_return:
  assumes "live pf idle k" and "is_ecall f" and "length (regs f) = 32" and "unat (current_task_idx k) \<noteq> idle"
  shows "\<exists>k'. trap_handler pf hw (frame_of (current_task_idx k) k) (saved f k) =
                Inr (frame_slot (kernel_stacks pf) (unat (current_task_idx k')), k') \<and> live pf idle k'"
proof -
  obtain task where task: "current_task k = Some task" using live_task [OF assms(1)] by blast
  have "kernel_inv pf k" "available idle k" using assms(1) by (simp_all add: live_def)
  from ecall_returns [OF this(1) assms(3,2) this(2) _ task, of hw] assms(4) obtain k' where
    k': "trap_handler pf hw (frame_of (current_task_idx k) k) (saved f k) =
          Inr (frame_of (current_task_idx k') k', k')" "served pf k k'"
    by (auto simp: returns_def)
  have "kstep pf idle k k'" by (rule kstep.ecall [OF assms(2,3,4) k'(1)])
  with kstep_live [OF _ assms(1)] have "live pf idle k'" by blast
  then show ?thesis using k'(1) current_frame(1) [of pf k'] by (auto simp: live_def)
qed

theorem system_calls_return_witness:
  "\<exists>k'. trap_handler demo_platform \<lparr>hw_entry = 0, hw_mtime = 0, hw_exit = 0\<rparr>
           (frame_of (current_task_idx booted) booted)
           (saved \<lparr>regs = (replicate 32 0)[REG_A7 := SYS_SLEEP, REG_A0 := 10], mepc = 0x80001000, mstatus = 0,
                   mcause = 8, mtval = 0\<rparr> booted) =
         Inr (frame_slot 0x80081000 (unat (current_task_idx k')), k') \<and> live demo_platform 3 k'"
  using system_calls_return [OF booted_live, of "\<lparr>regs = (replicate 32 0)[REG_A7 := SYS_SLEEP, REG_A0 := 10],
      mepc = 0x80001000, mstatus = 0, mcause = 8, mtval = 0\<rparr>" "\<lparr>hw_entry = 0, hw_mtime = 0, hw_exit = 0\<rparr>"]
  by (simp add: is_ecall_def booted_current demo_platform_def)

text \<open>
  C6: a timer interrupt halts the kernel exactly when some task's stack canary is overwritten, and
  names such a task; otherwise it returns to the task that is now current, leaves the memory, the
  channels and every saved frame alone and wakes exactly the sleepers whose tick has come.
\<close>

theorem timer_interrupt_outcome:
  assumes "kernel_inv pf k" and "is_timer f" and "length (regs f) = 32"
  shows "if \<exists>i < task_count k. stack_overflow k i
         then \<exists>i < task_count k. stack_overflow k i \<and>
           trap_handler pf hw (frame_of (current_task_idx k) k) (saved f k) = Inl (StackCanaryOverwritten i)
         else \<exists>k'. trap_handler pf hw (frame_of (current_task_idx k) k) (saved f k) =
                     Inr (frame_of (current_task_idx k') k', k') \<and> timed pf (hw_mtime hw) f k k'"
  using timer_returns [OF assms(1,3,2), of hw] timer_stops [OF assms(1,3,2), of _ hw] by auto

theorem timer_interrupt_outcome_witness:
  "\<exists>k'. trap_handler demo_platform \<lparr>hw_entry = 0, hw_mtime = 10000, hw_exit = 0\<rparr>
       (frame_of (current_task_idx booted) booted)
       (saved \<lparr>regs = replicate 32 0, mepc = 0x80001000, mstatus = 0, mcause = 0x80000007, mtval = 0\<rparr> booted) =
       Inr (frame_of (current_task_idx k') k', k') \<and>
     tick_count (clint k') = tick_count (clint booted) + 1"
proof -
  have k: "kernel_inv demo_platform booted" using booted_live by (simp add: live_def)
  have "\<not> (\<exists>i < task_count booted. stack_overflow booted i)"
    using booted_no_overflow by blast
  with timer_interrupt_outcome [OF k, of "\<lparr>regs = replicate 32 0, mepc = 0x80001000, mstatus = 0,
      mcause = 0x80000007, mtval = 0\<rparr>" "\<lparr>hw_entry = 0, hw_mtime = 10000, hw_exit = 0\<rparr>"]
  show ?thesis by (auto simp: is_timer_def timed_def timer_isr_def Let_def)
qed

text \<open>
  C13: a task that sleeps for \<open>n\<close> ticks, \<open>n\<close> up to \<open>2^31\<close>, stays blocked through every interleaving of
  system calls and stores with fewer than \<open>n\<close> timer interrupts (a request for 0 ticks counts as 1), and
  the next timer interrupt after \<open>n - 1\<close> of them makes it ready.
\<close>

theorem sleep_is_exact:
  assumes "live pf idle k" and "unat (current_task_idx k) \<noteq> idle" and "unat n \<le> 2 ^ 31"
    and "sleep_current pf (frame_of (current_task_idx k) k) n k = Inr (frame, k1)"
    and "ksteps pf idle e k1 k2"
  shows "(e < unat (max n 1) \<longrightarrow> (\<exists>w. waits k2 ! unat (current_task_idx k) = Some (Sleep, w))) \<and>
         (Suc e = unat (max n 1) \<longrightarrow>
            (\<forall>k3. kstep pf idle k2 k3 \<longrightarrow> tick_count (clint k3) = tick_count (clint k2) + 1 \<longrightarrow>
               waits k3 ! unat (current_task_idx k) = None))"
proof -
  let ?i = "unat (current_task_idx k)" and ?n = "unat (max n 1)"
  obtain k1' where k1': "sleep_current pf (frame_of (current_task_idx k) k) n k =
        Inr (frame_of (current_task_idx k1') k1', k1')" "live pf idle k1'" "clint k1' = clint k"
      "waits k1' ! ?i = Some (Sleep, tick_count (clint k) + max n 1)"
    using sleep_current_live [OF assms(1) refl assms(2), of n] by blast
  with assms(4) have k1: "live pf idle k1" "clint k1 = clint k"
    "waits k1 ! ?i = Some (Sleep, tick_count (clint k1) + of_nat ?n)" by auto
  have n: "0 < ?n" "?n \<le> 2 ^ 31" using assms(3) by (auto simp: max_def unat_gt_0 word_le_nat_alt)
  have i: "?i < MAX_TASKS"
    using assms(1) current_slot by (fastforce simp: kernel_invs)
  show ?thesis
    using sleep_run [OF assms(5) k1(1) i k1(3) n] sleep_wakes [OF assms(5) k1(1) i k1(3) n(2)] by blast
qed

theorem sleep_is_exact_witness:
  "\<exists>frame k1. sleep_current demo_platform (frame_of (current_task_idx booted) booted) 10 booted = Inr (frame, k1) \<and>
     (\<exists>w. waits k1 ! 0 = Some (Sleep, w))"
proof -
  have cur: "unat (current_task_idx booted) \<noteq> 3" by (simp add: booted_current)
  from sleep_current_live [OF booted_live refl this, of 10] obtain frame k1 where
    k1: "sleep_current demo_platform (frame_of (current_task_idx booted) booted) 10 booted = Inr (frame, k1)" by blast
  from sleep_is_exact [OF booted_live cur _ k1 ksteps.start] k1 show ?thesis
    by (auto simp: booted_current max_def)
qed

text \<open>
  C40: a request to sleep more than \<open>2^31 + 1\<close> ticks is served by the very next timer tick, because the
  deadline is compared as a signed difference.
\<close>

theorem long_sleep_wakes_at_once:
  assumes "live pf idle k" and "unat (current_task_idx k) \<noteq> idle" and "2 ^ 31 + 1 < unat n"
    and "sleep_current pf (frame_of (current_task_idx k) k) n k = Inr (frame, k1)"
    and "ksteps pf idle 0 k1 k2" and "kstep pf idle k2 k3"
    and "tick_count (clint k3) = tick_count (clint k2) + 1"
  shows "waits k1 ! unat (current_task_idx k) = Some (Sleep, tick_count (clint k1) + n) \<and>
         waits k3 ! unat (current_task_idx k) = None"
proof -
  let ?i = "unat (current_task_idx k)"
  have n: "max n 1 = n" using assms(3) by (simp add: word_le_nat_alt)
  have k1: "live pf idle k1" "clint k1 = clint k" "waits k1 ! ?i = Some (Sleep, tick_count (clint k) + max n 1)"
    using sleep_current_live [OF assms(1) refl assms(2), of n] assms(4) by auto
  have i: "?i < MAX_TASKS" using assms(1) current_slot by (fastforce simp: kernel_invs)
  from sleep_until_tick [OF assms(5) refl k1(1) i k1(3)]
  have k2: "waits k2 ! ?i = Some (Sleep, tick_count (clint k) + max n 1)" "clint k2 = clint k" using k1(2) by simp_all
  have "clint k3 \<noteq> clint k2" using assms(7) by auto
  with kstep_sleepers [OF assms(6) ksteps_live [OF assms(5) k1(1)] i k2(1)]
    far_deadline_reached [OF assms(3), of "tick_count (clint k)"] assms(7)
  have "waits k3 ! ?i = None" by (simp add: k2(2))
  with k1 n show ?thesis by simp
qed

theorem long_sleep_wakes_at_once_witness:
  "\<exists>frame k1 k3. sleep_current demo_platform (frame_of (current_task_idx booted) booted) 0x80000002 booted =
                   Inr (frame, k1) \<and>
     waits k1 ! 0 = Some (Sleep, tick_count (clint k1) + 0x80000002) \<and>
     kstep demo_platform 3 k1 k3 \<and> waits k3 ! 0 = None"
proof -
  have cur: "unat (current_task_idx booted) \<noteq> 3" by (simp add: booted_current)
  from sleep_current_live [OF booted_live refl this, of "0x80000002"] obtain frame k1 where
    k1: "sleep_current demo_platform (frame_of (current_task_idx booted) booted) 0x80000002 booted = Inr (frame, k1)"
      "live demo_platform 3 k1" "kept booted k1" by blast
  from demo_tick [OF k1(2,3)] obtain k3 where
    k3: "kstep demo_platform 3 k1 k3" "tick_count (clint k3) = tick_count (clint k1) + 1" by blast
  from long_sleep_wakes_at_once [OF booted_live cur _ k1(1) ksteps.start k3] k1(1) k3(1) show ?thesis
    by (auto simp: booted_current)
qed

section \<open>Priority inheritance\<close>

text \<open>A table that gives every holder at least the priority of each task that requires what it holds.\<close>

definition table_covers :: "u8 list \<Rightarrow> task_descriptor list \<Rightarrow> bool" where
  "table_covers tbl ds \<longleftrightarrow>
     (\<forall>h < length ds. \<forall>w < length ds. h \<noteq> w \<longrightarrow>
        td_exclusive_cap_mask (ds ! h) AND td_required_cap_mask (ds ! w) \<noteq> 0 \<longrightarrow>
        td_priority (ds ! w) \<le> tbl ! h)"

lemma boot_table_covers: "table_covers (boot_table env) (boot_tasks env)"
proof (cases "demo_hml env")
  case True
  have "\<forall>d \<in> set (boot_tasks env). td_priority d \<le> 3"
    using True by (simp add: task_set_defs IDLE_PRIORITY_def Let_def)
  moreover have "h = 0" if "h < length (boot_tasks env)" "td_exclusive_cap_mask (boot_tasks env ! h) \<noteq> 0" for h
  proof (rule ccontr)
    assume "h \<noteq> 0"
    then obtain g where g: "h = Suc g" by (cases h) auto
    then have "tl (boot_tasks env) ! g \<in> set (tl (boot_tasks env))" using that(1) by (intro nth_mem) simp
    then have "boot_tasks env ! h \<in> set (tl (boot_tasks env))" using that(1) g by (simp add: nth_tl)
    moreover have "\<forall>d \<in> set (tl (boot_tasks env)). td_exclusive_cap_mask d = 0"
      using True by (simp add: task_set_defs Let_def)
    ultimately show False using that(2) by blast
  qed
  moreover have "boot_table env ! 0 = 3" using True by (simp add: boot_table_def HML_MAX_INHERITED_PRIORITIES_def)
  ultimately show ?thesis unfolding table_covers_def by (metis and_zero_eq nth_mem zero_and_eq)
next
  case False
  then have "\<forall>d \<in> set (boot_tasks env). td_required_cap_mask d = 0" by (simp add: task_set_defs Let_def)
  then show ?thesis by (simp add: table_covers_def)
qed

text \<open>The slot of a reachable state holds the descriptor the boot registered, with its inherited priority.\<close>

lemma reachable_descriptor:
  assumes "boot_done pf env m frame k0" and "(kstep pf (length (boot_tasks env) - 1))\<^sup>*\<^sup>* k0 k"
    and i: "i < MAX_TASKS" and d: "registry k ! i = Some d"
  shows "i < length (boot_tasks env) \<and>
         td_static d = td_static ((boot_tasks env ! i)\<lparr>td_max_inherited_priority := boot_table env ! i\<rparr>)"
proof -
  from reachable_live [OF assms(2) boot_done_live(1) [OF assms(1)]] have
    k: "live pf (length (boot_tasks env) - 1) k" "statics k = statics k0" "task_count k = task_count k0" by auto
  have wf: "table_wf k" using k(1) by (auto simp: kernel_invs intro: sched_inv_wf)
  then have n: "i < length (boot_tasks env)"
    using assms(1) i d k(3) by (auto simp: table_wf_def boot_done_def)
  have "statics k ! i = Some (td_static d)" using wf i d by (simp add: statics_def table_wf_def)
  with n assms(1) k(2) show ?thesis by (auto simp: boot_done_def)
qed

text \<open>
  C4: in every state reachable from the boot of any configuration that passes the checks, a task that
  holds a peripheral another task requires has an effective priority at least that of the other task,
  and while the holder can run, so does whatever task is running: no task below the waiter's priority
  delays the holder.
\<close>

theorem no_priority_inversion:
  assumes "clean_reset pf r" and "kernel_main pf env (initial_kernel m r t fs) = Inr (frame, k0)"
    and "(kstep pf (length (boot_tasks env) - 1))\<^sup>*\<^sup>* k0 k"
    and "h < MAX_TASKS" and "w < MAX_TASKS" and "h \<noteq> w" and "registry k ! h = Some dh" and "registry k ! w = Some dw"
    and "td_exclusive_cap_mask dh AND td_required_cap_mask dw \<noteq> 0"
  shows "td_priority dw \<le> effective_priority dh \<and>
         (td_state dh = Ready \<or> td_state dh = Running \<longrightarrow> td_priority dw \<le> current_effective k)"
proof -
  have bd: "boot_done pf env m frame k0"
    using kernel_main_boots [OF assms(1), of env m t fs] assms(2) by (auto split: if_splits)
  note dh = reachable_descriptor [OF bd assms(3,4,7)] and dw = reachable_descriptor [OF bd assms(3,5,8)]
  have "td_exclusive_cap_mask (boot_tasks env ! h) AND td_required_cap_mask (boot_tasks env ! w) \<noteq> 0"
    using assms(9) td_static_fields(7) [OF conjunct2 [OF dh]] td_static_fields(9) [OF conjunct2 [OF dw]] by simp
  then have "td_priority (boot_tasks env ! w) \<le> boot_table env ! h"
    using boot_table_covers [of env] dh dw assms(6) by (auto simp: table_covers_def)
  then have "td_priority dw \<le> td_max_inherited_priority dh"
    using td_static_fields(10) [OF conjunct2 [OF dh]] td_static_fields(2) [OF conjunct2 [OF dw]] by simp
  then have eff: "td_priority dw \<le> effective_priority dh" by (simp add: effective_priority_def le_max_iff_disj)
  have s: "sched_inv k"
    using reachable_live [OF assms(3) boot_done_live(1) [OF bd]] by (auto simp: kernel_invs)
  have "effective_priority dh \<le> current_effective k" if "td_state dh = Ready"
  proof -
    have "(of_nat h, effective_priority dh) \<in># pq_bag (ready_queue k)"
      using s that assms(4,7) in_ready_bag [of _ _ "registry k"] by (auto simp: sched_inv_def core_inv_def)
    then show ?thesis using s by (fastforce simp: sched_inv_def running_best_def)
  qed
  moreover have "effective_priority dh = current_effective k" if "td_state dh = Running"
    using s that assms(4,7) by (auto simp: sched_inv_def core_inv_def current_effective_def task_ptr_of_nat)
  ultimately show ?thesis using eff by auto
qed

theorem no_priority_inversion_witness:
  "\<exists>frame k d. kernel_main demo_platform (demo_env\<lparr>demo_hml := True\<rparr>) demo_reset = Inr (frame, k) \<and>
     registry k ! 0 = Some d \<and> td_priority d = 1 \<and> 3 \<le> effective_priority d"
proof -
  let ?env = "demo_env\<lparr>demo_hml := True\<rparr>"
  have "linked ?env" by (simp add: linked_def demo_env_def)
  then obtain frame k where main: "kernel_main demo_platform ?env demo_reset = Inr (frame, k)"
    and bd: "boot_done demo_platform ?env demo_memory frame k"
    using kernel_main_boots [OF demo_clean, of ?env demo_memory
        "\<lparr>tick_count = 0, next_deadline = 0, mtimecmp = 0\<rparr>" Map.empty] linked_admissible
    unfolding demo_reset_def by auto
  have n: "length (boot_tasks ?env) = 4" by (simp add: boot_tasks_length demo_env_def)
  have wf: "table_wf k" "task_count k = 4" using boot_done_live [OF bd] n by simp_all
  then have "registry k ! 0 \<noteq> None" "registry k ! 2 \<noteq> None" by (simp_all add: table_wf_def)
  then obtain d w where dw: "registry k ! 0 = Some d" "registry k ! 2 = Some w" by blast
  have d: "td_static d = td_static ((boot_tasks ?env ! 0)\<lparr>td_max_inherited_priority := boot_table ?env ! 0\<rparr>)"
    using reachable_descriptor [OF bd rtranclp.rtrancl_refl _ dw(1)] by simp
  have w: "td_static w = td_static ((boot_tasks ?env ! 2)\<lparr>td_max_inherited_priority := boot_table ?env ! 2\<rparr>)"
    using reachable_descriptor [OF bd rtranclp.rtrancl_refl _ dw(2)] by simp
  have f: "td_priority d = 1" "td_exclusive_cap_mask d = 1" "td_priority w = 3" "td_required_cap_mask w = 1"
    using td_static_fields(2,7) [OF d] td_static_fields(2,9) [OF w]
    by (simp_all add: task_set_defs demo_env_def)
  have "td_priority w \<le> effective_priority d"
    using no_priority_inversion [OF demo_clean main [unfolded demo_reset_def] rtranclp.rtrancl_refl _ _ _ dw]
    by (simp add: f)
  with main dw(1) f show ?thesis by auto
qed

section \<open>Isolation\<close>

text \<open>
  C7: with protection enabled and the other tasks (the idle task apart) in user mode, in regions the
  protection registers can express, a byte that lies in no writable range of another task keeps its value
  through every run in which its owner does not run, whatever the other tasks store and whatever
  system calls they make; this includes the runs of \<open>mstep\<close> if no other task's region holds an address of the
  kernel.
\<close>

theorem private_memory_preserved:
  assumes "live pf idle k" and "pmp_feature pf" and "confined {idle, j} k"
    and "private_to j a k"
    and "(away pf idle j)\<^sup>*\<^sup>* k k' \<or> kernel_apart pf {idle, j} k \<and> (machine_away pf idle j)\<^sup>*\<^sup>* k k'"
  shows "mem k' a = mem k a"
proof -
  have "(away pf idle j)\<^sup>*\<^sup>* k k'" using assms(5) machine_away_run [OF _ assms(1-3)] by blast
  from away_memory [OF this assms(1-4)] show ?thesis .
qed

theorem private_memory_preserved_witness:
  "mem (booted\<lparr>mem := (mem booted)(0x800B8010 := 7)\<rparr>) 0x800B9010 = mem booted 0x800B9010"
proof (rule private_memory_preserved [OF booted_live])
  show "pmp_feature demo_platform" by (simp add: demo_platform_def)
  show "confined {3, 1} booted" by (rule confined_mono [OF booted_confined]) simp
  show "private_to 1 0x800B9010 booted" using booted_ranges(2) by (simp add: private_to_def)
  have "away demo_platform 3 1 booted (booted\<lparr>mem := (mem booted)(0x800B8010 := 7)\<rparr>)"
    using booted_store by (simp add: away_def booted_current)
  then show "(away demo_platform 3 1)\<^sup>*\<^sup>* booted (booted\<lparr>mem := (mem booted)(0x800B8010 := 7)\<rparr>) \<or>
      kernel_apart demo_platform {3, 1} booted \<and>
      (machine_away demo_platform 3 1)\<^sup>*\<^sup>* booted (booted\<lparr>mem := (mem booted)(0x800B8010 := 7)\<rparr>)" by blast
qed

text \<open>
  C25: with protection enabled and the other tasks (the idle task apart) in user mode, in expressible
  regions that hold nothing of the kernel, the registers saved for a task survive every run of the
  machine in which it does not run, also where a store into the memory of the kernel could change
  anything: it resumes with exactly the context it was interrupted with.
\<close>

theorem saved_context_preserved:
  assumes "live pf idle k" and "pmp_feature pf" and "confined {idle, j} k" and "kernel_apart pf {idle, j} k"
    and "j < task_count k" and "(machine_away pf idle j)\<^sup>*\<^sup>* k k'"
  shows "live pf idle k' \<and>
         frames k' (frame_slot (kernel_stacks pf) j) = frames k (frame_slot (kernel_stacks pf) j) \<and>
         (\<exists>f. frames k' (frame_slot (kernel_stacks pf) j) = Some f \<and> length (regs f) = 32)"
proof -
  have run: "(away pf idle j)\<^sup>*\<^sup>* k k'" by (rule machine_away_run [OF assms(6,1-4)])
  have live: "live pf idle k'" "task_count k' = task_count k"
    using reachable_live [OF away_kstep [OF run] assms(1)] by auto
  then have "frames_inv pf k'" by (simp add: kernel_invs)
  then have "\<exists>f. frames k' (frame_slot (kernel_stacks pf) j) = Some f \<and> length (regs f) = 32"
    using assms(5) live(2) by (simp add: frames_inv_def)
  with away_frames [OF run assms(1,5)] live(1) show ?thesis by blast
qed

theorem saved_context_preserved_witness:
  "\<exists>f. frames (booted\<lparr>mem := (mem booted)(0x800B8010 := 7)\<rparr>) (frame_slot 0x80081000 1) = Some f"
proof -
  have "confined {3, 1} booted" "kernel_apart demo_platform {3, 1} booted"
    by (rule confined_mono [OF booted_confined] kernel_apart_mono [OF booted_apart], simp)+
  moreover have "machine_away demo_platform 3 1 booted (booted\<lparr>mem := (mem booted)(0x800B8010 := 7)\<rparr>)"
    using booted_store by (simp add: machine_away_def booted_current mstep.regular)
  then have "(machine_away demo_platform 3 1)\<^sup>*\<^sup>* booted (booted\<lparr>mem := (mem booted)(0x800B8010 := 7)\<rparr>)" by blast
  moreover have "1 < task_count booted" "pmp_feature demo_platform" by (simp_all add: booted_count demo_platform_def)
  ultimately have "\<exists>f. frames (booted\<lparr>mem := (mem booted)(0x800B8010 := 7)\<rparr>)
      (frame_slot (kernel_stacks demo_platform) 1) = Some f"
    using saved_context_preserved [OF booted_live] by blast
  then show ?thesis unfolding demo_platform_def by (simp only: platform.simps)
qed

text \<open>
  C27: with protection enabled, \<open>SYS_LOG\<close> reveals nothing the calling user task could not read itself: it
  either fails and changes nothing, or prints exactly the bytes of the buffer, every one of which the
  protection registers let the task read in user mode.
\<close>

theorem log_reads_only_own_memory:
  assumes "live pf idle k" and "pmp_feature pf" and "current_task k = Some t" and "td_mode t = User"
    and "expressible (td_memory_start t) (td_memory_end t)" and "placed t"
    and "0x80000000 \<le> fst (flash_image pf)" and "snd (flash_image pf) \<le> 0x80080000"
  shows "sys_log pf ptr len k \<in> {(EPERM, k), (EFAULT, k)} \<or>
         sys_log pf ptr len k =
           (len, k\<lparr>uart := fold uart_putchar (read_bytes (mem k) ptr (unat len)) (uart k)\<rparr>) \<and>
         (\<forall>i < unat len. user_perms (pmp k) (unat (ptr + of_nat i)) AND PMP_R \<noteq> 0)"
proof -
  have inv: "kernel_inv pf k" using assms(1) by (simp add: live_def)
  have "user_perms (pmp k) (unat (ptr + of_nat i)) AND PMP_R \<noteq> 0"
    if "buffer_readable ptr len (readable_ranges pf t)" and "i < unat len" for i
    using readable_bytes [OF that] readable_by_user [OF assms(2) inv assms(3-8)] by blast
  then show ?thesis by (simp add: sys_log_def assms(3))
qed

theorem log_reads_only_own_memory_witness:
  "sys_log demo_platform 0x800B8010 4 booted =
     (4, booted\<lparr>uart := fold uart_putchar (read_bytes (mem booted) 0x800B8010 4) (uart booted)\<rparr>) \<and>
   user_perms (pmp booted) (unat (0x800B8012 :: usize)) AND PMP_R \<noteq> 0"
proof -
  obtain t where t: "current_task booted = Some t" "td_mode t = User" "td_memory_start t = 0x800B8000"
    "td_memory_end t = 0x800B9000" "td_shared_cap_mask t = 0x80000000" "td_stack_base t = 0x800B8000"
    "td_stack_size t = 4096" using booted_user by blast
  have log: "sys_log demo_platform 0x800B8010 4 booted =
      (4, booted\<lparr>uart := fold uart_putchar (read_bytes (mem booted) 0x800B8010 4) (uart booted)\<rparr>)"
    by (simp add: sys_log_def t may_log_def CONSOLE_CAP_BIT_def CONSOLE_PERIPHERAL_ID_def buffer_readable_def
        checked_add_def readable_ranges_def)
  then have "sys_log demo_platform 0x800B8010 4 booted \<notin> {(EPERM, booted), (EFAULT, booted)}"
    by (simp add: EPERM_def EFAULT_def)
  moreover have "expressible (td_memory_start t) (td_memory_end t)" "placed t"
    by (simp_all add: t expressible_def placed_def)
  ultimately have "\<forall>i < unat (4 :: usize). user_perms (pmp booted) (unat (0x800B8010 + of_nat i :: usize)) AND PMP_R \<noteq> 0"
    using log_reads_only_own_memory [OF booted_live _ t(1,2), of "0x800B8010" 4] by (simp add: demo_platform_def)
  from this [rule_format, of 2] log show ?thesis by simp
qed

text \<open>
  C26: with protection enabled, a store of a user task outside its region stops the system, if
  the region is expressible and no region holds an address of the kernel: the machine
  raises a store access fault, and its handler halts with the cause, the address of the instruction and
  the address it meant to write; a store inside the region (and outside the flash image) changes
  exactly the byte.
\<close>

theorem stray_store_halts:
  assumes "live pf idle k" and "pmp_feature pf" and "current_task k = Some t" and "td_mode t = User"
    and "expressible (td_memory_start t) (td_memory_end t)"
    and "kernel_apart pf {idle} k" and "unat (current_task_idx k) \<noteq> idle"
  shows "store_outcome pf hw f a v k r \<longleftrightarrow>
           r = (if in_range (td_memory_start t, td_memory_end t) (unat a) \<and> \<not> in_range (0x80000000, 0x80080000) (unat a)
                then Inr (k\<lparr>mem := (mem k)(a := v)\<rparr>)
                else Inl (HardwareFault 7 (mepc f) a))"
proof -
  have inv: "kernel_inv pf k" "sched_inv k" using assms(1) by (auto simp: kernel_invs)
  have "\<not> kernel_data pf a" if "in_range (td_memory_start t, td_memory_end t) (unat a)"
    using kernel_apart_task [OF assms(6) inv(2) assms(3) _ _ that] assms(7) by (simp add: writable_ranges_def)
  from store_outcome_user [OF assms(2) inv(1) assms(3-5) this] show ?thesis .
qed

theorem stray_store_halts_witness:
  "store_outcome demo_platform \<lparr>hw_entry = 0, hw_mtime = 0, hw_exit = 0\<rparr>
     \<lparr>regs = replicate 32 0, mepc = 0x80001000, mstatus = 0, mcause = 0, mtval = 0\<rparr> 0x80081000 7 booted
     (Inl (HardwareFault 7 0x80001000 0x80081000)) \<and>
   \<not> store_outcome demo_platform \<lparr>hw_entry = 0, hw_mtime = 0, hw_exit = 0\<rparr>
     \<lparr>regs = replicate 32 0, mepc = 0x80001000, mstatus = 0, mcause = 0, mtval = 0\<rparr> 0x80081000 7 booted
     (Inr (booted\<lparr>mem := (mem booted)(0x80081000 := 7)\<rparr>))"
proof -
  obtain t where t: "current_task booted = Some t" "td_mode t = User" "td_memory_start t = 0x800B8000"
    "td_memory_end t = 0x800B9000" using booted_user by blast
  have f: "pmp_feature demo_platform" "expressible (td_memory_start t) (td_memory_end t)"
    "unat (current_task_idx booted) \<noteq> 3"
    by (simp_all add: t demo_platform_def expressible_def booted_current)
  show ?thesis
    unfolding stray_store_halts [OF booted_live f(1) t(1,2) f(2) booted_apart f(3)] by (simp add: t in_range_def)
qed

section \<open>Communication\<close>

text \<open>
  C14: along every run, the messages a channel delivers are, in order and without loss or duplication,
  the ones it held and the ones sent on it, up to those it still holds; only the owner of the sending
  end sends, only the owner of the receiving end receives, and at most \<open>CHANNEL_CAPACITY\<close> messages wait.
\<close>

theorem channels_deliver_in_order:
  assumes "live pf idle k" and "(kstep pf idle)\<^sup>*\<^sup>* k k'" and "c < MAX_CHANNELS"
  shows "\<exists>sent received. exchange pf idle c k sent received k' \<and>
           queued c k @ sent = received @ queued c k' \<and> length (queued c k') \<le> CHANNEL_CAPACITY"
proof -
  obtain s r where run: "exchange pf idle c k s r k'" using run_exchange [OF assms(2,1,3)] by blast
  have "chan_inv (channels k')" using reachable_live [OF assms(2,1)] by (simp add: kernel_invs)
  then have "channels k' ! c \<in> set (channels k')" "ch_wf (channels k' ! c)" "ch_capacity (channels k' ! c) = CHANNEL_CAPACITY"
    using assms(3) by (auto simp: chan_inv_def)
  then have "length (queued c k') \<le> CHANNEL_CAPACITY"
    by (simp add: queued_def ch_contents_length ch_wf_def)
  with run exchange_order [OF run] show ?thesis by blast
qed

theorem channels_deliver_in_order_witness:
  "\<exists>sent received. exchange demo_platform 3 0 booted sent received (booted\<lparr>mem := (mem booted)(0x800B8010 := 7)\<rparr>)"
  using channels_deliver_in_order [OF booted_live r_into_rtranclp [of "kstep demo_platform 3", OF booted_store], of 0]
  by auto

text \<open>
  C17: no wake-up is lost: in every reachable state a task is blocked on receiving only while its
  channel is empty and on sending only while its channel is full, and it owns that end of it.
\<close>

theorem no_lost_wakeup:
  assumes "live pf idle k" and "(kstep pf idle)\<^sup>*\<^sup>* k k'"
    and "i < MAX_TASKS" and "registry k' ! i = Some d" and "td_state d = Blocked"
  shows "case td_blocked_on d of
           Send c \<Rightarrow> ch_is_full (channels k' ! unat c) \<and> mask_has (td_sends_mask d) (unat c)
         | Receive c \<Rightarrow> ch_is_empty (channels k' ! unat c) \<and> mask_has (td_receives_mask d) (unat c)
         | _ \<Rightarrow> True"
proof -
  have inv: "core_inv k'" "wait_inv k'"
    using reachable_live [OF assms(2,1)] by (auto simp: kernel_invs sched_inv_def)
  have len: "length (registry k') = MAX_TASKS" using inv(1) by (simp add: core_inv_def table_wf_def)
  have "waits k' ! i = Some (td_blocked_on d, td_wake_at d)"
    using waits_nth [OF inv(1) assms(3)] assms(4,5) by (simp add: wait_of_def)
  then have "wait_owner (statics k') i (td_blocked_on d)" "must_wait (channels k') (td_blocked_on d)"
    using inv(2) assms(3) by (auto simp: wait_inv_def)
  moreover have "statics k' ! i = Some (td_static d)" using assms(3,4) len by (simp add: statics_def)
  ultimately show ?thesis
    by (cases "td_blocked_on d") (auto simp: sends_on_def receives_on_def td_static_sel)
qed

theorem no_lost_wakeup_witness:
  "\<exists>(k :: kernel) d. registry k ! 1 = Some d \<and> td_state d = Blocked \<and> td_blocked_on d = Receive 0 \<and>
         ch_is_empty (channels k ! 0) \<and> mask_has (td_receives_mask d) 0"
proof -
  obtain k task where k: "live demo_platform 3 k" "current_task k = Some task" "unat (current_task_idx k) = 1"
    "blocks_on demo_platform task k receive_frame = Some (Receive 0)" using filter_blocks by blast
  have cur: "unat (current_task_idx k) \<noteq> 3" using k(3) by simp
  have len: "length (waits k) = MAX_TASKS"
    using k(1) length_waits by (simp add: kernel_invs sched_inv_def)
  from ecall_blocks [OF k(1) receive_frame_ecall cur k(2,4)] obtain frame k' w hw where
    k': "trap_handler demo_platform hw (frame_of (current_task_idx k) k) (saved receive_frame k) = Inr (frame, k')"
      "waits k' ! 1 = Some (Receive 0, w)" using k(3) len by fastforce
  have step: "kstep demo_platform 3 k k'" by (rule kstep.ecall [OF receive_frame_ecall cur k'(1)])
  then have "core_inv k'" using kstep_live [OF step k(1)] by (simp add: kernel_invs sched_inv_def)
  then obtain d where d: "registry k' ! 1 = Some d" "td_state d = Blocked" "td_blocked_on d = Receive 0"
    using k'(2) waits_nth [of k' 1] by (auto simp: wait_of_def split: option.splits if_splits)
  from no_lost_wakeup [OF k(1) r_into_rtranclp [of "kstep demo_platform 3", OF step] _ d(1,2)] d show ?thesis by auto
qed

text \<open>
  C24: a blocking call that has to wait leaves no trace: the caller's saved registers are those with
  which it trapped, so that it issues the same call again when it resumes; no channel and no memory
  changes, and the caller waits for exactly the event that lets the call proceed.
\<close>

theorem blocked_call_restarts:
  assumes "live pf idle k" and "is_ecall f" and "length (regs f) = 32" and "unat (current_task_idx k) \<noteq> idle"
    and "current_task k = Some task" and "blocks_on pf task k f = Some r"
  shows "\<exists>k' w. trap_handler pf hw (frame_of (current_task_idx k) k) (saved f k) =
                  Inr (frame_of (current_task_idx k') k', k') \<and>
                mem k' = mem k \<and> channels k' = channels k \<and>
                frames k' (frame_of (current_task_idx k) k) = Some f \<and>
                waits k' = (waits k)[unat (current_task_idx k) := Some (r, w)]"
  using ecall_blocks [OF assms, of hw] by (auto simp: quiet_def)

theorem blocked_call_restarts_witness:
  "\<exists>k k'. trap_handler demo_platform \<lparr>hw_entry = 0, hw_mtime = 0, hw_exit = 0\<rparr>
            (frame_of (current_task_idx k) k) (saved receive_frame k) = Inr (frame_of (current_task_idx k') k', k') \<and>
          frames k' (frame_of (current_task_idx k) k) = Some receive_frame"
proof -
  obtain k task where k: "live demo_platform 3 k" "current_task k = Some task" "unat (current_task_idx k) = 1"
    "blocks_on demo_platform task k receive_frame = Some (Receive 0)" using filter_blocks by blast
  from blocked_call_restarts [OF k(1) receive_frame_ecall _ k(2,4)] k(3) show ?thesis by fastforce
qed

text \<open>
  C15: what is sent is what is received: a send with room in the channel appends one message to it, and
  a receive that finds this message at the front, at any later time and in any task, stores exactly the
  bytes the sender's buffer held (cut at the receiver's capacity) and returns their number.
\<close>

theorem received_bytes_are_sent_bytes:
  assumes "kernel_inv pf k" and "frame = frame_of (current_task_idx k) k"
    and "current_task k = Some task" and "channel_at (channels k) (unat ch) = Some chan"
    and "holds_endpoint (td_sends_mask task) ch" and "unat len \<le> MSG_MAX"
    and "buffer_readable ptr len (readable_ranges pf task)" and "\<not> ch_is_full chan"
  shows "\<exists>k1 m. sys_send pf frame ch ptr len flags k = Inr (frame_of (current_task_idx k1) k1, k1) \<and>
           queued (unat ch) k1 = queued (unat ch) k @ [m] \<and>
           (\<forall>k2 task2 rest ptr2 cap flags2.
              may_receive pf ch ptr2 cap task2 k2 \<longrightarrow> queued (unat ch) k2 = m # rest \<longrightarrow>
              receives_bytes pf ch ptr2 cap flags2 k2 (read_bytes (mem k) ptr (unat len)) rest)"
proof -
  have at: "channels k ! unat ch = chan" "unat ch < length (channels k)"
    using assms(1,4) by (auto simp: kernel_inv_def chan_inv_def channel_at_def split: if_splits)
  from sys_send_room [OF assms, of flags] obtain k1 chan' m where
    k1: "sys_send pf frame ch ptr len flags k = Inr (frame_of (current_task_idx k1) k1, k1)"
      "channels k1 = (channels k)[unat ch := chan']" "ch_contents chan' = ch_contents chan @ [m]"
      "message_bytes m = Inr (read_bytes (mem k) ptr (unat len))"
    by (auto simp: returns_def)
  then have "queued (unat ch) k1 = queued (unat ch) k @ [m]" using at by (simp add: queued_def)
  with k1(1,4) receive_bytes show ?thesis by blast
qed

theorem received_bytes_are_sent_bytes_witness:
  "\<exists>k1 m. sys_send demo_platform (frame_of (current_task_idx booted) booted) 0 0x800B8F00 16 0 booted =
            Inr (frame_of (current_task_idx k1) k1, k1) \<and> queued 0 k1 = [m]"
proof -
  obtain t where t: "current_task booted = Some t" "td_memory_start t = 0x800B8000" "td_memory_end t = 0x800B9000"
    "td_sends_mask t = 1" using booted_user by blast
  have "kernel_inv demo_platform booted" using booted_live by (simp add: live_def)
  moreover have "channel_at (channels booted) (unat (0 :: usize)) = Some (channel_new CHANNEL_CAPACITY)"
    by (simp add: booted_channels channel_table_def channel_at_def)
  moreover have "queued 0 booted = []"
    by (simp add: queued_def booted_channels channel_table_def channel_new_def ch_contents_def)
  moreover have "\<not> ch_is_full (channel_new CHANNEL_CAPACITY :: message channel)"
    by (simp add: ch_is_full_def channel_new_def ch_capacity_def)
  moreover have "holds_endpoint (td_sends_mask t) 0" "buffer_readable 0x800B8F00 16 (readable_ranges demo_platform t)"
    by (simp_all add: t holds_endpoint_def mask_has_def buffer_readable_def checked_add_def readable_ranges_def)
  ultimately show ?thesis
    using received_bytes_are_sent_bytes [OF _ refl t(1), where pf = demo_platform and ch = 0 and len = 16
        and ptr = "0x800B8F00" and flags = 0]
    by fastforce
qed

end
